(* ===== verification/Prelude.thy ===== *)
theory Prelude
  imports Main "HOL-Library.Word"
begin

text \<open>
  Shared base of the development: the C integer types, the results of calls that may
  stop the program, the helper macros of the utility headers the sources include, bit
  scans, and the lemmas on words and lists that the components share.

  The utility library (\<^verbatim>\<open>ax_type.h\<close>, \<^verbatim>\<open>ax_error.h\<close>, \<^verbatim>\<open>ax_memory.h\<close>) is not part of the
  repository. Three of its conventions are fixed by the way the sources use them:
  \<^item> \<^verbatim>\<open>BIT(n)\<close> is the mask with bit \<open>n\<close> set: \<^verbatim>\<open>_ir_reg_assoc_flags\<close> builds with
    \<^verbatim>\<open>(used << 1) | spill\<close> what \<^verbatim>\<open>_ir_reg_assoc_used\<close> reads with \<^verbatim>\<open>BIT(1)\<close>, and the opcode
    layout comments number the bits the same way;
  \<^item> result codes are distinct constants and \<^verbatim>\<open>AX_SUCC\<close> is the one that is not an error;
  \<^item> \<^verbatim>\<open>asrt(c, ..)\<close> stops the program when \<^verbatim>\<open>c\<close> is false: several functions have no
    \<^verbatim>\<open>return\<close> after \<^verbatim>\<open>asrt(0)\<close>.
  Everything else of that library is a parameter of the definitions that use it.
\<close>

unbundle bit_operations_syntax

section \<open>Machine integers\<close>

type_synonym u8 = "8 word"
type_synonym u16 = "16 word"
type_synonym u32 = "32 word"
type_synonym u64 = "64 word"

section \<open>Results\<close>

datatype axres = AX_SUCC | AX_INV_ARG | AX_INV_BUF | AX_INV_DATA | AX_UNK_ERR
  | AX_NOT_IMP | AX_MTE_INV_INSTR | AX_BUF_TOO_SMALL

text \<open>
  Ways in which a call does not return to its caller: a failed \<^verbatim>\<open>asrt\<close>, a call of
  \<^verbatim>\<open>exit\<close>, an access outside an array, a null pointer dereference, a division by zero,
  a builtin applied where its result is undefined (these four have no defined
  behaviour in C), and a loop that never ends.
\<close>

datatype fault = Assert_Fail | Exit_Call | Out_Of_Bounds | Null_Deref | Div_By_Zero | Undefined_Value
  | Diverges

type_synonym 'a res = "fault + 'a"

definition and_then :: "'a res \<Rightarrow> ('a \<Rightarrow> 'b res) \<Rightarrow> 'b res" where
  "and_then r f = (case r of Inl e \<Rightarrow> Inl e | Inr x \<Rightarrow> f x)"

definition asrt :: "bool \<Rightarrow> unit res" where
  "asrt c = (if c then Inr () else Inl Assert_Fail)"

lemma and_then_simps [simp]:
  "and_then (Inl e) f = Inl e"
  "and_then (Inr x) f = f x"
  by (simp_all add: and_then_def)

lemma and_then_Inr_iff [simp]:
  "and_then r f = Inr y \<longleftrightarrow> (\<exists>x. r = Inr x \<and> f x = Inr y)"
  by (cases r) simp_all

lemma and_then_assoc: "and_then (and_then r f) g = and_then r (\<lambda>x. and_then (f x) g)"
  by (cases r) simp_all

lemma asrt_simps [simp]:
  "asrt True = Inr ()"
  "asrt False = Inl Assert_Fail"
  by (simp_all add: asrt_def)

lemma asrt_Inr_iff [simp]: "asrt c = Inr u \<longleftrightarrow> c"
  by (simp add: asrt_def)

text \<open>A loop over the elements of a list whose body may fault.\<close>

fun fold_res :: "('a \<Rightarrow> 's \<Rightarrow> 's res) \<Rightarrow> 'a list \<Rightarrow> 's \<Rightarrow> 's res" where
  "fold_res f [] s = Inr s"
| "fold_res f (x # xs) s = and_then (f x s) (fold_res f xs)"

lemma fold_res_append:
  "fold_res f (xs @ ys) s = and_then (fold_res f xs s) (fold_res f ys)"
proof (induction xs arbitrary: s)
  case (Cons x xs)
  then show ?case by (cases "f x s") simp_all
qed simp

section \<open>Helper macros\<close>

definition BIT :: "nat \<Rightarrow> 'a::len word" where
  "BIT n = push_bit n 1"

lemma bit_BIT [simp]: "bit (BIT n :: 'a::len word) k \<longleftrightarrow> k = n \<and> n < LENGTH('a)"
  by (auto simp: BIT_def bit_simps)

lemma and_BIT_eq_0_iff [simp]: "(w AND BIT n = 0) \<longleftrightarrow> \<not> bit w n" for w :: "'a::len word"
proof
  assume "w AND BIT n = 0"
  then have "\<not> bit (w AND BIT n) n" by simp
  then show "\<not> bit w n" by (auto simp: bit_simps dest: bit_imp_le_length)
next
  assume "\<not> bit w n"
  then show "w AND BIT n = 0" by (auto intro!: bit_word_eqI simp: bit_simps)
qed

lemma of_nat_and_mask:
  assumes "n < 2 ^ k"
  shows "(of_nat n :: 'a::len word) AND mask k = of_nat n"
proof -
  have "(of_nat n :: 'a word) AND mask k = take_bit k (of_nat n)" by (simp add: take_bit_eq_mask)
  also have "\<dots> = of_nat (take_bit k n)" by (rule take_bit_of_nat)
  finally show ?thesis using assms by (simp add: take_bit_nat_eq_self)
qed

lemma unat_ucast_up:
  "LENGTH('a) \<le> LENGTH('b) \<Longrightarrow> unat (ucast (w :: 'a::len word) :: 'b::len word) = unat w"
  by (rule bit_eqI) (auto simp: bit_simps dest: bit_imp_le_length)

text \<open>\<^verbatim>\<open>-(c)\<close> stored in a \<^verbatim>\<open>u8\<close>: all bits set when the condition holds.\<close>

definition mask_of :: "bool \<Rightarrow> 'a::len word" where
  "mask_of c = - of_bool c"

lemma mask_of_simps [simp]:
  "mask_of True = (-1 :: 'a::len word)"
  "mask_of False = (0 :: 'a::len word)"
  by (simp_all add: mask_of_def)

section \<open>Bit scans\<close>

text \<open>\<^verbatim>\<open>__builtin_ctzll\<close>, whose result for 0 is undefined, and \<^verbatim>\<open>__builtin_popcountll\<close>.\<close>

definition ctz :: "'a::len word \<Rightarrow> nat" where
  "ctz w = (case find (bit w) [0..<LENGTH('a)] of None \<Rightarrow> LENGTH('a) | Some i \<Rightarrow> i)"

definition popcount :: "'a::len word \<Rightarrow> nat" where
  "popcount w = length (filter (bit w) [0..<LENGTH('a)])"

lemma find_upt_Some:
  "find P [a..<b] = Some i \<longleftrightarrow> a \<le> i \<and> i < b \<and> P i \<and> (\<forall>j. a \<le> j \<and> j < i \<longrightarrow> \<not> P j)"
proof -
  have "find P [a..<b] = Some i \<longleftrightarrow>
    (\<exists>k < b - a. P (a + k) \<and> i = a + k \<and> (\<forall>j < k. \<not> P (a + j)))"
    by (auto simp: find_Some_iff)
  also have "\<dots> \<longleftrightarrow> a \<le> i \<and> i < b \<and> P i \<and> (\<forall>j. a \<le> j \<and> j < i \<longrightarrow> \<not> P j)"
  proof (intro iffI; elim exE conjE)
    fix k assume k: "k < b - a" "P (a + k)" "i = a + k" "\<forall>j < k. \<not> P (a + j)"
    have "\<not> P j" if "a \<le> j" "j < i" for j
      using k(4) [rule_format, of "j - a"] that k(3) by simp
    with k show "a \<le> i \<and> i < b \<and> P i \<and> (\<forall>j. a \<le> j \<and> j < i \<longrightarrow> \<not> P j)" by auto
  next
    assume "a \<le> i" "i < b" "P i" "\<forall>j. a \<le> j \<and> j < i \<longrightarrow> \<not> P j"
    then show "\<exists>k < b - a. P (a + k) \<and> i = a + k \<and> (\<forall>j < k. \<not> P (a + j))"
      by (intro exI [of _ "i - a"]) auto
  qed
  finally show ?thesis .
qed

lemma ctz_props:
  assumes "w \<noteq> (0 :: 'a::len word)"
  shows ctz_less: "ctz w < LENGTH('a)"
    and bit_ctz: "bit w (ctz w)"
    and not_bit_below_ctz: "j < ctz w \<Longrightarrow> \<not> bit w j"
proof -
  from assms obtain n where "bit w n" "n < LENGTH('a)"
    by (metis bit_imp_le_length bit_eq_iff bit_0_eq bot_apply bot_bool_def)
  then obtain i where i: "find (bit w) [0..<LENGTH('a)] = Some i"
    by (cases "find (bit w) [0..<LENGTH('a)]") (auto simp: find_None_iff)
  then have "ctz w = i" by (simp add: ctz_def)
  moreover from i have "i < LENGTH('a)" "bit w i" "\<forall>j < i. \<not> bit w j"
    by (auto simp: find_upt_Some)
  ultimately show "ctz w < LENGTH('a)" "bit w (ctz w)" "j < ctz w \<Longrightarrow> \<not> bit w j"
    by auto
qed

lemma ctz_eqI:
  assumes "bit (w :: 'a::len word) i" and "\<And>j. j < i \<Longrightarrow> \<not> bit w j"
  shows "ctz w = i"
proof -
  from assms(1) have "w \<noteq> 0" by auto
  note p = ctz_props [OF this]
  show ?thesis
    using p(2) p(3) assms by (meson linorder_neqE_nat)
qed

section \<open>Buffers\<close>

text \<open>Reading and writing an array element; an index outside the array is a fault.\<close>

definition arr :: "'a list \<Rightarrow> nat \<Rightarrow> 'a res" where
  "arr xs i = (if i < length xs then Inr (xs ! i) else Inl Out_Of_Bounds)"

definition arr_set :: "'a list \<Rightarrow> nat \<Rightarrow> 'a \<Rightarrow> 'a list res" where
  "arr_set xs i x = (if i < length xs then Inr (xs[i := x]) else Inl Out_Of_Bounds)"

lemma arr_in [simp]:
  "i < length xs \<Longrightarrow> arr xs i = Inr (xs ! i)"
  "i < length xs \<Longrightarrow> arr_set xs i x = Inr (xs[i := x])"
  by (simp_all add: arr_def arr_set_def)

lemma arr_Inr_iff:
  "arr xs i = Inr x \<longleftrightarrow> i < length xs \<and> x = xs ! i"
  "arr_set xs i y = Inr xs' \<longleftrightarrow> i < length xs \<and> xs' = xs[i := y]"
  by (auto simp: arr_def arr_set_def)

text \<open>Following a pointer.\<close>

definition deref :: "'a option \<Rightarrow> 'a res" where
  "deref p = (case p of None \<Rightarrow> Inl Null_Deref | Some x \<Rightarrow> Inr x)"

lemma deref_simps [simp]: "deref None = Inl Null_Deref" "deref (Some x) = Inr x"
  by (simp_all add: deref_def)

text \<open>Reading and writing \<open>n\<close> bytes of a buffer at an offset; an access past its end is a fault.\<close>

definition buf_read :: "'a list \<Rightarrow> nat \<Rightarrow> nat \<Rightarrow> 'a list res" where
  "buf_read m off n = (if off + n \<le> length m then Inr (take n (drop off m)) else Inl Out_Of_Bounds)"

definition buf_write :: "'a list \<Rightarrow> nat \<Rightarrow> 'a list \<Rightarrow> 'a list res" where
  "buf_write m off bs =
     (if off + length bs \<le> length m then Inr (take off m @ bs @ drop (off + length bs) m)
      else Inl Out_Of_Bounds)"

lemma buf_write_length: "buf_write m off bs = Inr m' \<Longrightarrow> length m' = length m"
  by (auto simp: buf_write_def split: if_splits)

lemma buf_read_write_same:
  "buf_write m off bs = Inr m' \<Longrightarrow> buf_read m' off (length bs) = Inr bs"
  by (auto simp: buf_write_def buf_read_def split: if_splits)

lemma buf_write_prefix: "buf_write m off bs = Inr m' \<Longrightarrow> take off m' = take off m"
  by (auto simp: buf_write_def split: if_splits)

text \<open>A little-endian load of a \<^verbatim>\<open>u32\<close>, as \<^verbatim>\<open>*(u32*)ptr\<close> does on the host.\<close>

definition le32 :: "u8 list \<Rightarrow> u32" where
  "le32 bs = ucast (bs ! 0) OR push_bit 8 (ucast (bs ! 1)) OR push_bit 16 (ucast (bs ! 2))
     OR push_bit 24 (ucast (bs ! 3))"

definition le32_bytes :: "u32 \<Rightarrow> u8 list" where
  "le32_bytes w = [ucast w, ucast (drop_bit 8 w), ucast (drop_bit 16 w), ucast (drop_bit 24 w)]"

lemma le32_le32_bytes: "le32 (le32_bytes w @ bs) = w"
proof (rule bit_word_eqI)
  fix n assume "n < LENGTH(32)"
  then consider "n < 8" | "8 \<le> n" "n < 16" | "16 \<le> n" "n < 24" | "24 \<le> n" "n < 32"
    by fastforce
  then show "bit (le32 (le32_bytes w @ bs)) n = bit w n"
    by cases (simp_all add: le32_def le32_bytes_def bit_or_iff bit_push_bit_iff bit_ucast_iff
      bit_drop_bit_eq, arith+)
qed

text \<open>A little-endian number of any width, and its bits.\<close>

fun le_word :: "u8 list \<Rightarrow> 'a::len word" where
  "le_word [] = 0"
| "le_word (b # bs) = ucast b OR push_bit 8 (le_word bs)"

lemma bit_le_word:
  "bit (le_word bs :: 'a::len word) n \<longleftrightarrow> n < LENGTH('a) \<and> n div 8 < length bs \<and> bit (bs ! (n div 8)) (n mod 8)"
proof (induction bs arbitrary: n)
  case (Cons b bs)
  show ?case
  proof (cases "n < 8")
    case True
    then show ?thesis by (auto simp: bit_simps)
  next
    case False
    then obtain m where "n = m + 8" by (metis le_add_diff_inverse2 linorder_not_less)
    moreover have "(m + 8) div 8 = Suc (m div 8)" by simp
    ultimately show ?thesis using Cons [of m]
      by (auto simp: bit_simps dest: bit_imp_le_length)
  qed
qed simp

end
