(* ===== verification/Arch.thy ===== *)
theory Arch
  imports Prelude
begin

text \<open>
  Architecture and CPU descriptions (\<^verbatim>\<open>mte/arch.h\<close>, \<^verbatim>\<open>mte/cpu.h\<close>, \<^verbatim>\<open>mte/core.h\<close>): the ISA forms
  and architecture tags, payload priorities, register roles, register maps and the raw
  instruction container every architecture shares. Enumerations whose numeric value the
  code computes with come with a value function.
\<close>

section \<open>ISA forms and architectures (arch.h)\<close>

datatype mte_isa_form = MTE_ORDER_MIN | MTE_ISA_TWO_OP | MTE_ISA_THREE_OP | MTE_ORDER_MAX

fun mte_isa_form_val :: "mte_isa_form \<Rightarrow> u8" where
  "mte_isa_form_val MTE_ORDER_MIN = 0"
| "mte_isa_form_val MTE_ISA_TWO_OP = 1"
| "mte_isa_form_val MTE_ISA_THREE_OP = 2"
| "mte_isa_form_val MTE_ORDER_MAX = 3"

datatype mte_arch = MTE_ARCH_MIN | INTEL64 | MIPS32 | MTE_ARCH_MAX

fun mte_arch_val :: "mte_arch \<Rightarrow> u32" where
  "mte_arch_val MTE_ARCH_MIN = 0"
| "mte_arch_val INTEL64 = push_bit 24 (ucast (mte_isa_form_val MTE_ISA_TWO_OP)) OR 1"
| "mte_arch_val MIPS32 = push_bit 24 (ucast (mte_isa_form_val MTE_ISA_THREE_OP)) OR 2"
| "mte_arch_val MTE_ARCH_MAX =
     (push_bit 24 (ucast (mte_isa_form_val MTE_ISA_THREE_OP)) OR 2) + 1"

definition MTE_ARCH_ISA_FORM :: "u32 \<Rightarrow> u8" where
  "MTE_ARCH_ISA_FORM arch = ucast (drop_bit 24 arch AND 0xff)"

lemma MTE_ARCH_ISA_FORM_simps [simp]:
  "MTE_ARCH_ISA_FORM (mte_arch_val INTEL64) = mte_isa_form_val MTE_ISA_TWO_OP"
  "MTE_ARCH_ISA_FORM (mte_arch_val MIPS32) = mte_isa_form_val MTE_ISA_THREE_OP"
  by (simp_all add: MTE_ARCH_ISA_FORM_def)

datatype mte_prior = MTE_PRIOR_MIN | PRIOR_MIN | PRIOR_LOW | PRIOR_MOD | PRIOR_MED
  | PRIOR_HIGH | PRIOR_VERY_HIGH | PRIOR_REAL | PRIOR_MAX | MTE_PRIOR_MAX

section \<open>Registers (cpu.h)\<close>

datatype cpu_reg_role = REG_RETURN | REG_TEMP | REG_PRESERVE | REG_STACK
  | REG_STACK_PTR | REG_FRAME_PTR | REG_MEM_PTR

fun cpu_reg_role_val :: "cpu_reg_role \<Rightarrow> u8" where
  "cpu_reg_role_val REG_RETURN = 0x01"
| "cpu_reg_role_val REG_TEMP = 0x02"
| "cpu_reg_role_val REG_PRESERVE = 0x03"
| "cpu_reg_role_val REG_STACK = 0x08"
| "cpu_reg_role_val REG_STACK_PTR = 0x10"
| "cpu_reg_role_val REG_FRAME_PTR = 0x11"
| "cpu_reg_role_val REG_MEM_PTR = 0x12"

record cpu_reg_desc =
  reg_value :: u64
  reg_role :: cpu_reg_role
  reg_id :: u8

text \<open>
  The role map sends a role to four 64-bit masks over the indices of the register array;
  a role without an initialiser in the source's table has four zero masks.
\<close>

record cpu_reg_map =
  reg_count :: u16
  reg_width :: u16
  role_map :: "cpu_reg_role \<Rightarrow> u64 list"
  reg_root :: "cpu_reg_desc list"

text \<open>
  A register map is consistent when its array has \<^verbatim>\<open>reg_count\<close> entries, entry \<open>i\<close> carries
  the identifier \<open>i\<close>, and the first mask of each role marks exactly the entries with that
  role.
\<close>

definition reg_ids_wf :: "cpu_reg_map \<Rightarrow> bool" where
  "reg_ids_wf m \<longleftrightarrow>
     length (reg_root m) = unat (reg_count m) \<and> length (reg_root m) \<le> 64 \<and>
     list_all (\<lambda>i. unat (reg_id (reg_root m ! i)) = i) [0..<length (reg_root m)]"

definition all_roles :: "cpu_reg_role list" where
  "all_roles = [REG_RETURN, REG_TEMP, REG_PRESERVE, REG_STACK, REG_STACK_PTR, REG_FRAME_PTR, REG_MEM_PTR]"

definition role_mask_wf :: "cpu_reg_map \<Rightarrow> cpu_reg_role \<Rightarrow> bool" where
  "role_mask_wf m r \<longleftrightarrow> length (role_map m r) = 4 \<and>
     list_all (\<lambda>i. bit (role_map m r ! 0) i \<longleftrightarrow>
        i < length (reg_root m) \<and> reg_role (reg_root m ! i) = r) [0..<64] \<and>
     list_all (\<lambda>q. role_map m r ! q = 0) [1, 2, 3]"

definition reg_map_wf :: "cpu_reg_map \<Rightarrow> bool" where
  "reg_map_wf m \<longleftrightarrow> reg_ids_wf m \<and> list_all (role_mask_wf m) all_roles"

lemmas reg_map_wf_defs = reg_map_wf_def reg_ids_wf_def role_mask_wf_def all_roles_def list_all_iff

section \<open>Raw instructions (core.h)\<close>

text \<open>\<^verbatim>\<open>sizeof(mte_raw_instr.payload)\<close>\<close>

definition MTE_PAYLOAD_SIZE :: nat where
  "MTE_PAYLOAD_SIZE = 60"

record mte_raw_instr =
  raw_arch :: mte_arch
  payload :: "u8 list"

definition mte_raw_instr_zero :: mte_raw_instr where
  "mte_raw_instr_zero = \<lparr>raw_arch = MTE_ARCH_MIN, payload = replicate MTE_PAYLOAD_SIZE 0\<rparr>"

end
