(* ===== verification/IR.thy ===== *)
theory IR
  imports Arch
begin

text \<open>
  The intermediate representation (\<^verbatim>\<open>mte/ir/ir_opcode.h\<close>, \<^verbatim>\<open>ir_operand.h\<close>, \<^verbatim>\<open>ir_instr.h\<close>): the
  16-bit opcode encoding and its readers, operands, operand sets and instructions.
\<close>

section \<open>Opcodes (ir_opcode.h)\<close>

definition IR_DEST_NEQ_SRC :: u16 where
  "IR_DEST_NEQ_SRC = BIT 2"

definition IR_OPI :: "u16 \<Rightarrow> u16 \<Rightarrow> u16 \<Rightarrow> u16" where
  "IR_OPI ret wid grp =
     push_bit 15 (ret AND 1) OR push_bit 13 (wid AND 3) OR (grp AND 0x1fff)"

definition IR_8BIT :: u16 where "IR_8BIT = 0"
definition IR_16BIT :: u16 where "IR_16BIT = 1"
definition IR_32BIT :: u16 where "IR_32BIT = 2"
definition IR_64BIT :: u16 where "IR_64BIT = 3"

datatype ir_opcode_group = IR_GROUP_INVALID | IR_GROUP_ADD | IR_GROUP_OR | IR_GROUP_AND
  | IR_GROUP_SUB | IR_GROUP_ALLOC | IR_GROUP_DEALLOC | IR_GROUP_MOV

fun ir_opcode_group_val :: "ir_opcode_group \<Rightarrow> u16" where
  "ir_opcode_group_val IR_GROUP_INVALID = 0"
| "ir_opcode_group_val IR_GROUP_ADD = 1"
| "ir_opcode_group_val IR_GROUP_OR = 2"
| "ir_opcode_group_val IR_GROUP_AND = 3"
| "ir_opcode_group_val IR_GROUP_SUB = 4"
| "ir_opcode_group_val IR_GROUP_ALLOC =
     push_bit 10 IR_DEST_NEQ_SRC OR (4 + 1)"
| "ir_opcode_group_val IR_GROUP_DEALLOC =
     push_bit 10 IR_DEST_NEQ_SRC OR ((push_bit 10 IR_DEST_NEQ_SRC OR (4 + 1)) + 1)"
| "ir_opcode_group_val IR_GROUP_MOV =
     push_bit 10 IR_DEST_NEQ_SRC OR
       ((push_bit 10 IR_DEST_NEQ_SRC OR ((push_bit 10 IR_DEST_NEQ_SRC OR (4 + 1)) + 1)) + 1)"

datatype ir_opcode = IR_INVALID_OPCODE
  | IR_ADD_I64 | IR_ADD_I32 | IR_ADD_I16 | IR_ADD_I8
  | IR_OR_I64 | IR_OR_I32 | IR_OR_I16 | IR_OR_I8
  | IR_AND_I64 | IR_AND_I32 | IR_AND_I16 | IR_AND_I8
  | IR_SUB_I64 | IR_SUB_I32 | IR_SUB_I16 | IR_SUB_I8
  | IR_MOV_I64 | IR_MOV_I32 | IR_MOV_I16 | IR_MOV_I8
  | IR_ALLOC | IR_DEALLOC

fun ir_opcode_val :: "ir_opcode \<Rightarrow> u16" where
  "ir_opcode_val IR_INVALID_OPCODE = 0"
| "ir_opcode_val IR_ADD_I64 = IR_OPI 1 IR_64BIT (ir_opcode_group_val IR_GROUP_ADD)"
| "ir_opcode_val IR_ADD_I32 = IR_OPI 1 IR_32BIT (ir_opcode_group_val IR_GROUP_ADD)"
| "ir_opcode_val IR_ADD_I16 = IR_OPI 1 IR_16BIT (ir_opcode_group_val IR_GROUP_ADD)"
| "ir_opcode_val IR_ADD_I8 = IR_OPI 1 IR_8BIT (ir_opcode_group_val IR_GROUP_ADD)"
| "ir_opcode_val IR_OR_I64 = IR_OPI 1 IR_64BIT (ir_opcode_group_val IR_GROUP_OR)"
| "ir_opcode_val IR_OR_I32 = IR_OPI 1 IR_32BIT (ir_opcode_group_val IR_GROUP_OR)"
| "ir_opcode_val IR_OR_I16 = IR_OPI 1 IR_16BIT (ir_opcode_group_val IR_GROUP_OR)"
| "ir_opcode_val IR_OR_I8 = IR_OPI 1 IR_8BIT (ir_opcode_group_val IR_GROUP_OR)"
| "ir_opcode_val IR_AND_I64 = IR_OPI 1 IR_64BIT (ir_opcode_group_val IR_GROUP_AND)"
| "ir_opcode_val IR_AND_I32 = IR_OPI 1 IR_32BIT (ir_opcode_group_val IR_GROUP_AND)"
| "ir_opcode_val IR_AND_I16 = IR_OPI 1 IR_16BIT (ir_opcode_group_val IR_GROUP_AND)"
| "ir_opcode_val IR_AND_I8 = IR_OPI 1 IR_8BIT (ir_opcode_group_val IR_GROUP_AND)"
| "ir_opcode_val IR_SUB_I64 = IR_OPI 1 IR_64BIT (ir_opcode_group_val IR_GROUP_SUB)"
| "ir_opcode_val IR_SUB_I32 = IR_OPI 1 IR_32BIT (ir_opcode_group_val IR_GROUP_SUB)"
| "ir_opcode_val IR_SUB_I16 = IR_OPI 1 IR_16BIT (ir_opcode_group_val IR_GROUP_SUB)"
| "ir_opcode_val IR_SUB_I8 = IR_OPI 1 IR_8BIT (ir_opcode_group_val IR_GROUP_SUB)"
| "ir_opcode_val IR_MOV_I64 = IR_OPI 1 IR_64BIT (ir_opcode_group_val IR_GROUP_MOV)"
| "ir_opcode_val IR_MOV_I32 = IR_OPI 1 IR_32BIT (ir_opcode_group_val IR_GROUP_MOV)"
| "ir_opcode_val IR_MOV_I16 = IR_OPI 1 IR_16BIT (ir_opcode_group_val IR_GROUP_MOV)"
| "ir_opcode_val IR_MOV_I8 = IR_OPI 1 IR_8BIT (ir_opcode_group_val IR_GROUP_MOV)"
| "ir_opcode_val IR_ALLOC = IR_OPI 1 IR_32BIT (ir_opcode_group_val IR_GROUP_ALLOC)"
| "ir_opcode_val IR_DEALLOC = IR_OPI 1 IR_32BIT (ir_opcode_group_val IR_GROUP_DEALLOC)"

definition IR_OPCODE_HAS_RETURN :: "u16 \<Rightarrow> u16" where
  "IR_OPCODE_HAS_RETURN opc = drop_bit 15 opc AND 1"

definition IR_OPCODE_WIDTH :: "u16 \<Rightarrow> u16" where
  "IR_OPCODE_WIDTH opc = drop_bit 13 opc AND 3"

definition IR_OPCODE_FLAGS :: "u16 \<Rightarrow> u16" where
  "IR_OPCODE_FLAGS opc = drop_bit 10 opc AND 7"

definition IR_OPCODE_GROUP :: "u16 \<Rightarrow> u16" where
  "IR_OPCODE_GROUP opc = opc AND 0x3ff"

definition ir_opcode_swap_group :: "u16 \<Rightarrow> u16 \<Rightarrow> u16" where
  "ir_opcode_swap_group opc grp = (opc AND NOT 0x1fff) OR grp"

section \<open>Operands and instructions (ir_operand.h, ir_instr.h)\<close>

datatype ir_operand_kind = IR_OP_REG | IR_OP_MEM | IR_OP_IMM

fun ir_operand_kind_val :: "ir_operand_kind \<Rightarrow> nat" where
  "ir_operand_kind_val IR_OP_REG = 0"
| "ir_operand_kind_val IR_OP_MEM = 1"
| "ir_operand_kind_val IR_OP_IMM = 2"

record ir_operand =
  kind :: ir_operand_kind
  op_id :: u8

definition ir_operand_zero :: ir_operand where
  "ir_operand_zero = \<lparr>kind = IR_OP_REG, op_id = 0\<rparr>"

text \<open>\<open>ops\<close> is the array \<^verbatim>\<open>ir_operand ops[6]\<close>.\<close>

record ir_operand_set =
  ops :: "ir_operand list"
  ops_count :: u8

definition ir_operand_set_zero :: ir_operand_set where
  "ir_operand_set_zero = \<lparr>ops = replicate 6 ir_operand_zero, ops_count = 0\<rparr>"

definition ir_operand_set_wf :: "ir_operand_set \<Rightarrow> bool" where
  "ir_operand_set_wf s \<longleftrightarrow> length (ops s) = 6 \<and> unat (ops_count s) \<le> 6"

record ir_raw_instr =
  opcode :: u16
  opset :: ir_operand_set

definition ir_raw_instr_zero :: ir_raw_instr where
  "ir_raw_instr_zero = \<lparr>opcode = ir_opcode_val IR_INVALID_OPCODE, opset = ir_operand_set_zero\<rparr>"

text \<open>\<^verbatim>\<open>sizeof(ir_raw_instr)\<close>: a 2-byte opcode, six 2-byte operands and a count, padded to 16.\<close>

definition SIZEOF_IR_RAW_INSTR :: nat where
  "SIZEOF_IR_RAW_INSTR = 16"

section \<open>The opcode encoding\<close>

text \<open>The masks of the encoding as \<open>mask\<close>, so that \<open>bit_simps\<close> applies.\<close>

lemma ir_field_masks:
  "(1 :: u16) = mask 1" "(3 :: u16) = mask 2" "(7 :: u16) = mask 3"
  "(0x3ff :: u16) = mask 10" "(0x1fff :: u16) = mask 13"
  by (simp_all add: mask_eq_exp_minus_1)

text \<open>The fields of an encoded opcode are read back by the reader macros.\<close>

lemma IR_OPI_readers:
  "IR_OPCODE_HAS_RETURN (IR_OPI r w g) = r AND 1"
  "IR_OPCODE_WIDTH (IR_OPI r w g) = w AND 3"
  "IR_OPCODE_FLAGS (IR_OPI r w g) = IR_OPCODE_FLAGS g"
  "IR_OPCODE_GROUP (IR_OPI r w g) = IR_OPCODE_GROUP g"
  unfolding IR_OPI_def IR_OPCODE_HAS_RETURN_def IR_OPCODE_WIDTH_def IR_OPCODE_FLAGS_def
    IR_OPCODE_GROUP_def ir_field_masks
  by (rule bit_word_eqI, fastforce simp: bit_simps)+

text \<open>
  Replacing the group of an opcode keeps its return and width fields and takes over the
  flags and the group of the new one.
\<close>

lemma ir_opcode_swap_group_OPI:
  assumes "g' AND 0x1fff = g'"
  shows "ir_opcode_swap_group (IR_OPI r w g) g' = IR_OPI r w g'"
proof (rule bit_word_eqI)
  fix n assume "n < LENGTH(16)"
  have "bit g' n \<longleftrightarrow> bit g' n \<and> n < 13"
    by (subst assms [symmetric, unfolded ir_field_masks]) (auto simp: bit_simps)
  then show "bit (ir_opcode_swap_group (IR_OPI r w g) g') n = bit (IR_OPI r w g') n"
    unfolding IR_OPI_def ir_opcode_swap_group_def ir_field_masks
    by (auto simp: bit_simps)
qed

text \<open>The opcode encoding loses nothing. The enumerated opcodes have different values, the reader
  macros return the fields an opcode was built from, and swapping the group of an opcode gives the
  opcode built with the new group and the old return and width fields.
\<close>

theorem ir_opcode_encoding:
  "inj ir_opcode_val \<and>
   (\<forall>r w g. IR_OPCODE_HAS_RETURN (IR_OPI r w g) = r AND 1 \<and> IR_OPCODE_WIDTH (IR_OPI r w g) = w AND 3 \<and>
      IR_OPCODE_FLAGS (IR_OPI r w g) = IR_OPCODE_FLAGS g \<and> IR_OPCODE_GROUP (IR_OPI r w g) = IR_OPCODE_GROUP g) \<and>
   (\<forall>r w g G. ir_opcode_swap_group (IR_OPI r w g) (ir_opcode_group_val G) = IR_OPI r w (ir_opcode_group_val G))"
proof (intro conjI allI)
  show "inj ir_opcode_val"
    by (rule injI) (case_tac x; case_tac y; simp add: IR_OPI_def IR_8BIT_def IR_16BIT_def IR_32BIT_def
        IR_64BIT_def IR_DEST_NEQ_SRC_def BIT_def)
next
  fix r w g G
  have "ir_opcode_group_val G AND 0x1fff = ir_opcode_group_val G"
    by (cases G) (simp_all add: IR_DEST_NEQ_SRC_def BIT_def)
  then show "ir_opcode_swap_group (IR_OPI r w g) (ir_opcode_group_val G) = IR_OPI r w (ir_opcode_group_val G)"
    by (rule ir_opcode_swap_group_OPI)
qed (rule IR_OPI_readers)+

end
