(* ===== verification/IR_Context.thy ===== *)
theory IR_Context
  imports IR
begin

text \<open>
  The translation context (\<^verbatim>\<open>mte/ir/ir.h\<close>): guest and host buffers, the current positions in
  them, the two register maps, the call interface and the architectures. A call slot that
  holds one of the \<^verbatim>\<open>_invalid_*\<close> functions, which exit the program, is \<open>None\<close>.
\<close>

type_synonym guest_to_ir_call = "mte_raw_instr option \<Rightarrow> bool \<Rightarrow> u8 option \<Rightarrow> (ir_raw_instr \<times> u8 option) res"
type_synonym ir_to_host_call = "ir_raw_instr \<Rightarrow> bool \<Rightarrow> u8 option \<Rightarrow> (mte_raw_instr \<times> u8 option) res"
type_synonym guest_reg_fetch_call = "mte_raw_instr option \<Rightarrow> bool \<Rightarrow> u8 option \<Rightarrow> (ir_operand_set \<times> u8 option) res"

definition IR_REG_LIMIT :: nat where "IR_REG_LIMIT = 0x100"

text \<open>
  Buffers are their contents; the pointers \<^verbatim>\<open>guest_ptr\<close> and \<^verbatim>\<open>host_ptr\<close> are offsets into them.
\<close>

record ir_context =
  guest_base :: "u8 list"
  guest_capacity :: u32
  host_base :: "u8 list"
  host_capacity :: u32
  guest_ptr :: nat
  host_ptr :: nat
  guest_map :: "cpu_reg_map option"
  host_map :: "cpu_reg_map option"
  guest_to_ir :: "guest_to_ir_call option"
  ir_to_host :: "ir_to_host_call option"
  guest_reg_fetch :: "guest_reg_fetch_call option"
  guest_arch :: mte_arch
  host_arch :: mte_arch
  version :: u64
  blocked :: bool

definition call_guest_to_ir :: "ir_context \<Rightarrow> guest_to_ir_call" where
  "call_guest_to_ir ir instr ctx_present len =
    (case guest_to_ir ir of None \<Rightarrow> Inl Exit_Call | Some f \<Rightarrow> f instr ctx_present len)"

definition call_ir_to_host :: "ir_context \<Rightarrow> ir_to_host_call" where
  "call_ir_to_host ir instr ctx_present len =
    (case ir_to_host ir of None \<Rightarrow> Inl Exit_Call | Some f \<Rightarrow> f instr ctx_present len)"

definition call_guest_reg_fetch :: "ir_context \<Rightarrow> guest_reg_fetch_call" where
  "call_guest_reg_fetch ir instr ctx_present len =
    (case guest_reg_fetch ir of None \<Rightarrow> Inl Exit_Call | Some f \<Rightarrow> f instr ctx_present len)"

end
