(* ===== verification/Asm_Alloc.thy ===== *)
theory Asm_Alloc
  imports IR_Context
begin

text \<open>
  Register states and associations (\<^verbatim>\<open>ir/tblock/asm/asm_types.h\<close>) and the host register
  allocator (\<^verbatim>\<open>asm_alloc.c\<close>).
\<close>

section \<open>Types (asm_types.h)\<close>

type_synonym asm_reg_liveness = u8

record asm_reg_assoc =
  a_flags :: u8
  a_id :: u16

definition ir_reg_assoc_used :: "asm_reg_assoc \<Rightarrow> bool" where
  "ir_reg_assoc_used assoc = (a_flags assoc AND BIT 1 \<noteq> 0)"

definition ir_reg_assoc_spilled :: "asm_reg_assoc \<Rightarrow> bool" where
  "ir_reg_assoc_spilled assoc = (a_flags assoc AND BIT 0 \<noteq> 0)"

definition ir_reg_assoc_flags :: "bool \<Rightarrow> bool \<Rightarrow> u8" where
  "ir_reg_assoc_flags used spill = push_bit 1 (of_bool used) OR of_bool spill"

definition asm_reg_assoc_zero :: asm_reg_assoc where
  "asm_reg_assoc_zero = \<lparr>a_flags = 0, a_id = 0\<rparr>"

datatype asm_reg_state = REG_FREE | REG_OCCUPIED

lemma ir_reg_assoc_flags_read [simp]:
  "ir_reg_assoc_used \<lparr>a_flags = ir_reg_assoc_flags u s, a_id = i\<rparr> = u"
  "ir_reg_assoc_spilled \<lparr>a_flags = ir_reg_assoc_flags u s, a_id = i\<rparr> = s"
  by (cases u; cases s; simp add: ir_reg_assoc_used_def ir_reg_assoc_spilled_def ir_reg_assoc_flags_def)+

section \<open>The allocator (asm_alloc.c)\<close>

text \<open>
  The loop \<^verbatim>\<open>while (count < n)\<close>: \<open>k\<close> is \<^verbatim>\<open>n - count\<close>. \<^verbatim>\<open>__builtin_ctz\<close> takes the lower 32 bits of the
  mask. The result is the index and the identifier of the register found, if one is free.
\<close>

fun alloc_loop :: "cpu_reg_map \<Rightarrow> asm_reg_state list \<Rightarrow> nat \<Rightarrow> u64 \<Rightarrow> (nat \<times> u8) option res" where
  "alloc_loop m st 0 msk = Inr None"
| "alloc_loop m st (Suc k) msk =
    (if (ucast msk :: u32) = 0 then Inl Undefined_Value
     else
      (let idx = unat ((of_nat (ctz (ucast msk :: u32)) :: u8) AND 0x0f)
       in and_then (arr (reg_root m) idx) (\<lambda>reg.
            and_then (arr st idx) (\<lambda>s.
              (if s \<noteq> REG_FREE then alloc_loop m st k (msk AND NOT (BIT idx))
               else Inr (Some (idx, reg_id reg)))))))"

definition asm_alloc_space ::
  "cpu_reg_map option \<Rightarrow> cpu_reg_role \<Rightarrow> asm_reg_state list option
     \<Rightarrow> (u16 \<times> asm_reg_state list option) res" where
  "asm_alloc_space reg_map role state_map =
    (case reg_map of None \<Rightarrow> Inr (0, state_map)
     | Some m \<Rightarrow>
       (case state_map of None \<Rightarrow> Inr (0, None)
        | Some st \<Rightarrow>
          (let mask = role_map m role ! 0; n = popcount mask
           in and_then (alloc_loop m st n mask) (\<lambda>alloc.
                (case alloc of
                   None \<Rightarrow> Inr (push_bit 8 1, state_map)
                 | Some (idx, i) \<Rightarrow> Inr (ucast i, Some (st[idx := REG_OCCUPIED])))))))"

section \<open>What the allocator does\<close>

text \<open>
  On a consistent map with at most 16 registers the allocator returns the first free register
  of the role, and the spill mark exactly when the role has no free register.
\<close>

definition free_of_role :: "cpu_reg_map \<Rightarrow> cpu_reg_role \<Rightarrow> asm_reg_state list \<Rightarrow> nat \<Rightarrow> bool" where
  "free_of_role m role st i \<longleftrightarrow> reg_role (reg_root m ! i) = role \<and> st ! i = REG_FREE"

definition alloc_spec ::
  "cpu_reg_map \<Rightarrow> cpu_reg_role \<Rightarrow> asm_reg_state list \<Rightarrow> u16 \<times> asm_reg_state list" where
  "alloc_spec m role st =
    (case find (free_of_role m role st) [0..<length (reg_root m)] of
       None \<Rightarrow> (0x100, st)
     | Some i \<Rightarrow> (of_nat i, st[i := REG_OCCUPIED]))"

lemma reg_map_wf_role:
  assumes "reg_map_wf m"
  shows "bit (role_map m role ! 0) i \<longleftrightarrow> i < length (reg_root m) \<and> reg_role (reg_root m ! i) = role"
proof (cases "i < 64")
  case True
  with assms show ?thesis by (cases role) (auto simp: reg_map_wf_defs)
next
  case False
  moreover from assms have "length (reg_root m) \<le> 64" by (simp add: reg_map_wf_defs)
  ultimately show ?thesis by (auto dest: bit_imp_le_length)
qed

lemma popcount_clear:
  assumes "bit (w :: 'a::len word) i"
  shows "popcount w = Suc (popcount (w AND NOT (BIT i)))"
proof -
  have i: "i < LENGTH('a)" using assms by (rule bit_imp_le_length)
  have split: "[0..<LENGTH('a)] = [0..<i] @ i # [Suc i..<LENGTH('a)]"
    using i upt_add_eq_append [of 0 i "LENGTH('a) - i"] by (simp add: upt_conv_Cons)
  have "filter (bit (w AND NOT (BIT i))) [0..<i] = filter (bit w) [0..<i]"
    "filter (bit (w AND NOT (BIT i))) [Suc i..<LENGTH('a)] = filter (bit w) [Suc i..<LENGTH('a)]"
    using i by (auto intro!: filter_cong simp: bit_simps)
  then show ?thesis using assms i by (simp add: popcount_def split bit_simps)
qed

lemma popcount_eq_0 [simp]: "popcount w = 0 \<longleftrightarrow> w = 0"
proof
  assume "popcount w = 0"
  then have "\<forall>i < LENGTH('a). \<not> bit w i" by (auto simp: popcount_def filter_empty_conv)
  then show "w = 0" by (auto intro: bit_word_eqI)
qed (simp add: popcount_def)

text \<open>
  The mask of an iteration holds the registers of the role that were not tried yet; every
  tried one was occupied and lies below the others.
\<close>

lemma alloc_loop_find:
  assumes "reg_map_wf m" "length (reg_root m) \<le> 16" "length (reg_root m) \<le> length st"
    and "\<And>i. bit msk i \<longleftrightarrow> lo \<le> i \<and> i < length (reg_root m) \<and> reg_role (reg_root m ! i) = role"
    and "\<And>i. i < lo \<Longrightarrow> i < length (reg_root m) \<Longrightarrow> \<not> free_of_role m role st i"
  shows "alloc_loop m st (popcount msk) msk =
    Inr (map_option (\<lambda>i. (i, of_nat i)) (find (free_of_role m role st) [0..<length (reg_root m)]))"
  using assms(4,5)
proof (induction "popcount msk" arbitrary: msk lo)
  case 0
  then have "msk = 0" by simp
  then have "\<not> free_of_role m role st i" if "i < length (reg_root m)" for i
    using 0(2) [of i] 0(3) [of i] that by (cases "i < lo") (auto simp: free_of_role_def)
  then have "find (free_of_role m role st) [0..<length (reg_root m)] = None"
    by (auto simp: find_None_iff)
  with \<open>msk = 0\<close> show ?case by (simp add: popcount_def)
next
  case (Suc k)
  let ?w = "ucast msk :: u32"
  have bits: "bit ?w i \<longleftrightarrow> bit msk i" for i
    using Suc.prems(1) [of i] assms(2) by (auto simp: bit_simps)
  have "msk \<noteq> 0" using Suc.hyps(2) by (metis popcount_eq_0 Zero_not_Suc)
  then have w: "?w \<noteq> 0" using bits by (metis bit_eq_iff bit_0_eq bot_apply bot_bool_def)
  define idx where "idx = ctz ?w"
  have idx: "bit msk idx" "\<And>j. j < idx \<Longrightarrow> \<not> bit msk j"
    unfolding idx_def using bit_ctz [OF w] not_bit_below_ctz [OF w] bits by blast+
  then have idx_props: "lo \<le> idx" "idx < length (reg_root m)" "reg_role (reg_root m ! idx) = role"
    using Suc.prems(1) by blast+
  then have "idx < 16" using assms(2) by simp
  then have "(of_nat idx :: u8) AND 0x0f = of_nat idx"
    using of_nat_and_mask [of idx 4, where 'a = 8] by (simp add: mask_eq_exp_minus_1)
  then have nat_idx: "unat ((of_nat (ctz ?w) :: u8) AND 0x0f) = idx"
    using \<open>idx < 16\<close> unfolding idx_def [symmetric] by (simp add: unat_of_nat)
  have rid: "reg_id (reg_root m ! idx) = of_nat idx"
    using assms(1) idx_props(2) \<open>idx < 16\<close>
    by (intro word_unat_eq_iff [THEN iffD2]) (simp add: reg_map_wf_defs unat_of_nat)
  have low: "\<not> free_of_role m role st j" if "j < idx" "j < length (reg_root m)" for j
    using Suc.prems(1) [of j] Suc.prems(2) [of j] idx(2) [OF that(1)] that
    by (cases "j < lo") (auto simp: free_of_role_def)
  show ?case
  proof (cases "st ! idx = REG_FREE")
    case True
    then have "find (free_of_role m role st) [0..<length (reg_root m)] = Some idx"
      using idx_props low by (auto simp: find_upt_Some free_of_role_def)
    with True show ?thesis
      using idx_props assms(3) rid w nat_idx by (simp add: Suc.hyps(2) [symmetric] Let_def)
  next
    case False
    let ?msk' = "msk AND NOT (BIT idx)"
    have k: "k = popcount ?msk'"
      using popcount_clear [OF idx(1)] Suc.hyps(2) by simp
    have m': "bit ?msk' i \<longleftrightarrow> Suc idx \<le> i \<and> i < length (reg_root m) \<and> reg_role (reg_root m ! i) = role" for i
      using Suc.prems(1) [of i] idx(2) [of i] idx_props(1)
      by (auto simp: bit_simps dest: bit_imp_le_length) (meson linorder_neqE_nat Suc_leI)+
    have low': "\<not> free_of_role m role st i" if "i < Suc idx" "i < length (reg_root m)" for i
      using low [of i] that False by (cases "i = idx") (auto simp: free_of_role_def)
    have "alloc_loop m st (Suc k) msk = alloc_loop m st k ?msk'"
      using False idx_props assms(3) w nat_idx by (simp add: Let_def)
    also have "\<dots> = Inr (map_option (\<lambda>i. (i, of_nat i))
        (find (free_of_role m role st) [0..<length (reg_root m)]))"
      unfolding k by (rule Suc.hyps(1) [OF k m' low'])
    finally show ?thesis by (simp add: Suc.hyps(2) [symmetric])
  qed
qed

theorem asm_alloc_space_spec:
  assumes "reg_map_wf m" "length (reg_root m) \<le> 16" "length (reg_root m) \<le> length st"
  shows "asm_alloc_space (Some m) role (Some st) =
    Inr (map_prod id Some (alloc_spec m role st))"
proof -
  have "alloc_loop m st (popcount (role_map m role ! 0)) (role_map m role ! 0) =
    Inr (map_option (\<lambda>i. (i, of_nat i)) (find (free_of_role m role st) [0..<length (reg_root m)]))"
    using reg_map_wf_role [OF assms(1)] by (intro alloc_loop_find [OF assms, where lo = 0]) auto
  moreover have "ucast (of_nat i :: u8) = (of_nat i :: u16)"
    if "find (free_of_role m role st) [0..<length (reg_root m)] = Some i" for i
    using that assms(2) by (auto simp: find_upt_Some intro!: word_unat_eq_iff [THEN iffD2]
      simp: unat_of_nat unsigned_ucast_eq take_bit_nat_eq_self)
  ultimately show ?thesis
    by (auto simp: asm_alloc_space_def alloc_spec_def Let_def push_bit_eq_mult split: option.splits)
qed

end
