(* ===== verification/Asm_Fix.thy ===== *)
theory Asm_Fix
  imports Asm_Alloc
begin

text \<open>
  Register association and instruction fixing (\<^verbatim>\<open>ir/tblock/asm/asm_instr_fix.c\<close>): filling the
  association table, replacing guest by host registers, expanding three-operand instructions
  for a two-operand host, and freeing the registers that are dead in a fragment. The tables
  are the \<^verbatim>\<open>IR_REG_LIMIT\<close> entry arrays of a block, indexed by a \<^verbatim>\<open>u8\<close>.
\<close>

section \<open>asm_fill_assoc\<close>

type_synonym alloc_tables = "u16 \<times> asm_reg_assoc list \<times> asm_reg_state list"

text \<open>
  Recording the allocation for one guest register: \<open>r\<close> is the value the allocator returned
  and the host state it left.
\<close>

definition associate :: "u8 \<Rightarrow> u16 \<times> asm_reg_state list \<Rightarrow> alloc_tables \<Rightarrow> alloc_tables" where
  "associate i r t =
    (let alloc_id = fst r AND 0xff;
         is_spill = (drop_bit 8 (fst r) \<noteq> 0)
     in (fst t + of_bool is_spill,
         (fst (snd t))[unat i := \<lparr>a_flags = ir_reg_assoc_flags True is_spill,
                                  a_id = (if is_spill then fst t else alloc_id)\<rparr>],
         snd r))"

text \<open>One operand that has no association yet.\<close>

definition fill_operand ::
  "cpu_reg_map option \<Rightarrow> cpu_reg_map option \<Rightarrow> u8 \<Rightarrow> alloc_tables \<Rightarrow> alloc_tables res" where
  "fill_operand gmap hmap i t =
    and_then (deref gmap) (\<lambda>gm.
    and_then (arr (reg_root gm) (unat i)) (\<lambda>g.
    and_then (asm_alloc_space hmap (reg_role g) (Some (snd (snd t)))) (\<lambda>r.
      Inr (associate i (map_prod id the r) t))))"

text \<open>The operand loop; an operand that is associated already ends the whole function.\<close>

fun fill_loop ::
  "cpu_reg_map option \<Rightarrow> cpu_reg_map option \<Rightarrow> ir_operand list \<Rightarrow> nat list \<Rightarrow> alloc_tables
     \<Rightarrow> alloc_tables res" where
  "fill_loop gm hm xs [] t = Inr t"
| "fill_loop gm hm xs (i # is) t =
    and_then (arr xs i) (\<lambda>opr.
      (if ir_reg_assoc_used (fst (snd t) ! unat (op_id opr)) then Inr t
       else and_then (fill_operand gm hm (op_id opr) t) (fill_loop gm hm xs is)))"

definition asm_fill_assoc ::
  "ir_context option \<Rightarrow> ir_raw_instr option \<Rightarrow> u16 option \<Rightarrow> asm_reg_assoc list option
     \<Rightarrow> asm_reg_state list option
     \<Rightarrow> (u16 option \<times> asm_reg_assoc list option \<times> asm_reg_state list option) res" where
  "asm_fill_assoc ir ir_instr spill_cnt assoc state =
    (case (ir, ir_instr, spill_cnt, assoc, state) of
       (Some c, Some ins, Some sp, Some as, Some st) \<Rightarrow>
         (let s = opset ins;
              idx = (if op_id (ops s ! 0) = op_id (ops s ! 1) then 1 else 0)
          in and_then (fill_loop (guest_map c) (host_map c) (ops s) [idx..<unat (ops_count s)] (sp, as, st))
               (\<lambda>(sp', as', st'). Inr (Some sp', Some as', Some st')))
     | _ \<Rightarrow> Inr (spill_cnt, assoc, state))"

section \<open>asm_fix_instr\<close>

text \<open>The 16-bit identifier of the association is stored in a \<^verbatim>\<open>u8\<close>.\<close>

fun fix_loop :: "asm_reg_assoc list \<Rightarrow> nat list \<Rightarrow> ir_operand list \<Rightarrow> ir_operand list res" where
  "fix_loop assoc [] xs = Inr xs"
| "fix_loop assoc (i # is) xs =
    and_then (arr xs i) (\<lambda>opr.
      (let guest_id = op_id opr;
           host_id = ucast (a_id (assoc ! unat guest_id)) :: u8
       in fix_loop assoc is (xs[i := opr\<lparr>op_id := host_id\<rparr>])))"

definition asm_fix_instr ::
  "ir_context option \<Rightarrow> ir_raw_instr option \<Rightarrow> asm_reg_assoc list option \<Rightarrow> ir_raw_instr option res" where
  "asm_fix_instr ir ir_instr assoc =
    (case (ir, ir_instr, assoc) of
       (Some c, Some ins, Some as) \<Rightarrow>
         (let s = opset ins
          in and_then (fix_loop as [0..<unat (ops_count s)] (ops s))
               (\<lambda>xs. Inr (Some (ins\<lparr>opset := s\<lparr>ops := xs\<rparr>\<rparr>))))
     | _ \<Rightarrow> Inr ir_instr)"

section \<open>asm_expand_instr\<close>

definition mov_instr_of :: "ir_raw_instr \<Rightarrow> ir_raw_instr" where
  "mov_instr_of ins =
    \<lparr>opcode = ir_opcode_swap_group (opcode ins) (ir_opcode_group_val IR_GROUP_MOV),
     opset = \<lparr>ops = [ops (opset ins) ! 0, ops (opset ins) ! 1] @ replicate 4 ir_operand_zero,
              ops_count = 2\<rparr>\<rparr>"

definition fix_instr_of :: "ir_raw_instr \<Rightarrow> ir_raw_instr" where
  "fix_instr_of ins =
    \<lparr>opcode = opcode ins,
     opset = \<lparr>ops = [ops (opset ins) ! 0, ops (opset ins) ! 0, ops (opset ins) ! 2, ops (opset ins) ! 3,
                     ops (opset ins) ! 4, ops (opset ins) ! 5],
              ops_count = ops_count (opset ins)\<rparr>\<rparr>"

text \<open>
  \<open>same_ptr\<close> tells whether the instruction lies at the start of the buffer. The result is
  the number of instructions written and the buffer.
\<close>

definition asm_expand_instr ::
  "ir_context option \<Rightarrow> ir_raw_instr option \<Rightarrow> u32 \<Rightarrow> ir_raw_instr list option \<Rightarrow> bool
     \<Rightarrow> (u32 \<times> ir_raw_instr list option) res" where
  "asm_expand_instr ir ir_instr buf_len buf same_ptr =
    (case (ir, ir_instr, buf) of
       (Some c, Some ins, Some b) \<Rightarrow>
         (if buf_len = 0 then Inr (0, buf)
          else and_then (asrt (\<not> same_ptr)) (\<lambda>_.
            (let guest_isa_form = MTE_ARCH_ISA_FORM (mte_arch_val (guest_arch c));
                 host_isa_form = MTE_ARCH_ISA_FORM (mte_arch_val (host_arch c));
                 s = opset ins
             in if guest_isa_form = host_isa_form
                then and_then (arr_set b 0 ins) (\<lambda>b'. Inr (1, Some b'))
                else if host_isa_form = mte_isa_form_val MTE_ISA_TWO_OP then
                  and_then (asrt (1 < buf_len)) (\<lambda>_.
                    (if op_id (ops s ! 0) \<noteq> op_id (ops s ! 1)
                        \<and> IR_OPCODE_FLAGS (opcode ins) AND IR_DEST_NEQ_SRC = 0
                     then and_then (arr_set b 0 (mov_instr_of ins)) (\<lambda>b'.
                          and_then (arr_set b' 1 (fix_instr_of ins)) (\<lambda>b''. Inr (2, Some b'')))
                     else and_then (arr_set b 0 (fix_instr_of ins)) (\<lambda>b'. Inr (1, Some b'))))
                else Inl Assert_Fail)))
     | _ \<Rightarrow> Inr (0, buf))"

section \<open>asm_flush_by_liveness\<close>

definition flush_reg ::
  "u16 \<Rightarrow> cpu_reg_map \<Rightarrow> asm_reg_liveness list \<Rightarrow> nat
     \<Rightarrow> asm_reg_assoc list \<times> asm_reg_state list \<Rightarrow> (asm_reg_assoc list \<times> asm_reg_state list) res" where
  "flush_reg block_bit gm liveness i t =
    (if ucast (liveness ! i) AND block_bit \<noteq> 0 then Inr t
     else and_then (arr (reg_root gm) i) (\<lambda>r.
       (let r_id = unat (reg_id r)
        in Inr ((fst t)[r_id := asm_reg_assoc_zero], (snd t)[r_id := REG_FREE]))))"

fun flush_loop ::
  "u16 \<Rightarrow> cpu_reg_map \<Rightarrow> asm_reg_liveness list \<Rightarrow> nat list
     \<Rightarrow> asm_reg_assoc list \<times> asm_reg_state list \<Rightarrow> (asm_reg_assoc list \<times> asm_reg_state list) res" where
  "flush_loop block_bit gm liveness [] t = Inr t"
| "flush_loop block_bit gm liveness (i # is) t =
    and_then (flush_reg block_bit gm liveness i t) (flush_loop block_bit gm liveness is)"

text \<open>The loop variable is a \<^verbatim>\<open>u8\<close>: with more than 255 registers it never reaches the count.\<close>

definition asm_flush_by_liveness ::
  "ir_context option \<Rightarrow> u8 \<Rightarrow> asm_reg_liveness list option \<Rightarrow> asm_reg_assoc list option
     \<Rightarrow> asm_reg_state list option \<Rightarrow> (asm_reg_assoc list option \<times> asm_reg_state list option) res" where
  "asm_flush_by_liveness ir liveness_block_idx liveness assoc state =
    (case (ir, liveness, assoc, state) of
       (Some c, Some lv, Some as, Some st) \<Rightarrow>
         and_then (deref (guest_map c)) (\<lambda>gm.
           (if unat (reg_count gm) > 255 then Inl Diverges
            else and_then (flush_loop (BIT (unat liveness_block_idx)) gm lv [0..<unat (reg_count gm)] (as, st))
              (\<lambda>(as', st'). Inr (Some as', Some st'))))
     | _ \<Rightarrow> Inr (assoc, state))"

section \<open>The association invariant\<close>

definition hosted :: "asm_reg_assoc \<Rightarrow> bool" where
  "hosted a \<longleftrightarrow> ir_reg_assoc_used a \<and> \<not> ir_reg_assoc_spilled a"

text \<open>
  A guest register held in a host register has that register to itself: it is one of the
  \<open>n\<close> host registers, it is marked occupied, and no other guest register is held in it.
\<close>

definition assoc_inv :: "nat \<Rightarrow> asm_reg_assoc list \<Rightarrow> asm_reg_state list \<Rightarrow> bool" where
  "assoc_inv n assoc st \<longleftrightarrow>
     length assoc = IR_REG_LIMIT \<and> length st = IR_REG_LIMIT \<and>
     (\<forall>g < IR_REG_LIMIT. hosted (assoc ! g) \<longrightarrow>
        unat (a_id (assoc ! g)) < n \<and> st ! unat (a_id (assoc ! g)) = REG_OCCUPIED \<and>
        (\<forall>g' < IR_REG_LIMIT. hosted (assoc ! g') \<longrightarrow> a_id (assoc ! g') = a_id (assoc ! g) \<longrightarrow> g' = g))"

lemma u8_in_limit [simp]: "unat (i :: u8) < IR_REG_LIMIT"
proof -
  have "unat i < 2 ^ LENGTH(8)" by (rule unsigned_less)
  then show ?thesis by (simp add: IR_REG_LIMIT_def)
qed

text \<open>The part of it that the generated code depends on.\<close>

definition table_ok :: "nat \<Rightarrow> asm_reg_assoc list \<Rightarrow> bool" where
  "table_ok n assoc \<longleftrightarrow> length assoc = IR_REG_LIMIT \<and>
     (\<forall>g < IR_REG_LIMIT. hosted (assoc ! g) \<longrightarrow> unat (a_id (assoc ! g)) < n \<and>
        (\<forall>g' < IR_REG_LIMIT. hosted (assoc ! g') \<longrightarrow> a_id (assoc ! g') = a_id (assoc ! g) \<longrightarrow> g' = g))"

lemma assoc_inv_table_ok: "assoc_inv n assoc st \<Longrightarrow> table_ok n assoc"
  by (simp add: assoc_inv_def table_ok_def)

text \<open>
  What the association code relies on in the allocator: a spill leaves the host state alone,
  and otherwise a free register of the machine is handed out and marked occupied.
\<close>

locale reg_allocator =
  fixes alloc :: "cpu_reg_role \<Rightarrow> asm_reg_state list \<Rightarrow> u16 \<times> asm_reg_state list"
    and n :: nat
  assumes n_limit: "n \<le> IR_REG_LIMIT"
    and alloc_spill: "drop_bit 8 (fst (alloc role st)) \<noteq> 0 \<Longrightarrow> snd (alloc role st) = st"
    and alloc_free: "drop_bit 8 (fst (alloc role st)) = 0 \<Longrightarrow> length st = IR_REG_LIMIT \<Longrightarrow>
      unat (fst (alloc role st) AND 0xff) < n \<and>
      st ! unat (fst (alloc role st) AND 0xff) = REG_FREE \<and>
      snd (alloc role st) = st[unat (fst (alloc role st) AND 0xff) := REG_OCCUPIED]"
begin

lemma associate_used:
  assumes "length as = IR_REG_LIMIT"
  shows "ir_reg_assoc_used (fst (snd (associate i r (sp, as, st))) ! unat i)"
    and "g \<noteq> unat i \<Longrightarrow> fst (snd (associate i r (sp, as, st))) ! g = as ! g"
  using assms u8_in_limit [of i] by (simp_all add: associate_def Let_def)

lemma associate_lengths:
  assumes "length as = IR_REG_LIMIT" "length st = IR_REG_LIMIT"
  shows "length (fst (snd (associate i (alloc role st) (sp, as, st)))) = IR_REG_LIMIT"
    and "length (snd (snd (associate i (alloc role st) (sp, as, st)))) = IR_REG_LIMIT"
  using assms alloc_spill [of role st] alloc_free [of role st]
  by (cases "drop_bit 8 (fst (alloc role st)) = 0"; simp add: associate_def Let_def)+

lemma associate_inv:
  assumes "assoc_inv n as st"
  shows "assoc_inv n (fst (snd (associate i (alloc role st) (sp, as, st))))
           (snd (snd (associate i (alloc role st) (sp, as, st))))"
proof (cases "drop_bit 8 (fst (alloc role st)) = 0")
  case True
  define h where "h = fst (alloc role st) AND 0xff"
  have len: "length as = IR_REG_LIMIT" "length st = IR_REG_LIMIT" using assms by (simp_all add: assoc_inv_def)
  have h: "unat h < n" "st ! unat h = REG_FREE" "snd (alloc role st) = st[unat h := REG_OCCUPIED]"
    using alloc_free [OF True len(2)] by (simp_all add: h_def)
  have other: "a_id (as ! g) \<noteq> h" if "g < IR_REG_LIMIT" "hosted (as ! g)" for g
    using assms that h(2) by (auto simp: assoc_inv_def)
  show ?thesis
    using assms True h other len n_limit u8_in_limit [of i]
    by (auto simp: associate_def Let_def assoc_inv_def nth_list_update h_def [symmetric])
next
  case False
  have "\<not> hosted \<lparr>a_flags = ir_reg_assoc_flags True True, a_id = x\<rparr>" for x by (simp add: hosted_def)
  with assms False alloc_spill [OF False] u8_in_limit [of i] show ?thesis
    by (auto simp: associate_def Let_def assoc_inv_def nth_list_update)
qed

end

lemma alloc_spec_allocator:
  assumes "reg_map_wf m" "length (reg_root m) \<le> 16"
  shows "reg_allocator (alloc_spec m) (length (reg_root m))"
proof
  show "length (reg_root m) \<le> IR_REG_LIMIT" using assms(2) by (simp add: IR_REG_LIMIT_def)
next
  fix role st
  assume "drop_bit 8 (fst (alloc_spec m role st)) \<noteq> 0"
  then show "snd (alloc_spec m role st) = st"
  proof (cases "find (free_of_role m role st) [0..<length (reg_root m)]")
    case (Some i)
    then have "i < 16" using assms(2) by (auto simp: find_upt_Some)
    then have "drop_bit 8 (of_nat i :: u16) = 0"
      by (intro word_unat_eq_iff [THEN iffD2]) (simp add: unat_of_nat drop_bit_eq_div unat_div_distrib)
    with \<open>drop_bit 8 (fst (alloc_spec m role st)) \<noteq> 0\<close> Some show ?thesis by (simp add: alloc_spec_def)
  qed (simp add: alloc_spec_def)
next
  fix role st
  assume "drop_bit 8 (fst (alloc_spec m role st)) = 0" "length st = IR_REG_LIMIT"
  then obtain i where i: "find (free_of_role m role st) [0..<length (reg_root m)] = Some i"
    by (cases "find (free_of_role m role st) [0..<length (reg_root m)]") (simp_all add: alloc_spec_def)
  then have lt: "i < length (reg_root m)" "st ! i = REG_FREE"
    by (auto simp: find_upt_Some free_of_role_def)
  then have "(of_nat i :: u16) AND 0xff = of_nat i"
    using assms(2) of_nat_and_mask [of i 8, where 'a = 16] by (simp add: mask_eq_exp_minus_1)
  then have "unat ((of_nat i :: u16) AND 0xff) = i"
    using assms(2) lt by (simp add: unat_of_nat)
  with i lt show "unat (fst (alloc_spec m role st) AND 0xff) < length (reg_root m) \<and>
      st ! unat (fst (alloc_spec m role st) AND 0xff) = REG_FREE \<and>
      snd (alloc_spec m role st) = st[unat (fst (alloc_spec m role st) AND 0xff) := REG_OCCUPIED]"
    by (simp add: alloc_spec_def)
qed

section \<open>What filling does\<close>

lemma fill_operand_spec:
  assumes "reg_map_wf m" "length (reg_root m) \<le> 16" "length st = IR_REG_LIMIT"
  shows "fill_operand (Some gm) (Some m) i (sp, as, st) =
    (if unat i < length (reg_root gm)
     then Inr (associate i (alloc_spec m (reg_role (reg_root gm ! unat i)) st) (sp, as, st))
     else Inl Out_Of_Bounds)"
  using assms by (simp add: fill_operand_def arr_def asm_alloc_space_spec IR_REG_LIMIT_def
      prod.map_comp comp_def map_prod_def case_prod_beta)

text \<open>
  Filling changes no association in use and touches only the operands' entries; it succeeds
  when the operands are registers of the guest; and it keeps the invariant.
\<close>

lemma fill_loop_frame:
  assumes "reg_map_wf m" "length (reg_root m) \<le> 16"
  shows "length as = IR_REG_LIMIT \<Longrightarrow> length st = IR_REG_LIMIT \<Longrightarrow>
    \<forall>i \<in> set is. i < length xs \<and> unat (op_id (xs ! i)) < length (reg_root gm) \<Longrightarrow>
    \<exists>sp' as' st'. fill_loop (Some gm) (Some m) xs is (sp, as, st) = Inr (sp', as', st') \<and>
      length as' = IR_REG_LIMIT \<and> length st' = IR_REG_LIMIT \<and>
      (\<forall>g. ir_reg_assoc_used (as ! g) \<longrightarrow> as' ! g = as ! g) \<and>
      (\<forall>g. (\<forall>i \<in> set is. unat (op_id (xs ! i)) \<noteq> g) \<longrightarrow> as' ! g = as ! g) \<and>
      (assoc_inv (length (reg_root m)) as st \<longrightarrow> assoc_inv (length (reg_root m)) as' st')"
proof (induction "is" arbitrary: sp as st)
  case Nil
  then show ?case by simp
next
  case (Cons i "is")
  note al = alloc_spec_allocator [OF assms]
  let ?g = "op_id (xs ! i)"
  let ?r = "alloc_spec m (reg_role (reg_root gm ! unat ?g)) st"
  obtain sp1 as1 st1 where t1: "associate ?g ?r (sp, as, st) = (sp1, as1, st1)"
    by (metis prod_cases3)
  have step: "fill_loop (Some gm) (Some m) xs (i # is) (sp, as, st) =
      (if ir_reg_assoc_used (as ! unat ?g) then Inr (sp, as, st)
       else fill_loop (Some gm) (Some m) xs is (sp1, as1, st1))"
    using Cons.prems(2,3) t1 by (simp add: fill_operand_spec [OF assms])
  have len: "length as1 = IR_REG_LIMIT" "length st1 = IR_REG_LIMIT"
    using reg_allocator.associate_lengths [OF al Cons.prems(1,2), of ?g _ sp] t1
    by (metis fst_conv snd_conv)+
  have inv: "assoc_inv (length (reg_root m)) as st \<longrightarrow> assoc_inv (length (reg_root m)) as1 st1"
    using reg_allocator.associate_inv [OF al, of as st ?g _ sp] t1 by (metis fst_conv snd_conv)
  have other: "as1 ! g = as ! g" if "g \<noteq> unat ?g" for g
    using reg_allocator.associate_used(2) [OF al Cons.prems(1) that, of ?r sp st] t1 by simp
  from Cons.IH [OF len, of sp1] Cons.prems(3) obtain sp' as' st' where r:
    "fill_loop (Some gm) (Some m) xs is (sp1, as1, st1) = Inr (sp', as', st')"
    "length as' = IR_REG_LIMIT" "length st' = IR_REG_LIMIT"
    "\<And>g. ir_reg_assoc_used (as1 ! g) \<Longrightarrow> as' ! g = as1 ! g"
    "\<And>g. \<forall>i \<in> set is. unat (op_id (xs ! i)) \<noteq> g \<Longrightarrow> as' ! g = as1 ! g"
    "assoc_inv (length (reg_root m)) as1 st1 \<longrightarrow> assoc_inv (length (reg_root m)) as' st'"
    by auto
  show ?case
  proof (cases "ir_reg_assoc_used (as ! unat ?g)")
    case True
    with Cons.prems(1,2) show ?thesis unfolding step by simp
  next
    case False
    then have "as' ! g = as ! g" if "ir_reg_assoc_used (as ! g)" for g
      using that other [of g] r(4) [of g] by metis
    moreover have "as' ! g = as ! g" if "\<forall>j \<in> set (i # is). unat (op_id (xs ! j)) \<noteq> g" for g
      using that other [of g] r(5) [of g] by auto
    ultimately show ?thesis unfolding step using False r(1-3,6) inv by auto
  qed
qed

text \<open>
  Operands that are different and have no association are all associated; only the last one
  may be associated already, or repeat another.
\<close>

lemma fill_loop_complete:
  assumes "reg_map_wf m" "length (reg_root m) \<le> 16"
  shows "length as = IR_REG_LIMIT \<Longrightarrow> length st = IR_REG_LIMIT \<Longrightarrow>
    \<forall>i \<in> set is. i < length xs \<and> unat (op_id (xs ! i)) < length (reg_root gm) \<Longrightarrow>
    fill_loop (Some gm) (Some m) xs is (sp, as, st) = Inr (sp', as', st') \<Longrightarrow>
    distinct (map (\<lambda>i. op_id (xs ! i)) (butlast is)) \<Longrightarrow>
    \<forall>i \<in> set (butlast is). \<not> ir_reg_assoc_used (as ! unat (op_id (xs ! i))) \<Longrightarrow>
    \<forall>i \<in> set is. ir_reg_assoc_used (as' ! unat (op_id (xs ! i)))"
proof (induction "is" arbitrary: sp as st)
  case Nil
  then show ?case by simp
next
  case (Cons i "is")
  note al = alloc_spec_allocator [OF assms]
  note len = Cons.prems(1,2)
  let ?g = "op_id (xs ! i)"
  let ?r = "alloc_spec m (reg_role (reg_root gm ! unat ?g)) st"
  show ?case
  proof (cases "ir_reg_assoc_used (as ! unat ?g)")
    case True
    with Cons.prems(4,6) show ?thesis by (cases "is") (auto simp: arr_Inr_iff)
  next
    case False
    obtain sp1 as1 st1 where t1: "associate ?g ?r (sp, as, st) = (sp1, as1, st1)"
      by (metis prod_cases3)
    have len1: "length as1 = IR_REG_LIMIT" "length st1 = IR_REG_LIMIT"
      using reg_allocator.associate_lengths [OF al len, of ?g _ sp] t1 by (metis fst_conv snd_conv)+
    have ids: "\<forall>i \<in> set is. i < length xs \<and> unat (op_id (xs ! i)) < length (reg_root gm)"
      using Cons.prems(3) by simp
    have rest: "fill_loop (Some gm) (Some m) xs is (sp1, as1, st1) = Inr (sp', as', st')"
      using Cons.prems(4) False t1
      by (auto simp: arr_Inr_iff fill_operand_spec [OF assms len(2)] split: if_splits)
    have used: "ir_reg_assoc_used (as1 ! unat ?g)"
      using reg_allocator.associate_used(1) [OF al len(1), of ?g ?r sp st] t1 by simp
    have other: "as1 ! g = as ! g" if "g \<noteq> unat ?g" for g
      using reg_allocator.associate_used(2) [OF al len(1) that, of ?r sp st] t1 by simp
    have fresh: "distinct (map (\<lambda>i. op_id (xs ! i)) (butlast is)) \<and>
        (\<forall>j \<in> set (butlast is). \<not> ir_reg_assoc_used (as1 ! unat (op_id (xs ! j))))"
    proof (cases "is = []")
      case ne: False
      have "as1 ! unat (op_id (xs ! j)) = as ! unat (op_id (xs ! j))" if "j \<in> set (butlast is)" for j
        using Cons.prems(5) that ne by (intro other) (auto simp: word_unat_eq_iff [symmetric] image_iff)
      with Cons.prems(5,6) ne show ?thesis by auto
    qed simp
    have "as' ! unat ?g = as1 ! unat ?g"
      using fill_loop_frame [OF assms len1 ids, of sp1] rest used by auto
    with used Cons.IH [OF len1 ids rest] fresh show ?thesis by auto
  qed
qed

section \<open>What fixing, expanding and flushing do\<close>

definition fix_operand :: "asm_reg_assoc list \<Rightarrow> ir_operand \<Rightarrow> ir_operand" where
  "fix_operand assoc opr = opr\<lparr>op_id := ucast (a_id (assoc ! unat (op_id opr)))\<rparr>"

lemma fix_loop_map:
  "n \<le> length xs \<Longrightarrow> fix_loop as [0..<n] xs = Inr (map (fix_operand as) (take n xs) @ drop n xs)"
proof -
  have "k \<le> n \<Longrightarrow> n \<le> length ys \<Longrightarrow>
    fix_loop as [k..<n] ys = Inr (take k ys @ map (fix_operand as) (take (n - k) (drop k ys)) @ drop n ys)" for k ys
  proof (induction "n - k" arbitrary: k ys)
    case 0
    then show ?case by simp
  next
    case (Suc d)
    then have k: "k < n" "d = n - Suc k" by simp_all
    let ?ys = "ys[k := fix_operand as (ys ! k)]"
    have "fix_loop as [k..<n] ys = fix_loop as [Suc k..<n] ?ys"
      using k(1) Suc.prems by (simp add: upt_conv_Cons fix_operand_def Let_def)
    also have "\<dots> = Inr (take (Suc k) ?ys @ map (fix_operand as) (take (n - Suc k) (drop (Suc k) ?ys)) @ drop n ?ys)"
      using Suc.hyps(1) [of "Suc k" ?ys] k Suc.prems by simp
    finally have "fix_loop as [k..<n] ys = \<dots>" .
    moreover have "take (Suc k) ?ys = take k ys @ [fix_operand as (ys ! k)]"
      using k(1) Suc.prems by (simp add: take_Suc_conv_app_nth)
    moreover have "take (n - k) (drop k ys) = ys ! k # take (n - Suc k) (drop (Suc k) ys)"
      using k(1) Suc.prems by (simp add: Cons_nth_drop_Suc [symmetric] Suc_diff_Suc [symmetric])
    ultimately show ?case using k(1) by simp
  qed
  from this [of 0 xs] show "n \<le> length xs \<Longrightarrow> ?thesis" by simp
qed

text \<open>
  The expansion for a two-operand host: a move of the first source into the destination when
  they differ and the opcode allows it, then the instruction folded onto its destination.
\<close>

definition expanded :: "ir_raw_instr \<Rightarrow> ir_raw_instr list" where
  "expanded ins =
    (if op_id (ops (opset ins) ! 0) \<noteq> op_id (ops (opset ins) ! 1) \<and> IR_OPCODE_FLAGS (opcode ins) AND IR_DEST_NEQ_SRC = 0
     then [mov_instr_of ins, fix_instr_of ins] else [fix_instr_of ins])"

lemma asm_expand_instr_two_op:
  assumes "MTE_ARCH_ISA_FORM (mte_arch_val (guest_arch c)) \<noteq> mte_isa_form_val MTE_ISA_TWO_OP"
    and "MTE_ARCH_ISA_FORM (mte_arch_val (host_arch c)) = mte_isa_form_val MTE_ISA_TWO_OP"
    and "1 < n" "2 \<le> length b"
  shows "asm_expand_instr (Some c) (Some ins) n (Some b) False =
    Inr (of_nat (length (expanded ins)), Some (expanded ins @ drop (length (expanded ins)) b))"
proof -
  from assms(4) obtain b0 b1 b' where b: "b = b0 # b1 # b'"
    by (metis One_nat_def Suc_le_length_iff numeral_2_eq_2)
  have "n \<noteq> 0" using assms(3) by auto
  then show ?thesis
    using assms(1-3) unfolding b
    by (simp add: asm_expand_instr_def expanded_def Let_def)
qed

lemma expanded_length: "length (expanded ins) \<in> {1, 2}"
  by (simp add: expanded_def)

definition dead_in :: "u16 \<Rightarrow> asm_reg_liveness list \<Rightarrow> nat \<Rightarrow> bool" where
  "dead_in block_bit liveness i \<longleftrightarrow> ucast (liveness ! i) AND block_bit = 0"

lemma flush_loop_spec:
  assumes "\<forall>i < length (reg_root gm). unat (reg_id (reg_root gm ! i)) = i"
  shows "\<forall>i \<in> set is. i < length (reg_root gm) \<Longrightarrow>
    \<exists>as' st'. flush_loop bb gm lv is (as, st) = Inr (as', st') \<and>
      length as' = length as \<and> length st' = length st \<and>
      (\<forall>g < length as. as' ! g = (if g \<in> set is \<and> dead_in bb lv g then asm_reg_assoc_zero else as ! g)) \<and>
      (\<forall>g < length st. st' ! g = (if g \<in> set is \<and> dead_in bb lv g then REG_FREE else st ! g))"
proof (induction "is" arbitrary: as st)
  case Nil
  then show ?case by simp
next
  case (Cons i "is")
  let ?as = "if dead_in bb lv i then as[i := asm_reg_assoc_zero] else as"
  let ?st = "if dead_in bb lv i then st[i := REG_FREE] else st"
  have step: "flush_loop bb gm lv (i # is) (as, st) = flush_loop bb gm lv is (?as, ?st)"
    using Cons.prems assms by (simp add: flush_reg_def dead_in_def Let_def)
  obtain as' st' where r: "flush_loop bb gm lv is (?as, ?st) = Inr (as', st')"
      "length as' = length ?as" "length st' = length ?st"
      "\<And>g. g < length ?as \<Longrightarrow> as' ! g = (if g \<in> set is \<and> dead_in bb lv g then asm_reg_assoc_zero else ?as ! g)"
      "\<And>g. g < length ?st \<Longrightarrow> st' ! g = (if g \<in> set is \<and> dead_in bb lv g then REG_FREE else ?st ! g)"
    using Cons.IH [of ?as ?st] Cons.prems by auto
  have a: "as' ! g = (if g \<in> set (i # is) \<and> dead_in bb lv g then asm_reg_assoc_zero else as ! g)"
    if "g < length as" for g
    using r(4) [of g] that by (cases "g = i") (auto split: if_splits)
  have b: "st' ! g = (if g \<in> set (i # is) \<and> dead_in bb lv g then REG_FREE else st ! g)"
    if "g < length st" for g
    using r(5) [of g] that by (cases "g = i") (auto split: if_splits)
  show ?case
  proof (intro exI conjI allI impI)
    show "flush_loop bb gm lv (i # is) (as, st) = Inr (as', st')" unfolding step by (rule r(1))
  qed (use r(2,3) a b in simp_all)
qed

text \<open>The registers of a map that are dead in a fragment lose association and state.\<close>

lemma asm_flush_by_liveness_spec:
  assumes "reg_ids_wf gm" "guest_map c = Some gm"
  shows "\<exists>as' st'. asm_flush_by_liveness (Some c) blk (Some lv) (Some as) (Some st) = Inr (Some as', Some st') \<and>
      length as' = length as \<and> length st' = length st \<and>
      (\<forall>g < length as. as' ! g =
         (if g < length (reg_root gm) \<and> dead_in (BIT (unat blk)) lv g then asm_reg_assoc_zero else as ! g)) \<and>
      (\<forall>g < length st. st' ! g =
         (if g < length (reg_root gm) \<and> dead_in (BIT (unat blk)) lv g then REG_FREE else st ! g))"
proof -
  from assms(1) have wf: "\<forall>i < length (reg_root gm). unat (reg_id (reg_root gm ! i)) = i"
    "unat (reg_count gm) = length (reg_root gm)" "length (reg_root gm) \<le> 64"
    by (simp_all add: reg_map_wf_defs)
  with flush_loop_spec [OF wf(1), of "[0..<length (reg_root gm)]" "BIT (unat blk)" lv as st] assms(2)
  show ?thesis by (auto simp: asm_flush_by_liveness_def)
qed

text \<open>The liveness bytes have no bit for the fragments 8 to 15.\<close>

lemma dead_in_upper: "8 \<le> k \<Longrightarrow> dead_in (BIT k) lv g"
  unfolding dead_in_def by (auto intro!: bit_word_eqI simp: bit_simps dest: bit_imp_le_length)

lemma hosted_zero [simp]: "\<not> hosted asm_reg_assoc_zero"
  by (simp add: hosted_def asm_reg_assoc_zero_def ir_reg_assoc_used_def)

text \<open>
  The freed states are looked up by guest register. The invariant survives when no guest
  register that stays alive is held in a host register whose number is that of a dead one.
\<close>

lemma flush_inv:
  assumes "assoc_inv n as st" "length as' = length as" "length st' = length st"
    and "\<forall>g < length as. as' ! g = (if D g then asm_reg_assoc_zero else as ! g)"
    and "\<forall>g < length st. st' ! g = (if D g then REG_FREE else st ! g)"
    and "\<forall>g < IR_REG_LIMIT. \<not> D g \<longrightarrow> hosted (as ! g) \<longrightarrow> \<not> D (unat (a_id (as ! g)))"
    and "n \<le> IR_REG_LIMIT"
  shows "assoc_inv n as' st'"
  unfolding assoc_inv_def
proof (intro conjI allI impI)
  from assms(1-3) show len: "length as' = IR_REG_LIMIT" "length st' = IR_REG_LIMIT" by (simp_all add: assoc_inv_def)
  fix g assume g: "g < IR_REG_LIMIT" "hosted (as' ! g)"
  have old: "\<not> D k \<and> as' ! k = as ! k" if "k < IR_REG_LIMIT" "hosted (as' ! k)" for k
    using that assms(4) len assms(2) by (metis hosted_zero)
  from assms(1) g old [OF g] show id: "unat (a_id (as' ! g)) < n" by (auto simp: assoc_inv_def)
  show "st' ! unat (a_id (as' ! g)) = REG_OCCUPIED"
    using assms(1,3,5,6,7) g old [OF g] id len by (auto simp: assoc_inv_def)
  fix g' assume "g' < IR_REG_LIMIT" "hosted (as' ! g')" "a_id (as' ! g') = a_id (as' ! g)"
  with assms(1) g old show "g' = g" by (metis assoc_inv_def)
qed

end
