(* ===== verification/TBlock.thy ===== *)
theory TBlock
  imports Asm_Fix
begin

text \<open>
  Translation blocks (\<^verbatim>\<open>ir/tblock/tblock.h\<close>, \<^verbatim>\<open>tblock.c\<close>, \<^verbatim>\<open>tblock_pass.h\<close>, \<^verbatim>\<open>tblock_pass.c\<close>): the block,
  the pass loop, and the three passes a block goes through: the liveness scan of the guest
  code, its conversion to IR with host registers, and the emission of host code.
\<close>

section \<open>Blocks (tblock.h, tblock.c)\<close>

definition TBLOCK_SIZE :: nat where "TBLOCK_SIZE = 64"

datatype tblock_type = TBLOCK_BIG | TBLOCK_SMALL

fun tblock_type_val :: "tblock_type \<Rightarrow> nat" where
  "tblock_type_val TBLOCK_BIG = 3"
| "tblock_type_val TBLOCK_SMALL = 1"

text \<open>\<open>ir_buf\<close> is the array behind \<^verbatim>\<open>ir_buf.base\<close>.\<close>

record tblock =
  tb_type :: tblock_type
  ir_cnt :: u16
  ir_capacity :: u32
  ir_buf :: "ir_raw_instr list"
  spill_cnt :: u16
  liveness :: "asm_reg_liveness list"
  assoc :: "asm_reg_assoc list"
  state :: "asm_reg_state list"

definition tblock_frag_calc :: "tblock_type \<Rightarrow> u32" where
  "tblock_frag_calc ty = of_nat (TBLOCK_SIZE * 2 ^ tblock_type_val ty div SIZEOF_IR_RAW_INSTR)"

definition TBLOCK_IR_BUFFER_SIZE :: nat where "TBLOCK_IR_BUFFER_SIZE = 4 * 1024"

text \<open>\<open>mem\<close> is the content of the memory the allocator returned for the IR buffer.\<close>

definition tblock_alloc :: "tblock_type \<Rightarrow> ir_raw_instr list \<Rightarrow> tblock" where
  "tblock_alloc ty mem =
    \<lparr>tb_type = ty, ir_cnt = 0,
     ir_capacity = of_nat (TBLOCK_IR_BUFFER_SIZE div SIZEOF_IR_RAW_INSTR), ir_buf = mem,
     spill_cnt = 0,
     liveness = replicate IR_REG_LIMIT 0,
     assoc = replicate IR_REG_LIMIT asm_reg_assoc_zero,
     state = replicate IR_REG_LIMIT REG_FREE\<rparr>"

section \<open>The pass loop (tblock_pass.h)\<close>

text \<open>
  \<^verbatim>\<open>__TBLOCK_PASS_LOOP\<close>: the body gets the guest position and returns the new state and the
  instruction length. A length of 0 fails the assertion, so the loop ends.
\<close>

function pass_loop ::
  "(nat \<Rightarrow> 's \<Rightarrow> ('s \<times> u8) res) \<Rightarrow> nat \<Rightarrow> nat \<Rightarrow> u16 \<Rightarrow> 's \<Rightarrow> ('s \<times> u16) res" where
  "pass_loop body ceil ptr idx s =
    (if ptr < ceil then
       (case body ptr s of
          Inl e \<Rightarrow> Inl e
        | Inr (s', pass_len) \<Rightarrow>
            (if 0 < pass_len then pass_loop body ceil (ptr + unat pass_len) (idx + 1) s'
             else Inl Assert_Fail))
     else Inr (s, idx))"
  by pat_completeness auto
termination
  by (relation "measure (\<lambda>(body, ceil, ptr, idx, s). ceil - ptr)")
    (auto simp: word_less_nat_alt)

declare pass_loop.simps [simp del]

definition tblock_ceil :: "ir_context \<Rightarrow> tblock \<Rightarrow> nat" where
  "tblock_ceil c block = guest_ptr c + TBLOCK_SIZE * 2 ^ tblock_type_val (tb_type block)"

text \<open>Loading the instruction at a guest position: 16 bytes into a zeroed payload.\<close>

definition load_guest_instr :: "ir_context \<Rightarrow> nat \<Rightarrow> mte_raw_instr res" where
  "load_guest_instr c ptr =
    and_then (buf_read (guest_base c) ptr 16) (\<lambda>bs.
      Inr \<lparr>raw_arch = guest_arch c, payload = bs @ replicate (MTE_PAYLOAD_SIZE - 16) 0\<rparr>)"

section \<open>Liveness scan (tblock_liveness_scan)\<close>

fun mark_loop :: "u16 \<Rightarrow> ir_operand list \<Rightarrow> nat list \<Rightarrow> asm_reg_liveness list \<Rightarrow> asm_reg_liveness list res" where
  "mark_loop blk_shift xs [] lv = Inr lv"
| "mark_loop blk_shift xs (i # is) lv =
    and_then (arr xs i) (\<lambda>opr.
      (if kind opr \<noteq> IR_OP_REG then mark_loop blk_shift xs is lv
       else mark_loop blk_shift xs is
         (lv[unat (op_id opr) := ucast (ucast (lv ! unat (op_id opr)) OR blk_shift)])))"

text \<open>The locals of the scan with the liveness array it fills.\<close>

record scan_state =
  sc_guest_len :: u8
  sc_blk_i :: u8
  sc_bytes :: u32
  sc_liveness :: "asm_reg_liveness list"

definition scan_body :: "ir_context \<Rightarrow> u32 \<Rightarrow> nat \<Rightarrow> scan_state \<Rightarrow> (scan_state \<times> u8) res" where
  "scan_body c frag ptr s =
    (let blk_shift = BIT (unat (sc_blk_i s))
     in and_then (load_guest_instr c ptr) (\<lambda>guest_instr.
        and_then (call_guest_reg_fetch c (Some guest_instr) True (Some (sc_guest_len s))) (\<lambda>(set, len).
        and_then (mark_loop blk_shift (ops set) [0..<unat (ops_count set)] (sc_liveness s)) (\<lambda>lv.
          (let bytes = sc_bytes s + ucast (the len)
           in Inr (\<lparr>sc_guest_len = the len, sc_blk_i = ucast (bytes div frag),
                    sc_bytes = bytes, sc_liveness = lv\<rparr>, the len))))))"

type_synonym pass_result = "u32 \<times> axres"

definition tblock_liveness_scan ::
  "ir_context option \<Rightarrow> tblock option \<Rightarrow> (pass_result \<times> tblock option) res" where
  "tblock_liveness_scan ir block_opt =
    (case (ir, block_opt) of
       (Some c, Some block) \<Rightarrow>
         and_then (pass_loop (scan_body c (tblock_frag_calc (tb_type block))) (tblock_ceil c block)
                     (guest_ptr c) 0
                     \<lparr>sc_guest_len = 0, sc_blk_i = 0, sc_bytes = 0, sc_liveness = liveness block\<rparr>)
           (\<lambda>(s, idx). Inr ((ucast idx, AX_SUCC), Some (block\<lparr>liveness := sc_liveness s\<rparr>)))
     | _ \<Rightarrow> Inr ((0, AX_INV_ARG), block_opt))"

section \<open>Guest code to IR (tblock_raw_to_ir)\<close>

record conv_state =
  cv_guest_len :: u8
  cv_blk_i :: u8
  cv_bytes :: u32
  cv_block :: tblock

text \<open>Association, fixing and expansion of one converted instruction.\<close>

definition place_instr :: "ir_context \<Rightarrow> ir_raw_instr \<Rightarrow> tblock \<Rightarrow> tblock res" where
  "place_instr c ir_instr block =
    and_then (asm_fill_assoc (Some c) (Some ir_instr) (Some (spill_cnt block)) (Some (assoc block))
                (Some (state block))) (\<lambda>(sp, as, st).
    (let block1 = block\<lparr>spill_cnt := the sp, assoc := the as, state := the st\<rparr>
     in and_then (asm_fix_instr (Some c) (Some ir_instr) (Some (assoc block1))) (\<lambda>ins.
        and_then (asm_expand_instr (Some c) ins (ir_capacity block1 - ucast (ir_cnt block1))
                    (Some (drop (unat (ir_cnt block1)) (ir_buf block1))) False) (\<lambda>(n, buf).
          Inr (block1\<lparr>ir_buf := take (unat (ir_cnt block1)) (ir_buf block1) @ the buf,
                      ir_cnt := ir_cnt block1 + ucast n\<rparr>)))))"

text \<open>The end of an iteration: the registers are flushed when a fragment was left.\<close>

definition cross_fragment :: "ir_context \<Rightarrow> u32 \<Rightarrow> conv_state \<Rightarrow> conv_state res" where
  "cross_fragment c frag s =
    (let bytes = cv_bytes s + ucast (cv_guest_len s);
         next_blk_i = ucast (bytes div frag) :: u8;
         s' = s\<lparr>cv_bytes := bytes\<rparr>;
         block = cv_block s
     in if next_blk_i - cv_blk_i s \<noteq> 0 then
          and_then (asm_flush_by_liveness (Some c) (cv_blk_i s) (Some (liveness block)) (Some (assoc block))
                      (Some (state block)))
            (\<lambda>(as, st). Inr (s'\<lparr>cv_block := block\<lparr>assoc := the as, state := the st\<rparr>, cv_blk_i := next_blk_i\<rparr>))
        else Inr s')"

definition conv_body :: "ir_context \<Rightarrow> u32 \<Rightarrow> nat \<Rightarrow> conv_state \<Rightarrow> (conv_state \<times> u8) res" where
  "conv_body c frag ptr s =
    and_then (load_guest_instr c ptr) (\<lambda>guest_instr.
    and_then (call_guest_to_ir c (Some guest_instr) True (Some (cv_guest_len s))) (\<lambda>(ir_instr, len).
    and_then (if opcode ir_instr = ir_opcode_val IR_INVALID_OPCODE then Inr (cv_block s)
              else place_instr c ir_instr (cv_block s)) (\<lambda>block.
    and_then (cross_fragment c frag (s\<lparr>cv_guest_len := the len, cv_block := block\<rparr>)) (\<lambda>s'.
      Inr (s', the len)))))"

definition tblock_raw_to_ir ::
  "ir_context option \<Rightarrow> tblock option \<Rightarrow> (pass_result \<times> tblock option) res" where
  "tblock_raw_to_ir ir block_opt =
    (case (ir, block_opt) of
       (Some c, Some block) \<Rightarrow>
         and_then (pass_loop (conv_body c (tblock_frag_calc (tb_type block))) (tblock_ceil c block)
                     (guest_ptr c) 0
                     \<lparr>cv_guest_len = 0, cv_blk_i = 0, cv_bytes = 0, cv_block = block\<rparr>)
           (\<lambda>(s, idx). Inr ((ucast (ir_cnt (cv_block s)), AX_SUCC), Some (cv_block s)))
     | _ \<Rightarrow> Inr ((0, AX_INV_ARG), block_opt))"

section \<open>IR to host code (tblock_ir_to_raw)\<close>

text \<open>The local \<^verbatim>\<open>host_len\<close>, the local \<^verbatim>\<open>host_ptr\<close> and the host buffer.\<close>

type_synonym emit_state = "u8 \<times> nat \<times> u8 list"

text \<open>
  One call of \<^verbatim>\<open>ir_to_host\<close> and the copy of the returned code. A call that leaves \<^verbatim>\<open>*len\<close>
  alone makes the copy use the length of the instruction before.
\<close>

definition emit_ir :: "ir_context \<Rightarrow> ir_raw_instr \<Rightarrow> emit_state \<Rightarrow> emit_state res" where
  "emit_ir c ir_instr e =
    (case e of (host_len, hptr, hbuf) \<Rightarrow>
      and_then (call_ir_to_host c ir_instr True (Some host_len)) (\<lambda>(raw, len).
      and_then (buf_read (payload raw) 0 (unat (the len))) (\<lambda>bs.
      and_then (buf_write hbuf hptr bs) (\<lambda>hbuf'.
        Inr (the len, hptr + unat (the len), hbuf')))))"

definition alloc_instr :: "cpu_reg_map \<Rightarrow> ir_raw_instr" where
  "alloc_instr hm =
    \<lparr>opcode = ir_opcode_val IR_ALLOC,
     opset = \<lparr>ops = \<lparr>kind = IR_OP_IMM, op_id = ucast (reg_width hm)\<rparr> # replicate 5 ir_operand_zero,
              ops_count = 1\<rparr>\<rparr>"

fun prologue_loop :: "ir_context \<Rightarrow> nat \<Rightarrow> emit_state \<Rightarrow> emit_state res" where
  "prologue_loop c 0 e = Inr e"
| "prologue_loop c (Suc k) e =
    and_then (deref (host_map c)) (\<lambda>hm.
      and_then (emit_ir c (alloc_instr hm) e) (prologue_loop c k))"

fun emit_loop :: "ir_context \<Rightarrow> ir_raw_instr list \<Rightarrow> nat list \<Rightarrow> emit_state \<Rightarrow> emit_state res" where
  "emit_loop c buf [] e = Inr e"
| "emit_loop c buf (i # is) e =
    and_then (arr buf i) (\<lambda>ins.
      and_then (asrt (opcode ins \<noteq> ir_opcode_val IR_INVALID_OPCODE)) (\<lambda>_.
        and_then (emit_ir c ins e) (emit_loop c buf is)))"

text \<open>The position reached in the host buffer stays in the local variable.\<close>

definition tblock_ir_to_raw ::
  "ir_context option \<Rightarrow> tblock option \<Rightarrow> (pass_result \<times> ir_context option \<times> tblock option) res" where
  "tblock_ir_to_raw ir block_opt =
    (case (ir, block_opt) of
       (Some c, Some block) \<Rightarrow>
         (let block1 = block\<lparr>spill_cnt := 0\<rparr>
          in and_then (prologue_loop c (unat (spill_cnt block1)) (0, host_ptr c, host_base c)) (\<lambda>e.
             and_then (emit_loop c (ir_buf block1) [0..<unat (ir_cnt block1)] e) (\<lambda>(host_len, hptr, hbuf).
               Inr ((ucast (ir_cnt block1) + ucast (spill_cnt block1), AX_SUCC),
                    Some (c\<lparr>host_base := hbuf\<rparr>), Some block1))))
     | _ \<Rightarrow> Inr ((0, AX_INV_ARG), ir, block_opt))"

section \<open>tblock_emit (tblock.c)\<close>

definition tblock_emit ::
  "ir_context option \<Rightarrow> tblock option \<Rightarrow> (bool \<times> ir_context option \<times> tblock option) res" where
  "tblock_emit ir block =
    (if ir = None \<or> block = None then Inr (False, ir, block)
     else and_then (tblock_liveness_scan ir block) (\<lambda>((_, r1), block1).
       (if r1 \<noteq> AX_SUCC then Inr (False, ir, block1)
        else and_then (tblock_raw_to_ir ir block1) (\<lambda>((_, r2), block2).
          (if r2 \<noteq> AX_SUCC then Inr (False, ir, block2)
           else and_then (tblock_ir_to_raw ir block2) (\<lambda>((_, r3), ir3, block3).
             Inr (r3 = AX_SUCC, ir3, block3)))))))"

section \<open>Guests with instructions of one length\<close>

text \<open>
  What the passes rely on in the calls of a guest whose instructions all have the length \<open>L\<close>:
  both calls report it, and the register fetch returns for every instruction.
\<close>

locale fixed_width_guest =
  fixes to_ir :: guest_to_ir_call
    and fetch :: guest_reg_fetch_call
    and regs_of :: "mte_raw_instr \<Rightarrow> ir_operand_set"
    and L :: u8
  assumes L_pos: "0 < L"
    and to_ir_len: "to_ir (Some raw) True (Some l) = Inr (ins, len) \<Longrightarrow> len = Some L"
    and fetch_ok: "fetch (Some raw) True (Some l) = Inr (regs_of raw, Some L)"
    and regs_of_count: "unat (ops_count (regs_of raw)) \<le> length (ops (regs_of raw))"

text \<open>A pass whose steps all have the length \<open>L\<close> is a loop over its steps.\<close>

lemma pass_loop_steps:
  assumes "0 < L" "\<And>k s. k < n \<Longrightarrow> body (p0 + unat L * k) s = and_then (f k s) (\<lambda>s'. Inr (s', L))"
  shows "k \<le> n \<Longrightarrow> pass_loop body (p0 + unat L * n) (p0 + unat L * k) idx s =
    and_then (fold_res f [k..<n] s) (\<lambda>s'. Inr (s', idx + of_nat (n - k)))"
proof (induction "n - k" arbitrary: k idx s)
  case 0
  then show ?case by (simp add: pass_loop.simps)
next
  case (Suc d)
  then have k: "k < n" by simp
  have L: "0 < unat L" using assms(1) by (simp add: word_less_nat_alt)
  have IH: "pass_loop body (p0 + unat L * n) (p0 + unat L * Suc k) (idx + 1) s' =
      and_then (fold_res f [Suc k..<n] s') (\<lambda>s'. Inr (s', idx + 1 + of_nat (n - Suc k)))" for s'
    using Suc k by (intro Suc.hyps(1)) simp_all
  have idx: "idx + 1 + of_nat (n - Suc k) = idx + of_nat (n - k)"
    using k by (simp add: Suc_diff_Suc [symmetric])
  show ?case
  proof (cases "f k s")
    case (Inl e)
    with k L assms(2) [OF k, of s] show ?thesis
      by (simp add: pass_loop.simps [of _ _ "p0 + unat L * k"] upt_conv_Cons)
  next
    case (Inr s')
    have "pass_loop body (p0 + unat L * n) (p0 + unat L * k) idx s =
        pass_loop body (p0 + unat L * n) (p0 + unat L * Suc k) (idx + 1) s'"
      using Inr k L assms(1) assms(2) [OF k, of s]
      by (subst pass_loop.simps) (simp add: algebra_simps)
    with IH [of s'] Inr k show ?thesis by (simp add: upt_conv_Cons idx)
  qed
qed

lemma mark_loop_spec:
  "\<forall>i \<in> set is. i < length xs \<Longrightarrow>
    \<exists>lv'. mark_loop sh xs is lv = Inr lv' \<and> length lv' = length lv \<and>
      (\<forall>g < length lv. \<forall>b. bit (lv' ! g) b \<longleftrightarrow> bit (lv ! g) b \<or>
         b < 8 \<and> bit sh b \<and> (\<exists>i \<in> set is. kind (xs ! i) = IR_OP_REG \<and> unat (op_id (xs ! i)) = g))"
proof (induction "is" arbitrary: lv)
  case Nil
  then show ?case by simp
next
  case (Cons i "is")
  let ?lv = "if kind (xs ! i) \<noteq> IR_OP_REG then lv
    else lv[unat (op_id (xs ! i)) := ucast (ucast (lv ! unat (op_id (xs ! i))) OR sh)]"
  have step: "mark_loop sh xs (i # is) lv = mark_loop sh xs is ?lv"
    using Cons.prems by simp
  have bits: "bit (?lv ! g) b \<longleftrightarrow> bit (lv ! g) b \<or> b < 8 \<and> bit sh b \<and> kind (xs ! i) = IR_OP_REG \<and> unat (op_id (xs ! i)) = g"
    if "g < length lv" for g b
    using that by (cases "unat (op_id (xs ! i)) = g") (auto simp: bit_simps dest: bit_imp_le_length)
  have len: "length ?lv = length lv" by simp
  from Cons.IH [of ?lv] Cons.prems obtain lv' where r: "mark_loop sh xs is ?lv = Inr lv'" "length lv' = length lv"
    "\<And>g b. g < length lv \<Longrightarrow> bit (lv' ! g) b \<longleftrightarrow> bit (?lv ! g) b \<or>
         b < 8 \<and> bit sh b \<and> (\<exists>i \<in> set is. kind (xs ! i) = IR_OP_REG \<and> unat (op_id (xs ! i)) = g)"
    unfolding len by (metis list.set_intros(2))
  show ?case unfolding step using r(1,2) r(3) bits by auto
qed

section \<open>The liveness scan of such a guest\<close>

definition guest_instr_at :: "ir_context \<Rightarrow> nat \<Rightarrow> mte_raw_instr" where
  "guest_instr_at c ptr = \<lparr>raw_arch = guest_arch c,
     payload = take 16 (drop ptr (guest_base c)) @ replicate (MTE_PAYLOAD_SIZE - 16) 0\<rparr>"

lemma load_guest_instr_at:
  "ptr + 16 \<le> length (guest_base c) \<Longrightarrow> load_guest_instr c ptr = Inr (guest_instr_at c ptr)"
  by (simp add: load_guest_instr_def buf_read_def guest_instr_at_def)

text \<open>The bytes and the bytes per fragment of a block.\<close>

definition block_bytes :: "tblock_type \<Rightarrow> nat" where
  "block_bytes ty = TBLOCK_SIZE * 2 ^ tblock_type_val ty"

definition frag_bytes :: "tblock_type \<Rightarrow> nat" where
  "frag_bytes ty = block_bytes ty div SIZEOF_IR_RAW_INSTR"

lemma frag_bytes_simps [simp]:
  "frag_bytes TBLOCK_BIG = 32" "frag_bytes TBLOCK_SMALL = 8"
  "block_bytes TBLOCK_BIG = 512" "block_bytes TBLOCK_SMALL = 128"
  by (simp_all add: frag_bytes_def block_bytes_def TBLOCK_SIZE_def SIZEOF_IR_RAW_INSTR_def)

lemma tblock_frag_calc_bytes: "tblock_frag_calc ty = of_nat (frag_bytes ty)"
  by (simp add: tblock_frag_calc_def frag_bytes_def block_bytes_def)

lemma frag_index:
  assumes "m \<le> block_bytes ty"
  shows "(ucast ((of_nat m :: u32) div tblock_frag_calc ty) :: u8) = of_nat (m div frag_bytes ty)"
    and "m div frag_bytes ty \<le> 16"
proof -
  have m: "m \<le> 512" "frag_bytes ty < 64" using assms by (cases ty; simp)+
  then have "unat ((of_nat m :: u32) div tblock_frag_calc ty) = m div frag_bytes ty"
    by (simp add: tblock_frag_calc_bytes unat_div_distrib unat_of_nat)
  then show "(ucast ((of_nat m :: u32) div tblock_frag_calc ty) :: u8) = of_nat (m div frag_bytes ty)"
    by (metis of_nat_unat)
  show "m div frag_bytes ty \<le> 16" using assms by (cases ty; simp)
qed

definition uses_reg :: "ir_operand_set \<Rightarrow> nat \<Rightarrow> bool" where
  "uses_reg r g \<longleftrightarrow> list_ex (\<lambda>opr. kind opr = IR_OP_REG \<and> unat (op_id opr) = g) (take (unat (ops_count r)) (ops r))"

context fixed_width_guest
begin

text \<open>
  The state of the scan after \<open>k\<close> instructions: a register is marked in the fragment of every
  instruction that uses it, as far as the marks have a bit for the fragment.
\<close>

definition scan_inv :: "ir_context \<Rightarrow> tblock_type \<Rightarrow> asm_reg_liveness list \<Rightarrow> nat \<Rightarrow> scan_state \<Rightarrow> bool" where
  "scan_inv c ty lv k s \<longleftrightarrow>
     sc_bytes s = of_nat (unat L * k) \<and> sc_blk_i s = of_nat (unat L * k div frag_bytes ty) \<and>
     length (sc_liveness s) = length lv \<and>
     (\<forall>g < length lv. \<forall>b. bit (sc_liveness s ! g) b \<longleftrightarrow> bit (lv ! g) b \<or>
        b < 8 \<and> (\<exists>j < k. unat L * j div frag_bytes ty = b \<and>
           uses_reg (regs_of (guest_instr_at c (guest_ptr c + unat L * j))) g))"

lemma scan_step:
  assumes "guest_reg_fetch c = Some fetch" "guest_ptr c + unat L * k + 16 \<le> length (guest_base c)"
    and "unat L * Suc k \<le> block_bytes ty" "scan_inv c ty lv k s"
  obtains s' where "scan_body c (tblock_frag_calc ty) (guest_ptr c + unat L * k) s = Inr (s', L)"
    "scan_inv c ty lv (Suc k) s'"
proof -
  let ?raw = "guest_instr_at c (guest_ptr c + unat L * k)"
  let ?set = "regs_of ?raw"
  let ?b = "unat L * k div frag_bytes ty"
  have k: "unat L * k \<le> block_bytes ty" using assms(3) by simp
  have blk: "unat (sc_blk_i s) = ?b"
    using assms(4) frag_index(2) [OF k] by (simp add: scan_inv_def unat_of_nat)
  have "\<forall>i \<in> set [0..<unat (ops_count ?set)]. i < length (ops ?set)"
    using regs_of_count [of ?raw] by auto
  from mark_loop_spec [OF this, of "BIT ?b" "sc_liveness s"] obtain lv' where
    m: "mark_loop (BIT ?b) (ops ?set) [0..<unat (ops_count ?set)] (sc_liveness s) = Inr lv'"
    "length lv' = length (sc_liveness s)"
    "\<And>g b. g < length (sc_liveness s) \<Longrightarrow> bit (lv' ! g) b \<longleftrightarrow> bit (sc_liveness s ! g) b \<or>
       b < 8 \<and> bit (BIT ?b :: u16) b \<and>
       (\<exists>i \<in> set [0..<unat (ops_count ?set)]. kind (ops ?set ! i) = IR_OP_REG \<and> unat (op_id (ops ?set ! i)) = g)"
    by blast
  have uses: "(\<exists>i \<in> set [0..<unat (ops_count ?set)]. kind (ops ?set ! i) = IR_OP_REG \<and> unat (op_id (ops ?set ! i)) = g)
      \<longleftrightarrow> uses_reg ?set g" for g
    using regs_of_count [of ?raw] by (auto simp: uses_reg_def list_ex_length)
  let ?s' = "\<lparr>sc_guest_len = L, sc_blk_i = of_nat (unat L * Suc k div frag_bytes ty),
     sc_bytes = of_nat (unat L * Suc k), sc_liveness = lv'\<rparr>"
  have bytes: "sc_bytes s + ucast L = of_nat (unat L * Suc k)"
    using assms(4) by (simp add: scan_inv_def algebra_simps)
  have "scan_body c (tblock_frag_calc ty) (guest_ptr c + unat L * k) s = Inr (?s', L)"
    using assms(1) load_guest_instr_at [OF assms(2)] fetch_ok m(1) frag_index(1) [OF assms(3)]
    by (simp add: scan_body_def Let_def blk call_guest_reg_fetch_def bytes)
  moreover have "scan_inv c ty lv (Suc k) ?s'"
    using assms(4) m(2,3) uses by (auto simp: scan_inv_def less_Suc_eq)
  ultimately show ?thesis by (rule that)
qed

theorem scan_spec:
  assumes "guest_reg_fetch c = Some fetch" "unat L * n = block_bytes (tb_type b)"
    and "guest_ptr c + block_bytes (tb_type b) + 16 \<le> length (guest_base c) + unat L"
  shows "\<exists>lv'. tblock_liveness_scan (Some c) (Some b) = Inr ((ucast (of_nat n :: u16), AX_SUCC), Some (b\<lparr>liveness := lv'\<rparr>)) \<and>
    length lv' = length (liveness b) \<and>
    (\<forall>g < length (liveness b). \<forall>i. bit (lv' ! g) i \<longleftrightarrow> bit (liveness b ! g) i \<or>
       i < 8 \<and> (\<exists>j < n. unat L * j div frag_bytes (tb_type b) = i \<and>
          uses_reg (regs_of (guest_instr_at c (guest_ptr c + unat L * j))) g))"
proof -
  let ?body = "scan_body c (tblock_frag_calc (tb_type b))"
  let ?f = "\<lambda>k s. and_then (?body (guest_ptr c + unat L * k) s) (\<lambda>(s', len). Inr s')"
  let ?s0 = "\<lparr>sc_guest_len = 0, sc_blk_i = 0, sc_bytes = 0, sc_liveness = liveness b\<rparr>"
  have room: "guest_ptr c + unat L * k + 16 \<le> length (guest_base c)" if "k < n" for k
  proof -
    have "unat L * Suc k \<le> unat L * n" using that by (intro mult_le_mono2) simp
    with assms(2,3) show ?thesis by simp
  qed
  have bound: "unat L * Suc k \<le> block_bytes (tb_type b)" if "k < n" for k
    using that assms(2) by (metis Suc_leI mult_le_mono2)
  have fold: "\<exists>s. fold_res ?f [0..<k] ?s0 = Inr s \<and> scan_inv c (tb_type b) (liveness b) k s" if "k \<le> n" for k
    using that
  proof (induction k)
    case 0
    show ?case by (simp add: scan_inv_def)
  next
    case (Suc k)
    then obtain s where "fold_res ?f [0..<k] ?s0 = Inr s" "scan_inv c (tb_type b) (liveness b) k s" by auto
    moreover from this scan_step [OF assms(1) room bound] Suc.prems obtain s' where
      "?body (guest_ptr c + unat L * k) s = Inr (s', L)" "scan_inv c (tb_type b) (liveness b) (Suc k) s'"
      by (metis Suc_le_lessD)
    ultimately show ?case by (simp add: fold_res_append)
  qed
  have len: "?body (guest_ptr c + unat L * k) s = and_then (?f k s) (\<lambda>s'. Inr (s', L))" if "k < n" for k s
    using assms(1) load_guest_instr_at [OF room [OF that]] fetch_ok
    by (cases "mark_loop (BIT (unat (sc_blk_i s))) (ops (regs_of (guest_instr_at c (guest_ptr c + unat L * k))))
          [0..<unat (ops_count (regs_of (guest_instr_at c (guest_ptr c + unat L * k))))] (sc_liveness s)")
      (simp_all add: scan_body_def Let_def call_guest_reg_fetch_def)
  have ceil: "tblock_ceil c b = guest_ptr c + unat L * n"
    using assms(2) by (simp add: tblock_ceil_def block_bytes_def)
  from fold [of n] obtain s where s: "fold_res ?f [0..<n] ?s0 = Inr s" "scan_inv c (tb_type b) (liveness b) n s"
    by auto
  then have "pass_loop ?body (tblock_ceil c b) (guest_ptr c) 0 ?s0 = Inr (s, of_nat n)"
    using pass_loop_steps [where n = n and k = 0 and idx = 0 and s = ?s0 and f = ?f and body = ?body
        and ?p0.0 = "guest_ptr c", OF L_pos len] by (simp add: ceil)
  then show ?thesis
    using s(2) by (intro exI [of _ "sc_liveness s"]) (auto simp: tblock_liveness_scan_def scan_inv_def)
qed

end

section \<open>Emission through a host back end\<close>

text \<open>
  What the emission pass relies on in the \<^verbatim>\<open>ir_to_host\<close> call: \<open>emits ins bs\<close> means that the
  call returns the bytes \<open>bs\<close> for a valid instruction, whatever \<^verbatim>\<open>*len\<close> held before.
\<close>

locale host_backend =
  fixes to_host :: ir_to_host_call
    and emits :: "ir_raw_instr \<Rightarrow> u8 list \<Rightarrow> bool"
  assumes emits_call: "emits ins bs \<Longrightarrow>
      \<exists>raw. to_host ins True (Some l) = Inr (raw, Some (of_nat (length bs))) \<and>
        length bs \<le> length (payload raw) \<and> take (length bs) (payload raw) = bs"
    and emits_length: "emits ins bs \<Longrightarrow> length bs < 256"
    and emits_valid: "emits ins bs \<Longrightarrow> opcode ins \<noteq> ir_opcode_val IR_INVALID_OPCODE"
begin

lemma emit_ir_emits:
  assumes "ir_to_host c = Some to_host" "emits ins bs" "p + length bs \<le> length hb"
  shows "emit_ir c ins (l, p, hb) =
    Inr (of_nat (length bs), p + length bs, take p hb @ bs @ drop (p + length bs) hb)"
proof -
  obtain raw where "to_host ins True (Some l) = Inr (raw, Some (of_nat (length bs)))"
    "length bs \<le> length (payload raw)" "take (length bs) (payload raw) = bs"
    using emits_call [OF assms(2)] by blast
  moreover have "unat (of_nat (length bs) :: u8) = length bs"
    using emits_length [OF assms(2)] by (simp add: unat_of_nat)
  ultimately show ?thesis
    using assms(1,3) by (simp add: emit_ir_def call_ir_to_host_def buf_read_def buf_write_def)
qed

lemma emit_loop_emits:
  assumes "ir_to_host c = Some to_host"
  shows "list_all2 emits irs bss \<Longrightarrow> \<forall>i < length irs. k + i < length buf \<and> buf ! (k + i) = irs ! i \<Longrightarrow>
    p + length (concat bss) \<le> length hb \<Longrightarrow>
    \<exists>l'. emit_loop c buf [k..<k + length irs] (l, p, hb) =
      Inr (l', p + length (concat bss), take p hb @ concat bss @ drop (p + length (concat bss)) hb)"
proof (induction irs bss arbitrary: k l p hb rule: list_all2_induct)
  case Nil
  then show ?case by simp
next
  case (Cons ins irs bs bss)
  let ?hb = "take p hb @ bs @ drop (p + length bs) hb"
  have 0: "k < length buf" "buf ! k = ins" using Cons.prems(1) by (auto dest: spec [of _ 0])
  have rest: "\<forall>i < length irs. Suc k + i < length buf \<and> buf ! (Suc k + i) = irs ! i"
    using Cons.prems(1) by (auto dest: spec [of _ "Suc _"])
  have upt: "[k..<k + length (ins # irs)] = k # [Suc k..<Suc k + length irs]"
    by (simp add: upt_conv_Cons del: upt_Suc)
  have "emit_loop c buf [k..<k + length (ins # irs)] (l, p, hb) =
      emit_loop c buf [Suc k..<Suc k + length irs] (of_nat (length bs), p + length bs, ?hb)"
    using 0 emits_valid [OF Cons.hyps(1)] emit_ir_emits [OF assms Cons.hyps(1), of p hb l] Cons.prems(2)
    unfolding upt by (simp del: upt_Suc)
  moreover have "p + length bs + length (concat bss) \<le> length ?hb" using Cons.prems(2) by simp
  from Cons.IH [OF rest this] obtain l' where
    "emit_loop c buf [Suc k..<Suc k + length irs] (of_nat (length bs), p + length bs, ?hb) =
      Inr (l', p + length bs + length (concat bss),
        take (p + length bs) ?hb @ concat bss @ drop (p + length bs + length (concat bss)) ?hb)"
    by blast
  ultimately show ?case using Cons.prems(2) by (simp add: ac_simps del: upt_Suc)
qed

text \<open>
  The code of a block is the code of its instructions, one after another, at \<^verbatim>\<open>host_ptr\<close>;
  the rest of the buffer and \<^verbatim>\<open>host_ptr\<close> itself stay as they were.
\<close>

theorem ir_to_raw_emits:
  assumes "ir_to_host c = Some to_host" "unat (ir_cnt b) \<le> length (ir_buf b)"
    and "list_all2 emits (take (unat (ir_cnt b)) (ir_buf b)) bss"
    and "host_ptr c + length (concat bss) \<le> length (host_base c)"
  shows "tblock_ir_to_raw (Some c) (Some b) =
    Inr ((ucast (ir_cnt b), AX_SUCC),
      Some (c\<lparr>host_base := take (host_ptr c) (host_base c) @ concat bss
               @ drop (host_ptr c + length (concat bss)) (host_base c)\<rparr>),
      Some (b\<lparr>spill_cnt := 0\<rparr>))"
proof -
  have "\<exists>l'. emit_loop c (ir_buf b) [0..<0 + length (take (unat (ir_cnt b)) (ir_buf b))] (0, host_ptr c, host_base c) =
      Inr (l', host_ptr c + length (concat bss),
        take (host_ptr c) (host_base c) @ concat bss @ drop (host_ptr c + length (concat bss)) (host_base c))"
    using assms(2) by (intro emit_loop_emits [OF assms(1,3) _ assms(4)]) simp
  then show ?thesis using assms(2) by (auto simp: tblock_ir_to_raw_def)
qed

end

end
