(* ===== verification/I64_Instr.thy ===== *)
theory I64_Instr
  imports IR
begin

text \<open>
  The Intel 64 instruction vocabulary (\<^verbatim>\<open>asm/intel/instr/i64_operand.h\<close>, \<^verbatim>\<open>i64_opcode.h\<close>) with
  its tables (\<^verbatim>\<open>tables/i64_op_tables.c\<close>, \<^verbatim>\<open>tables/i64_opcode.c\<close>) and the register map
  (\<^verbatim>\<open>i64_cpu.c\<close>). The collection \<open>i64_eval\<close> holds the constants, for evaluation by \<open>simp\<close>.
\<close>

named_theorems i64_eval

section \<open>Operands (i64_operand.h)\<close>

definition I64_MAX_OP_COUNT :: nat where "I64_MAX_OP_COUNT = 4"

definition I64_MEM :: u8 where [i64_eval]: "I64_MEM = 0x01"
definition I64_REG :: u8 where [i64_eval]: "I64_REG = 0x02"
definition I64_IMM :: u8 where [i64_eval]: "I64_IMM = 0x04"
definition I64_SIB :: u8 where [i64_eval]: "I64_SIB = I64_MEM OR 0x10"
definition I64_DISP8 :: u8 where [i64_eval]: "I64_DISP8 = I64_MEM OR 0x40"
definition I64_DISP32 :: u8 where [i64_eval]: "I64_DISP32 = I64_MEM OR 0x80"

definition W8 :: u8 where [i64_eval]: "W8 = 3"
definition W16 :: u8 where [i64_eval]: "W16 = 4"
definition W32 :: u8 where [i64_eval]: "W32 = 5"
definition W64 :: u8 where [i64_eval]: "W64 = 6"

definition I64_OP_REG :: u8 where [i64_eval]: "I64_OP_REG = push_bit 5 0"
definition I64_OP_SIB_SCALE :: u8 where [i64_eval]: "I64_OP_SIB_SCALE = push_bit 5 1"
definition I64_OP_IMM :: u8 where [i64_eval]: "I64_OP_IMM = push_bit 5 2"
definition I64_OP_EXT :: u8 where [i64_eval]: "I64_OP_EXT = push_bit 5 4"

definition I64_OPR_I :: "u8 \<Rightarrow> u8 \<Rightarrow> u8" where
  [i64_eval]: "I64_OPR_I i v = (i OR v) AND 0xff"

datatype i64_operand_id =
    I64_rAX | I64_rCX | I64_rDX | I64_rBX | I64_rSP | I64_rBP | I64_rSI | I64_rDI
  | I64_r8 | I64_r9 | I64_r10 | I64_r11 | I64_r12 | I64_r13 | I64_r14 | I64_r15
  | I64_SIB_1 | I64_SIB_2 | I64_SIB_4 | I64_SIB_8 | I64_IMM_8 | I64_IMM_16 | I64_IMM_32

fun i64_operand_id_val :: "i64_operand_id \<Rightarrow> u8" where
  "i64_operand_id_val I64_rAX = I64_OPR_I I64_OP_REG 0x0"
| "i64_operand_id_val I64_rCX = I64_OPR_I I64_OP_REG 0x1"
| "i64_operand_id_val I64_rDX = I64_OPR_I I64_OP_REG 0x2"
| "i64_operand_id_val I64_rBX = I64_OPR_I I64_OP_REG 0x3"
| "i64_operand_id_val I64_rSP = I64_OPR_I I64_OP_REG 0x4"
| "i64_operand_id_val I64_rBP = I64_OPR_I I64_OP_REG 0x5"
| "i64_operand_id_val I64_rSI = I64_OPR_I I64_OP_REG 0x6"
| "i64_operand_id_val I64_rDI = I64_OPR_I I64_OP_REG 0x7"
| "i64_operand_id_val I64_r8 = I64_OPR_I (I64_OP_EXT OR I64_OP_REG) 0x8"
| "i64_operand_id_val I64_r9 = I64_OPR_I (I64_OP_EXT OR I64_OP_REG) 0x9"
| "i64_operand_id_val I64_r10 = I64_OPR_I (I64_OP_EXT OR I64_OP_REG) 0xa"
| "i64_operand_id_val I64_r11 = I64_OPR_I (I64_OP_EXT OR I64_OP_REG) 0xb"
| "i64_operand_id_val I64_r12 = I64_OPR_I (I64_OP_EXT OR I64_OP_REG) 0xc"
| "i64_operand_id_val I64_r13 = I64_OPR_I (I64_OP_EXT OR I64_OP_REG) 0xd"
| "i64_operand_id_val I64_r14 = I64_OPR_I (I64_OP_EXT OR I64_OP_REG) 0xe"
| "i64_operand_id_val I64_r15 = I64_OPR_I (I64_OP_EXT OR I64_OP_REG) 0xf"
| "i64_operand_id_val I64_SIB_1 = I64_OPR_I I64_OP_SIB_SCALE (BIT 4)"
| "i64_operand_id_val I64_SIB_2 = I64_OPR_I I64_OP_SIB_SCALE (BIT 4 OR 1)"
| "i64_operand_id_val I64_SIB_4 = I64_OPR_I I64_OP_SIB_SCALE (BIT 4 OR 2)"
| "i64_operand_id_val I64_SIB_8 = I64_OPR_I I64_OP_SIB_SCALE (BIT 4 OR 3)"
| "i64_operand_id_val I64_IMM_8 = I64_OPR_I I64_OP_IMM (BIT 4 OR 4)"
| "i64_operand_id_val I64_IMM_16 = I64_OPR_I I64_OP_IMM (BIT 4 OR 5)"
| "i64_operand_id_val I64_IMM_32 = I64_OPR_I I64_OP_IMM (BIT 4 OR 6)"

text \<open>\<^verbatim>\<open>I64_REG_TO_OPERAND[16]\<close>, indexed with a register number.\<close>

definition I64_REG_TO_OPERAND :: "i64_operand_id list" where
  "I64_REG_TO_OPERAND =
    [I64_rAX, I64_rCX, I64_rDX, I64_rBX, I64_rSP, I64_rBP, I64_rSI, I64_rDI,
     I64_r8, I64_r9, I64_r10, I64_r11, I64_r12, I64_r13, I64_r14, I64_r15]"

record i64_operand_desc =
  od_type :: u8
  od_width :: u8

record i64_operand =
  desc :: i64_operand_desc
  oid :: u8
  val :: u64

definition i64_operand_zero :: i64_operand where
  [i64_eval]: "i64_operand_zero = \<lparr>desc = \<lparr>od_type = 0, od_width = 0\<rparr>, oid = 0, val = 0\<rparr>"

text \<open>
  The view of a memory operand's \<^verbatim>\<open>value\<close> through \<^verbatim>\<open>struct i64_operand_mem*\<close>: three bytes,
  one byte of padding, and the displacement in the upper half.
\<close>

record i64_operand_mem =
  scale_id :: u8
  index_id :: u8
  index_width :: u8
  disp :: u32

definition i64_operand_mem_of :: "u64 \<Rightarrow> i64_operand_mem" where
  [i64_eval]: "i64_operand_mem_of v =
     \<lparr>scale_id = ucast v, index_id = ucast (drop_bit 8 v), index_width = ucast (drop_bit 16 v),
      disp = ucast (drop_bit 32 v)\<rparr>"

definition i64_width_check :: "u8 \<Rightarrow> u8 \<Rightarrow> bool" where
  "i64_width_check a b =
     (if a = W64 then W16 \<le> b \<and> b \<le> W64
      else if a = W32 then W16 \<le> b \<and> b \<le> W32
      else if a = W16 then b = W16
      else if a = W8 then b = W8
      else False)"

definition i64_operand_cmp :: "i64_operand_desc \<Rightarrow> i64_operand_desc \<Rightarrow> bool" where
  "i64_operand_cmp a b =
     (od_type a AND od_type b \<noteq> 0 \<and> i64_width_check (od_width a) (od_width b))"

section \<open>Opcodes (i64_opcode.h)\<close>

definition I64_MAX_OPCODE_LEN :: nat where "I64_MAX_OPCODE_LEN = 4"

definition I64_OPI :: "u64 \<Rightarrow> u64 \<Rightarrow> u64 \<Rightarrow> u64" where
  [i64_eval]: "I64_OPI len type v =
     push_bit 60 (len AND 0xf) OR push_bit 56 (type AND 0xf) OR (v AND 0xffffffffffffff)"

definition I64_OP_GENERIC :: u64 where [i64_eval]: "I64_OP_GENERIC = 1"
definition I64_OP_INSTR :: u64 where [i64_eval]: "I64_OP_INSTR = 2"

datatype i64_opcode =
    I64_INVALID_OPCODE | gADD_8_8 | gADD_64_64 | ADD_8_R8
  | ADD_64_R64 | ADD_R8_8 | ADD_R64_64 | ADD_AL_IMM8
  | ADD_rAX_IMM32 | gOR_8_8 | gOR_64_64 | OR_8_R8
  | OR_64_R64 | OR_R8_8 | OR_R64_64 | OR_AL_IMM8
  | OR_rAX_IMM32 | gAND_8_8 | gAND_64_64 | AND_8_R8
  | AND_64_R64 | AND_R8_8 | AND_R64_64 | AND_AL_IMM8
  | AND_rAX_IMM32 | gSUB_8_8 | gSUB_64_64 | SUB_8_R8
  | SUB_64_R64 | SUB_R8_8 | SUB_R64_64 | SUB_AL_IMM8
  | SUB_rAX_IMM32 | gPUSH_64 | PUSH_R64 | gMOV_8_8
  | gMOV_64_64 | MOV_8_R8 | MOV_64_R64 | MOV_R8_8
  | MOV_R64_64

fun i64_opcode_val :: "i64_opcode \<Rightarrow> u64" where
  "i64_opcode_val I64_INVALID_OPCODE = I64_OPI 0 0 0"
| "i64_opcode_val gADD_8_8 = I64_OPI 0 I64_OP_GENERIC 0x00"
| "i64_opcode_val gADD_64_64 = I64_OPI 0 I64_OP_GENERIC 0x01"
| "i64_opcode_val ADD_8_R8 = I64_OPI 1 I64_OP_INSTR 0x00"
| "i64_opcode_val ADD_64_R64 = I64_OPI 1 I64_OP_INSTR 0x01"
| "i64_opcode_val ADD_R8_8 = I64_OPI 1 I64_OP_INSTR 0x02"
| "i64_opcode_val ADD_R64_64 = I64_OPI 1 I64_OP_INSTR 0x03"
| "i64_opcode_val ADD_AL_IMM8 = I64_OPI 1 I64_OP_INSTR 0x04"
| "i64_opcode_val ADD_rAX_IMM32 = I64_OPI 1 I64_OP_INSTR 0x05"
| "i64_opcode_val gOR_8_8 = I64_OPI 0 I64_OP_GENERIC 0x08"
| "i64_opcode_val gOR_64_64 = I64_OPI 0 I64_OP_GENERIC 0x09"
| "i64_opcode_val OR_8_R8 = I64_OPI 1 I64_OP_INSTR 0x08"
| "i64_opcode_val OR_64_R64 = I64_OPI 1 I64_OP_INSTR 0x09"
| "i64_opcode_val OR_R8_8 = I64_OPI 1 I64_OP_INSTR 0x0a"
| "i64_opcode_val OR_R64_64 = I64_OPI 1 I64_OP_INSTR 0x0b"
| "i64_opcode_val OR_AL_IMM8 = I64_OPI 1 I64_OP_INSTR 0x0c"
| "i64_opcode_val OR_rAX_IMM32 = I64_OPI 1 I64_OP_INSTR 0x0d"
| "i64_opcode_val gAND_8_8 = I64_OPI 0 I64_OP_GENERIC 0x20"
| "i64_opcode_val gAND_64_64 = I64_OPI 0 I64_OP_GENERIC 0x21"
| "i64_opcode_val AND_8_R8 = I64_OPI 1 I64_OP_INSTR 0x20"
| "i64_opcode_val AND_64_R64 = I64_OPI 1 I64_OP_INSTR 0x21"
| "i64_opcode_val AND_R8_8 = I64_OPI 1 I64_OP_INSTR 0x22"
| "i64_opcode_val AND_R64_64 = I64_OPI 1 I64_OP_INSTR 0x23"
| "i64_opcode_val AND_AL_IMM8 = I64_OPI 1 I64_OP_INSTR 0x24"
| "i64_opcode_val AND_rAX_IMM32 = I64_OPI 1 I64_OP_INSTR 0x25"
| "i64_opcode_val gSUB_8_8 = I64_OPI 0 I64_OP_GENERIC 0x28"
| "i64_opcode_val gSUB_64_64 = I64_OPI 0 I64_OP_GENERIC 0x2d"
| "i64_opcode_val SUB_8_R8 = I64_OPI 1 I64_OP_INSTR 0x28"
| "i64_opcode_val SUB_64_R64 = I64_OPI 1 I64_OP_INSTR 0x29"
| "i64_opcode_val SUB_R8_8 = I64_OPI 1 I64_OP_INSTR 0x2a"
| "i64_opcode_val SUB_R64_64 = I64_OPI 1 I64_OP_INSTR 0x2b"
| "i64_opcode_val SUB_AL_IMM8 = I64_OPI 1 I64_OP_INSTR 0x2c"
| "i64_opcode_val SUB_rAX_IMM32 = I64_OPI 1 I64_OP_INSTR 0x2d"
| "i64_opcode_val gPUSH_64 = I64_OPI 0 I64_OP_GENERIC 0x50"
| "i64_opcode_val PUSH_R64 = I64_OPI 1 I64_OP_INSTR 0x50"
| "i64_opcode_val gMOV_8_8 = I64_OPI 0 I64_OP_GENERIC 0x88"
| "i64_opcode_val gMOV_64_64 = I64_OPI 0 I64_OP_GENERIC 0x89"
| "i64_opcode_val MOV_8_R8 = I64_OPI 1 I64_OP_INSTR 0x88"
| "i64_opcode_val MOV_64_R64 = I64_OPI 1 I64_OP_INSTR 0x89"
| "i64_opcode_val MOV_R8_8 = I64_OPI 1 I64_OP_INSTR 0x8a"
| "i64_opcode_val MOV_R64_64 = I64_OPI 1 I64_OP_INSTR 0x8b"

text \<open>\<^verbatim>\<open>~0UL\<close> has 32 bits on the Win64 target.\<close>

definition I64_OPCODE_VALUE :: "u64 \<Rightarrow> u64" where
  [i64_eval]: "I64_OPCODE_VALUE opc = opc AND 0xffffffff"

definition I64_OPCODE_TYPE :: "u64 \<Rightarrow> u64" where
  [i64_eval]: "I64_OPCODE_TYPE opc = drop_bit 56 opc AND 0xf"

definition I64_OPCODE_LEN :: "u64 \<Rightarrow> u64" where
  [i64_eval]: "I64_OPCODE_LEN opc = drop_bit 60 opc AND 0xf"

datatype i64_opcode_form = FORM_RM_R | FORM_R_RM | FORM_RM_IMM | FORM_rAX_IMM | FORM_R | FORM_UNK

definition I64_FORM_I :: "u8 \<Rightarrow> u8 \<Rightarrow> u8" where
  [i64_eval]: "I64_FORM_I f i = push_bit 3 (f AND 1) OR (i AND 0xf)"

fun i64_opcode_form_val :: "i64_opcode_form \<Rightarrow> u8" where
  "i64_opcode_form_val FORM_RM_R = I64_FORM_I 1 0"
| "i64_opcode_form_val FORM_R_RM = I64_FORM_I 0 1"
| "i64_opcode_form_val FORM_RM_IMM = I64_FORM_I 1 2"
| "i64_opcode_form_val FORM_rAX_IMM = I64_FORM_I 0 3"
| "i64_opcode_form_val FORM_R = I64_FORM_I 0 4"
| "i64_opcode_form_val FORM_UNK = I64_FORM_I 0 0"

definition FLAG_REX :: u8 where [i64_eval]: "FLAG_REX = 0x01"
definition FLAG_MODRM :: u8 where [i64_eval]: "FLAG_MODRM = 0x02"
definition FLAG_LEGACY :: u8 where [i64_eval]: "FLAG_LEGACY = 0x04"

definition I64_NO_PREF :: u8 where [i64_eval]: "I64_NO_PREF = 0x00"
definition I64_LOCK_PREF :: u8 where [i64_eval]: "I64_LOCK_PREF = 0xf0"

record i64_opcode_desc =
  od_ops :: "i64_operand_desc list"
  od_count :: u8
  od_flags :: u8
  od_prefix :: u8
  od_form :: i64_opcode_form

definition i64_operand_desc_zero :: i64_operand_desc where
  [i64_eval]: "i64_operand_desc_zero = \<lparr>od_type = 0, od_width = 0\<rparr>"

definition i64_opcode_desc_zero :: i64_opcode_desc where
  [i64_eval]: "i64_opcode_desc_zero =
     \<lparr>od_ops = replicate 4 i64_operand_desc_zero, od_count = 0, od_flags = 0, od_prefix = 0,
      od_form = FORM_UNK\<rparr>"

section \<open>The metadata table (i64_opcode.c)\<close>

text \<open>A table entry with two (one) described operands; the other array elements are zero.\<close>

definition meta2 :: "u8 \<Rightarrow> u8 \<Rightarrow> u8 \<Rightarrow> u8 \<Rightarrow> u8 \<Rightarrow> u8 \<Rightarrow> i64_opcode_form \<Rightarrow> i64_opcode_desc" where
  [i64_eval]: "meta2 t0 w0 t1 w1 flags pref form =
     \<lparr>od_ops = [\<lparr>od_type = t0, od_width = w0\<rparr>, \<lparr>od_type = t1, od_width = w1\<rparr>,
        i64_operand_desc_zero, i64_operand_desc_zero],
      od_count = 2, od_flags = flags, od_prefix = pref, od_form = form\<rparr>"

definition meta1 :: "u8 \<Rightarrow> u8 \<Rightarrow> u8 \<Rightarrow> u8 \<Rightarrow> i64_opcode_form \<Rightarrow> i64_opcode_desc" where
  [i64_eval]: "meta1 t0 w0 flags pref form =
     \<lparr>od_ops = [\<lparr>od_type = t0, od_width = w0\<rparr>,
        i64_operand_desc_zero, i64_operand_desc_zero, i64_operand_desc_zero],
      od_count = 1, od_flags = flags, od_prefix = pref, od_form = form\<rparr>"

text \<open>The initialised entries, by instruction group.\<close>

definition L1_META_ADD :: "(u64 \<times> i64_opcode_desc) list" where
  "L1_META_ADD =
   [(i64_opcode_val ADD_8_R8, meta2 (I64_REG OR I64_MEM) W8 I64_REG W8 (FLAG_MODRM OR FLAG_LEGACY) I64_LOCK_PREF FORM_RM_R),
    (i64_opcode_val ADD_64_R64, meta2 (I64_REG OR I64_MEM) W64 I64_REG W64 (FLAG_REX OR FLAG_MODRM OR FLAG_LEGACY) I64_LOCK_PREF FORM_RM_R),
    (i64_opcode_val ADD_R8_8, meta2 I64_REG W8 (I64_REG OR I64_MEM) W8 FLAG_MODRM I64_NO_PREF FORM_R_RM),
    (i64_opcode_val ADD_R64_64, meta2 I64_REG W64 (I64_REG OR I64_MEM) W64 (FLAG_REX OR FLAG_MODRM) I64_NO_PREF FORM_R_RM),
    (i64_opcode_val ADD_AL_IMM8, meta2 I64_REG W8 I64_IMM W8 0 I64_NO_PREF FORM_rAX_IMM),
    (i64_opcode_val ADD_rAX_IMM32, meta2 I64_REG W32 I64_IMM W32 0 I64_NO_PREF FORM_rAX_IMM)]"

definition L1_META_OR :: "(u64 \<times> i64_opcode_desc) list" where
  "L1_META_OR =
   [(i64_opcode_val OR_8_R8, meta2 (I64_REG OR I64_MEM) W8 I64_REG W8 (FLAG_MODRM OR FLAG_LEGACY) I64_LOCK_PREF FORM_RM_R),
    (i64_opcode_val OR_64_R64, meta2 (I64_REG OR I64_MEM) W64 I64_REG W64 (FLAG_REX OR FLAG_MODRM OR FLAG_LEGACY) I64_LOCK_PREF FORM_RM_R),
    (i64_opcode_val OR_R8_8, meta2 I64_REG W8 (I64_REG OR I64_MEM) W8 FLAG_MODRM I64_NO_PREF FORM_R_RM),
    (i64_opcode_val OR_R64_64, meta2 I64_REG W64 (I64_REG OR I64_MEM) W64 (FLAG_REX OR FLAG_MODRM) I64_NO_PREF FORM_R_RM),
    (i64_opcode_val OR_AL_IMM8, meta2 I64_REG W8 I64_IMM W8 0 I64_NO_PREF FORM_rAX_IMM),
    (i64_opcode_val OR_rAX_IMM32, meta2 I64_REG W32 I64_IMM W32 0 I64_NO_PREF FORM_rAX_IMM)]"

definition L1_META_AND :: "(u64 \<times> i64_opcode_desc) list" where
  "L1_META_AND =
   [(i64_opcode_val AND_8_R8, meta2 (I64_REG OR I64_MEM) W8 I64_REG W8 (FLAG_MODRM OR FLAG_LEGACY) I64_LOCK_PREF FORM_RM_R),
    (i64_opcode_val AND_64_R64, meta2 (I64_REG OR I64_MEM) W64 I64_REG W64 (FLAG_REX OR FLAG_MODRM OR FLAG_LEGACY) I64_LOCK_PREF FORM_RM_R),
    (i64_opcode_val AND_R8_8, meta2 I64_REG W8 (I64_REG OR I64_MEM) W8 FLAG_MODRM I64_NO_PREF FORM_R_RM),
    (i64_opcode_val AND_R64_64, meta2 I64_REG W64 (I64_REG OR I64_MEM) W64 (FLAG_REX OR FLAG_MODRM) I64_NO_PREF FORM_R_RM),
    (i64_opcode_val AND_AL_IMM8, meta2 I64_REG W8 I64_IMM W8 0 I64_NO_PREF FORM_rAX_IMM),
    (i64_opcode_val AND_rAX_IMM32, meta2 I64_REG W32 I64_IMM W32 0 I64_NO_PREF FORM_rAX_IMM)]"

definition L1_META_SUB :: "(u64 \<times> i64_opcode_desc) list" where
  "L1_META_SUB =
   [(i64_opcode_val SUB_8_R8, meta2 (I64_REG OR I64_MEM) W8 I64_REG W8 (FLAG_MODRM OR FLAG_LEGACY) I64_LOCK_PREF FORM_RM_R),
    (i64_opcode_val SUB_64_R64, meta2 (I64_REG OR I64_MEM) W64 I64_REG W64 (FLAG_REX OR FLAG_MODRM OR FLAG_LEGACY) I64_LOCK_PREF FORM_RM_R),
    (i64_opcode_val SUB_R8_8, meta2 I64_REG W8 (I64_REG OR I64_MEM) W8 FLAG_MODRM I64_NO_PREF FORM_R_RM),
    (i64_opcode_val SUB_R64_64, meta2 I64_REG W64 (I64_REG OR I64_MEM) W64 (FLAG_REX OR FLAG_MODRM) I64_NO_PREF FORM_R_RM),
    (i64_opcode_val SUB_AL_IMM8, meta2 I64_REG W8 I64_IMM W8 0 I64_NO_PREF FORM_rAX_IMM),
    (i64_opcode_val SUB_rAX_IMM32, meta2 I64_REG W32 I64_IMM W32 0 I64_NO_PREF FORM_rAX_IMM)]"

definition L1_META_PUSH :: "(u64 \<times> i64_opcode_desc) list" where
  "L1_META_PUSH =
   [(i64_opcode_val PUSH_R64, meta1 I64_REG W64 0 I64_NO_PREF FORM_R)]"

definition L1_META_MOV :: "(u64 \<times> i64_opcode_desc) list" where
  "L1_META_MOV =
   [(i64_opcode_val MOV_8_R8, meta2 (I64_REG OR I64_MEM) W8 I64_REG W8 FLAG_MODRM I64_NO_PREF FORM_RM_R),
    (i64_opcode_val MOV_64_R64, meta2 (I64_REG OR I64_MEM) W64 I64_REG W64 (FLAG_REX OR FLAG_MODRM) I64_NO_PREF FORM_RM_R),
    (i64_opcode_val MOV_R8_8, meta2 I64_REG W8 (I64_REG OR I64_MEM) W8 FLAG_MODRM I64_NO_PREF FORM_R_RM),
    (i64_opcode_val MOV_R64_64, meta2 I64_REG W64 (I64_REG OR I64_MEM) W64 (FLAG_REX OR FLAG_MODRM) I64_NO_PREF FORM_R_RM)]"

definition L1_OPCODE_META_ENTRIES :: "(u64 \<times> i64_opcode_desc) list" where
  "L1_OPCODE_META_ENTRIES = L1_META_ADD @ L1_META_OR @ L1_META_AND @ L1_META_SUB @ L1_META_PUSH @ L1_META_MOV"

lemmas L1_OPCODE_META_ENTRIES_eval = L1_OPCODE_META_ENTRIES_def L1_META_ADD_def L1_META_OR_def L1_META_AND_def L1_META_SUB_def L1_META_PUSH_def L1_META_MOV_def

text \<open>The array has \<^verbatim>\<open>0xff\<close> elements; those without an initialiser are zero.\<close>

definition L1_OPCODE_META_TABLE :: "u64 \<Rightarrow> i64_opcode_desc res" where
  "L1_OPCODE_META_TABLE i =
     (if i < 0xff
      then Inr (case map_of (map (\<lambda>(opc, d). (opc AND 0xff, d)) L1_OPCODE_META_ENTRIES) i of
                  None \<Rightarrow> i64_opcode_desc_zero | Some d \<Rightarrow> d)
      else Inl Out_Of_Bounds)"

definition i64_lookup_opcode_meta :: "i64_opcode \<Rightarrow> i64_opcode_desc res" where
  "i64_lookup_opcode_meta opc =
     (let opcode_len = unat (I64_OPCODE_LEN (i64_opcode_val opc))
      in if opcode_len > I64_MAX_OPCODE_LEN then Inr i64_opcode_desc_zero
         else if opcode_len = 1 then L1_OPCODE_META_TABLE (i64_opcode_val opc AND 0xff)
         else Inr i64_opcode_desc_zero)"

section \<open>Registers (i64_cpu.c)\<close>

definition I64_REG_COUNT :: u16 where "I64_REG_COUNT = 16"
definition I64_REG_WIDTH :: u16 where "I64_REG_WIDTH = 64"

fun I64_CPU_REG_ROLE_MAP :: "cpu_reg_role \<Rightarrow> u64 list" where
  "I64_CPU_REG_ROLE_MAP REG_RETURN = [0x0001, 0, 0, 0]"
| "I64_CPU_REG_ROLE_MAP REG_STACK = [0x03C6, 0, 0, 0]"
| "I64_CPU_REG_ROLE_MAP REG_PRESERVE = [0xF008, 0, 0, 0]"
| "I64_CPU_REG_ROLE_MAP REG_STACK_PTR = [0x0010, 0, 0, 0]"
| "I64_CPU_REG_ROLE_MAP REG_FRAME_PTR = [0x0020, 0, 0, 0]"
| "I64_CPU_REG_ROLE_MAP REG_TEMP = [0x0C00, 0, 0, 0]"
| "I64_CPU_REG_ROLE_MAP REG_MEM_PTR = [0, 0, 0, 0]"

definition i64_reg :: "i64_operand_id \<Rightarrow> cpu_reg_role \<Rightarrow> cpu_reg_desc" where
  "i64_reg r role = \<lparr>reg_value = 0, reg_role = role, reg_id = i64_operand_id_val r AND 0x1f\<rparr>"

definition I64_CPU_REG_MAP :: cpu_reg_map where
  "I64_CPU_REG_MAP =
     \<lparr>reg_count = I64_REG_COUNT, reg_width = I64_REG_WIDTH, role_map = I64_CPU_REG_ROLE_MAP,
      reg_root =
       [i64_reg I64_rAX REG_RETURN,
        i64_reg I64_rCX REG_STACK,
        i64_reg I64_rDX REG_STACK,
        i64_reg I64_rBX REG_PRESERVE,
        i64_reg I64_rSP REG_STACK_PTR,
        i64_reg I64_rBP REG_FRAME_PTR,
        i64_reg I64_rSI REG_STACK,
        i64_reg I64_rDI REG_STACK,
        i64_reg I64_r8 REG_STACK,
        i64_reg I64_r9 REG_STACK,
        i64_reg I64_r10 REG_TEMP,
        i64_reg I64_r11 REG_TEMP,
        i64_reg I64_r12 REG_PRESERVE,
        i64_reg I64_r13 REG_PRESERVE,
        i64_reg I64_r14 REG_PRESERVE,
        i64_reg I64_r15 REG_PRESERVE]\<rparr>"

section \<open>Lemmas\<close>

declare i64_operand_id_val.simps [i64_eval] i64_opcode_form_val.simps [i64_eval]
  i64_opcode_val.simps [i64_eval]
declare i64_opcode_val.simps [simp del]

text \<open>Bit 3 of the form value is the operand swap flag.\<close>

lemma form_swap_bit [simp]:
  "bit (i64_opcode_form_val f) 3 \<longleftrightarrow> f = FORM_RM_R \<or> f = FORM_RM_IMM"
  by (cases f) (simp_all add: I64_FORM_I_def)

text \<open>
  Every initialised entry of the metadata table belongs to a one-byte opcode and no two
  share their byte, so a lookup returns the entry written for the opcode.
\<close>

lemma L1_OPCODE_META_ENTRIES_wf:
  "list_all (\<lambda>(v, d). I64_OPCODE_LEN v = 1 \<and> v AND 0xff < 0xff) L1_OPCODE_META_ENTRIES"
  by (simp add: L1_OPCODE_META_ENTRIES_eval i64_eval)

lemma L1_OPCODE_META_ENTRIES_distinct:
  "distinct (map (\<lambda>(v, d). v AND 0xff) L1_OPCODE_META_ENTRIES)"
  by (simp add: L1_OPCODE_META_ENTRIES_eval i64_eval)

lemma i64_lookup_opcode_meta_entry:
  assumes "(i64_opcode_val opc, d) \<in> set L1_OPCODE_META_ENTRIES"
  shows "i64_lookup_opcode_meta opc = Inr d"
proof -
  from assms L1_OPCODE_META_ENTRIES_wf
  have len: "I64_OPCODE_LEN (i64_opcode_val opc) = 1" "i64_opcode_val opc AND 0xff < 0xff"
    by (auto simp: list_all_iff)
  have "distinct (map fst (map (\<lambda>(v, d). (v AND 0xff, d)) L1_OPCODE_META_ENTRIES))"
    using L1_OPCODE_META_ENTRIES_distinct by (simp add: case_prod_unfold comp_def)
  moreover have "(i64_opcode_val opc AND 0xff, d) \<in> set (map (\<lambda>(v, d). (v AND 0xff, d)) L1_OPCODE_META_ENTRIES)"
    using assms by force
  ultimately have "map_of (map (\<lambda>(v, d). (v AND 0xff, d)) L1_OPCODE_META_ENTRIES)
      (i64_opcode_val opc AND 0xff) = Some d" by (rule map_of_is_SomeI)
  with len show ?thesis
    by (simp add: i64_lookup_opcode_meta_def L1_OPCODE_META_TABLE_def I64_MAX_OPCODE_LEN_def)
qed

end
