(* ===== verification/MIPS32.thy ===== *)
theory MIPS32
  imports IR
begin

text \<open>
  The MIPS32 front end (\<^verbatim>\<open>asm/mips\<close>): instruction fields and types (\<^verbatim>\<open>mips32_instr.h\<close>), the
  register map (\<^verbatim>\<open>mips32_cpu.c\<close>), the opcode table (\<^verbatim>\<open>tables/mips32_op_tables.c\<close>) and the two
  context calls \<^verbatim>\<open>mips32_to_ir\<close> and \<^verbatim>\<open>mips32_reg_fetch\<close> (\<^verbatim>\<open>mips32_ir.c\<close>).
\<close>

section \<open>Instruction fields (mips32_instr.h)\<close>

definition MIPS32_FUNCT_SHIFT :: nat where "MIPS32_FUNCT_SHIFT = 0"
definition MIPS32_SHAMT_SHIFT :: nat where "MIPS32_SHAMT_SHIFT = 0"
definition MIPS32_RD_SHIFT :: nat where "MIPS32_RD_SHIFT = 11"
definition MIPS32_RS_SHIFT :: nat where "MIPS32_RS_SHIFT = 21"
definition MIPS32_RT_SHIFT :: nat where "MIPS32_RT_SHIFT = 16"
definition MIPS32_OPCODE_SHIFT :: nat where "MIPS32_OPCODE_SHIFT = 26"

definition mips32_funct :: "u32 \<Rightarrow> u32" where
  "mips32_funct instr = instr AND 0x3f"

definition mips32_shamt :: "u32 \<Rightarrow> u32" where
  "mips32_shamt instr = drop_bit MIPS32_SHAMT_SHIFT instr AND 0x1f"

definition mips32_rd :: "u32 \<Rightarrow> u32" where
  "mips32_rd instr = drop_bit MIPS32_RD_SHIFT instr AND 0x1f"

definition mips32_rt :: "u32 \<Rightarrow> u32" where
  "mips32_rt instr = drop_bit MIPS32_RT_SHIFT instr AND 0x1f"

definition mips32_rs :: "u32 \<Rightarrow> u32" where
  "mips32_rs instr = drop_bit MIPS32_RS_SHIFT instr AND 0x1f"

definition mips32_opcode :: "u32 \<Rightarrow> u32" where
  "mips32_opcode instr = drop_bit MIPS32_OPCODE_SHIFT instr AND 0x3f"

datatype mips32_instr_type = MIPS_R | MIPS_I | MIPS_J

definition mips32_get_instr_type :: "u32 \<Rightarrow> mips32_instr_type" where
  "mips32_get_instr_type instr =
    (if mips32_opcode instr = 0 then MIPS_R
     else if mips32_opcode instr \<noteq> 2 \<and> mips32_opcode instr \<noteq> 3 then MIPS_I
     else MIPS_J)"

section \<open>Registers (mips32_cpu.c)\<close>

definition MIPS32_REG_COUNT :: u16 where "MIPS32_REG_COUNT = 32"
definition MIPS32_REG_WIDTH :: u16 where "MIPS32_REG_WIDTH = 32"

fun MIPS32_CPU_REG_ROLE_MAP :: "cpu_reg_role \<Rightarrow> u64 list" where
  "MIPS32_CPU_REG_ROLE_MAP REG_PRESERVE = [0x0CFF0001, 0, 0, 0]"
| "MIPS32_CPU_REG_ROLE_MAP REG_TEMP = [0x0300FE02, 0, 0, 0]"
| "MIPS32_CPU_REG_ROLE_MAP REG_RETURN = [0x8000000C, 0, 0, 0]"
| "MIPS32_CPU_REG_ROLE_MAP REG_STACK = [0x000000F0, 0, 0, 0]"
| "MIPS32_CPU_REG_ROLE_MAP REG_FRAME_PTR = [0x10000000, 0, 0, 0]"
| "MIPS32_CPU_REG_ROLE_MAP REG_STACK_PTR = [0x20000000, 0, 0, 0]"
| "MIPS32_CPU_REG_ROLE_MAP REG_MEM_PTR = [0x40000000, 0, 0, 0]"

definition mips32_reg :: "u8 \<Rightarrow> cpu_reg_role \<Rightarrow> cpu_reg_desc" where
  "mips32_reg r role = \<lparr>reg_value = 0, reg_role = role, reg_id = r\<rparr>"

definition MIPS32_CPU_REG_MAP :: cpu_reg_map where
  "MIPS32_CPU_REG_MAP =
     \<lparr>reg_count = MIPS32_REG_COUNT, reg_width = MIPS32_REG_WIDTH,
      role_map = MIPS32_CPU_REG_ROLE_MAP,
      reg_root =
       [mips32_reg 0 REG_PRESERVE, mips32_reg 1 REG_TEMP, mips32_reg 2 REG_RETURN, mips32_reg 3 REG_RETURN,
        mips32_reg 4 REG_STACK, mips32_reg 5 REG_STACK, mips32_reg 6 REG_STACK, mips32_reg 7 REG_STACK,
        mips32_reg 8 REG_TEMP, mips32_reg 9 REG_TEMP, mips32_reg 10 REG_TEMP, mips32_reg 11 REG_TEMP,
        mips32_reg 12 REG_TEMP, mips32_reg 13 REG_TEMP, mips32_reg 14 REG_TEMP, mips32_reg 15 REG_TEMP,
        mips32_reg 16 REG_PRESERVE, mips32_reg 17 REG_PRESERVE, mips32_reg 18 REG_PRESERVE, mips32_reg 19 REG_PRESERVE,
        mips32_reg 20 REG_PRESERVE, mips32_reg 21 REG_PRESERVE, mips32_reg 22 REG_PRESERVE, mips32_reg 23 REG_PRESERVE,
        mips32_reg 24 REG_TEMP, mips32_reg 25 REG_TEMP, mips32_reg 26 REG_PRESERVE, mips32_reg 27 REG_PRESERVE,
        mips32_reg 28 REG_FRAME_PTR, mips32_reg 29 REG_STACK_PTR, mips32_reg 30 REG_MEM_PTR, mips32_reg 31 REG_RETURN]\<rparr>"

section \<open>Translation to IR (mips32_op_tables.c, mips32_ir.c)\<close>

definition MIPS32_TO_IR_TABLE :: "u32 \<Rightarrow> u16" where
  "MIPS32_TO_IR_TABLE f =
    (if f = 0x20 then ir_opcode_val IR_ADD_I32
     else if f = 0x25 then ir_opcode_val IR_OR_I32
     else if f = 0x24 then ir_opcode_val IR_AND_I32
     else if f = 0x22 then ir_opcode_val IR_SUB_I32
     else ir_opcode_val IR_INVALID_OPCODE)"

definition reg_ir_operand :: "u32 \<Rightarrow> ir_operand" where
  "reg_ir_operand r = \<lparr>kind = IR_OP_REG, op_id = ucast r\<rparr>"

text \<open>Immediate and jump instructions stop the program with a failed assertion.\<close>

definition mips32_raw_to_ir :: "u32 \<Rightarrow> ir_raw_instr option \<Rightarrow> (axres \<times> ir_raw_instr option) res" where
  "mips32_raw_to_ir instr buf =
    (case buf of None \<Rightarrow> Inr (AX_INV_BUF, None)
     | Some b \<Rightarrow>
       (case mips32_get_instr_type instr of
          MIPS_R \<Rightarrow> Inr (AX_SUCC, Some (b\<lparr>
            opcode := MIPS32_TO_IR_TABLE (mips32_funct instr),
            opset := (opset b)\<lparr>
              ops := (ops (opset b))[0 := reg_ir_operand (mips32_rd instr),
                       1 := reg_ir_operand (mips32_rs instr),
                       2 := reg_ir_operand (mips32_rt instr)],
              ops_count := 3\<rparr>\<rparr>))
        | MIPS_I \<Rightarrow> Inl Assert_Fail
        | MIPS_J \<Rightarrow> Inl Assert_Fail))"

definition mips32_to_ir ::
  "mte_raw_instr option \<Rightarrow> bool \<Rightarrow> u8 option \<Rightarrow> (ir_raw_instr \<times> u8 option) res" where
  "mips32_to_ir raw_instr ctx_present len =
    (case raw_instr of None \<Rightarrow> Inr (ir_raw_instr_zero, len)
     | Some raw \<Rightarrow>
       (if \<not> ctx_present then Inr (ir_raw_instr_zero, len)
        else if len = None then Inr (ir_raw_instr_zero, len)
        else and_then (mips32_raw_to_ir (le32 (payload raw)) (Some ir_raw_instr_zero))
          (\<lambda>(r, buf). (if r \<noteq> AX_SUCC then Inr (ir_raw_instr_zero, len)
                       else Inr (the buf, Some 4)))))"

definition mips32_reg_fetch ::
  "mte_raw_instr option \<Rightarrow> bool \<Rightarrow> u8 option \<Rightarrow> (ir_operand_set \<times> u8 option) res" where
  "mips32_reg_fetch raw_instr ctx_present len =
    (if len = None then Inr (ir_operand_set_zero, len)
     else
      (case raw_instr of None \<Rightarrow> Inl Null_Deref
       | Some raw \<Rightarrow>
         (let instr = le32 (payload raw) in
          (case mips32_get_instr_type instr of
             MIPS_R \<Rightarrow>
               (if mips32_funct instr = 0 then Inr (ir_operand_set_zero, Some 4)
                else Inr (ir_operand_set_zero\<lparr>
                  ops := (ops ir_operand_set_zero)[0 := reg_ir_operand (mips32_rd instr),
                           1 := reg_ir_operand (mips32_rs instr),
                           2 := reg_ir_operand (mips32_rt instr)],
                  ops_count := 3\<rparr>, Some 4))
           | MIPS_I \<Rightarrow> Inr (ir_operand_set_zero, Some 4)
           | MIPS_J \<Rightarrow> Inr (ir_operand_set_zero, Some 4)))))"

section \<open>Assembling and decoding\<close>

text \<open>The reference encoding of a register instruction of the architecture.\<close>

definition mips32_r_word :: "u32 \<Rightarrow> u32 \<Rightarrow> u32 \<Rightarrow> u32 \<Rightarrow> u32 \<Rightarrow> u32" where
  "mips32_r_word rs rt rd shamt funct =
     push_bit 21 rs OR push_bit 16 rt OR push_bit 11 rd OR push_bit 6 shamt OR funct"

lemma u32_field_masks: "(0x1f :: u32) = mask 5" "(0x3f :: u32) = mask 6"
  by (simp_all add: mask_eq_exp_minus_1)

lemma not_bit_beyond:
  fixes w :: u32
  assumes "w < 2 ^ k" "k \<le> n" "k = 5 \<or> k = 6"
  shows "\<not> bit w n"
proof -
  have "uint w < 2 ^ k"
    using assms(1,3) by (elim disjE) (simp_all add: word_less_def)
  then have "take_bit k (uint w) = uint w" by (simp add: take_bit_int_eq_self)
  then have "bit (uint w) n \<longleftrightarrow> bit (take_bit k (uint w)) n" by simp
  with assms(2) show ?thesis by (auto simp: bit_take_bit_iff bit_uint_iff dest: bit_imp_le_length)
qed

lemma mips32_r_word_fields:
  assumes "rs < 2 ^ 5" "rt < 2 ^ 5" "rd < 2 ^ 5" "sh < 2 ^ 5" "f < 2 ^ 6"
  defines "w \<equiv> mips32_r_word rs rt rd sh f"
  shows "mips32_opcode w = 0" "mips32_rs w = rs" "mips32_rt w = rt" "mips32_rd w = rd"
    "mips32_funct w = f"
proof -
  note nb = not_bit_beyond [OF assms(1)] not_bit_beyond [OF assms(2)] not_bit_beyond [OF assms(3)]
    not_bit_beyond [OF assms(4)] not_bit_beyond [OF assms(5)]
  note defs = w_def mips32_r_word_def mips32_opcode_def mips32_rs_def mips32_rt_def mips32_rd_def
    mips32_funct_def MIPS32_RD_SHIFT_def MIPS32_RS_SHIFT_def MIPS32_RT_SHIFT_def
    MIPS32_OPCODE_SHIFT_def u32_field_masks
  have small: "bit rs n \<Longrightarrow> n < 5" "bit rt n \<Longrightarrow> n < 5" "bit rd n \<Longrightarrow> n < 5" "bit sh n \<Longrightarrow> n < 5"
    "bit f n \<Longrightarrow> n < 6" for n
    using nb [of n] by (simp_all add: not_le [symmetric]) (metis not_le)+
  show "mips32_opcode w = 0" "mips32_rs w = rs" "mips32_rt w = rt" "mips32_rd w = rd"
    "mips32_funct w = f"
    unfolding defs by (rule bit_word_eqI, fastforce simp: bit_simps dest: small)+
qed

text \<open>A register instruction assembled from its fields is classified as one and its operand and
  function fields are read back.
\<close>

theorem mips32_fields_roundtrip:
  assumes "rs < 2 ^ 5" "rt < 2 ^ 5" "rd < 2 ^ 5" "sh < 2 ^ 5" "f < 2 ^ 6"
  shows "mips32_get_instr_type (mips32_r_word rs rt rd sh f) = MIPS_R \<and>
    mips32_rs (mips32_r_word rs rt rd sh f) = rs \<and> mips32_rt (mips32_r_word rs rt rd sh f) = rt \<and>
    mips32_rd (mips32_r_word rs rt rd sh f) = rd \<and> mips32_funct (mips32_r_word rs rt rd sh f) = f"
  using mips32_r_word_fields [OF assms] by (simp add: mips32_get_instr_type_def)

theorem mips32_fields_roundtrip_witness:
  "mips32_rs 0x012A4820 = 9 \<and> mips32_rt 0x012A4820 = 10 \<and> mips32_rd 0x012A4820 = 9 \<and> mips32_funct 0x012A4820 = 0x20"
  using mips32_fields_roundtrip [where rs = 9 and rt = 10 and rd = 9 and sh = 0 and f = "0x20"] by (simp add: mips32_r_word_def)

text \<open>The shift amount of an instruction is not read back: its macro shifts by 0 and returns the
  low bits of the function field.
\<close>

theorem mips32_shamt_reads_funct:
  assumes "rs < 2 ^ 5" "rt < 2 ^ 5" "rd < 2 ^ 5" "sh < 2 ^ 5" "f < 2 ^ 6"
  shows "mips32_shamt (mips32_r_word rs rt rd sh f) = f AND 0x1f"
proof -
  have "mips32_shamt w = mips32_funct w AND 0x1f" for w
    unfolding mips32_shamt_def mips32_funct_def MIPS32_SHAMT_SHIFT_def u32_field_masks
    by (rule bit_word_eqI) (auto simp: bit_simps)
  with mips32_r_word_fields(5) [OF assms] show ?thesis by simp
qed

theorem mips32_shamt_reads_funct_witness:
  "mips32_shamt (mips32_r_word 0 2 1 4 0x20) = 0"
  using mips32_shamt_reads_funct [where rs = 0 and rt = 2 and rd = 1 and sh = 4 and f = "0x20"] by simp

text \<open>The IR instruction of a register instruction.\<close>

definition r_type_ir :: "u32 \<Rightarrow> ir_raw_instr" where
  "r_type_ir w =
    \<lparr>opcode = MIPS32_TO_IR_TABLE (mips32_funct w),
     opset = \<lparr>ops = [reg_ir_operand (mips32_rd w), reg_ir_operand (mips32_rs w), reg_ir_operand (mips32_rt w),
        ir_operand_zero, ir_operand_zero, ir_operand_zero], ops_count = 3\<rparr>\<rparr>"

text \<open>
  \<^verbatim>\<open>mips32_to_ir\<close> on every input: a null pointer gives the zero instruction and leaves the length
  alone; a register instruction gives its operation and its three registers with length 4; every
  other instruction stops the program.
\<close>

theorem mips32_to_ir_result:
  "mips32_to_ir raw ctx len =
    (case raw of None \<Rightarrow> Inr (ir_raw_instr_zero, len)
     | Some r \<Rightarrow>
       if ctx \<and> len \<noteq> None then
         (if mips32_get_instr_type (le32 (payload r)) = MIPS_R
          then Inr (r_type_ir (le32 (payload r)), Some 4) else Inl Assert_Fail)
       else Inr (ir_raw_instr_zero, len))"
  by (cases "mips32_get_instr_type (le32 (payload (the raw)))")
    (auto simp: mips32_to_ir_def mips32_raw_to_ir_def r_type_ir_def ir_raw_instr_zero_def
      ir_operand_set_zero_def eval_nat_numeral split: option.splits)

text \<open>
  The registers the liveness scan is told about are the operands of the IR instruction, for every
  register instruction whose function field is not 0; for the others it is told none. Neither call
  ever reports another length than 4.
\<close>

theorem mips32_reg_fetch_operands:
  "mips32_reg_fetch (Some raw) ctx (Some l) =
    Inr (if mips32_get_instr_type (le32 (payload raw)) = MIPS_R \<and> mips32_funct (le32 (payload raw)) \<noteq> 0
         then opset (r_type_ir (le32 (payload raw))) else ir_operand_set_zero, Some 4)"
  by (cases "mips32_get_instr_type (le32 (payload raw))")
    (simp_all add: mips32_reg_fetch_def Let_def r_type_ir_def ir_operand_set_zero_def eval_nat_numeral)

end
