(* ===== verification/Reg_Maps.thy ===== *)
theory Reg_Maps
  imports Asm_Fix I64_Instr MIPS32
begin

text \<open>
  The register maps of the two machines (\<^verbatim>\<open>i64_cpu.c\<close>, \<^verbatim>\<open>mips32_cpu.c\<close>): their consistency, and the
  Intel 64 map as a provider of host registers.
\<close>

lemma i64_reg_root_length [simp]: "length (reg_root I64_CPU_REG_MAP) = 16"
  by (simp add: I64_CPU_REG_MAP_def)

lemma i64_reg_map_wf: "reg_map_wf I64_CPU_REG_MAP"
  by code_simp

lemma mips_reg_root_length [simp]: "length (reg_root MIPS32_CPU_REG_MAP) = 32"
  by (simp add: MIPS32_CPU_REG_MAP_def)

lemma mips_reg_ids_wf: "reg_ids_wf MIPS32_CPU_REG_MAP"
  by code_simp

lemma mips_role_masks:
  "role_mask_wf MIPS32_CPU_REG_MAP r \<longleftrightarrow> r \<noteq> REG_TEMP"
proof -
  have "list_all (\<lambda>r. role_mask_wf MIPS32_CPU_REG_MAP r \<longleftrightarrow> r \<noteq> REG_TEMP) all_roles"
    by code_simp
  then show ?thesis by (cases r) (simp_all add: all_roles_def)
qed

interpretation i64_alloc: reg_allocator "alloc_spec I64_CPU_REG_MAP" 16
  using alloc_spec_allocator [OF i64_reg_map_wf] by simp

text \<open>Filling for the Intel 64 host.\<close>

lemmas i64_fill_operand_spec = fill_operand_spec [OF i64_reg_map_wf, simplified]
lemmas i64_fill_loop_frame = fill_loop_frame [OF i64_reg_map_wf, simplified]
lemmas i64_fill_loop_complete = fill_loop_complete [OF i64_reg_map_wf, simplified]

end
