(* ===== verification/I64_Emit.thy ===== *)
theory I64_Emit
  imports I64_Instr
begin

text \<open>
  The Intel 64 instruction emitter (\<^verbatim>\<open>asm/intel/emitter\<close>): the operand summary, the prefix,
  ModRM and SIB resolvers, and \<^verbatim>\<open>i64_emit_64\<close>, which lays the parts out and squeezes the
  absent ones away. Bit positions of the summary are those documented at
  \<^verbatim>\<open>struct i64_operand_sum\<close>. A pointer argument that the code compares with \<^verbatim>\<open>nullptr\<close> is an
  \<open>option\<close>.
\<close>

section \<open>Operand summary (i64_emit_info.h, i64_sum_calc)\<close>

record i64_operand_sum =
  sib_i :: u8
  sum_width :: u8
  sum_operand :: u8

definition i64_operand_sum_zero :: i64_operand_sum where
  "i64_operand_sum_zero = \<lparr>sib_i = 0, sum_width = 0, sum_operand = 0\<rparr>"

text \<open>The locals \<^verbatim>\<open>w0\<close>, \<^verbatim>\<open>w1\<close>, \<^verbatim>\<open>w2\<close>, \<^verbatim>\<open>o0\<close> and \<^verbatim>\<open>sum.sib_i\<close> that the operand loop updates.\<close>

record sum_acc =
  w0 :: u8
  w1 :: u8
  w2 :: u8
  o0 :: u8
  acc_sib_i :: u8

definition sum_step :: "nat \<Rightarrow> i64_operand \<Rightarrow> sum_acc \<Rightarrow> sum_acc" where
  "sum_step i opr a =
    (let ii = oid opr; ti = od_type (desc opr); wi = od_width (desc opr);
         w0m0 = mask_of (ti AND I64_DISP8 = I64_DISP8);
         w0m1 = mask_of (ti AND I64_DISP32 = I64_DISP32);
         w2m0 = mask_of (ti AND I64_MEM = I64_MEM);
         w2m1 = mask_of (wi = W32);
         o0m0 = mask_of (ti AND I64_SIB = I64_SIB);
         o0m1 = mask_of (ii AND I64_OP_EXT = I64_OP_EXT);
         o0m2 = mask_of (ti AND I64_SIB = I64_SIB);
         o0m3 = mask_of (ti AND I64_MEM = I64_MEM);
         w0' = w0 a AND (NOT (BIT 3) OR push_bit 3 (of_bool (wi = W64 \<or> ti AND I64_MEM \<noteq> 0)));
         o0' = o0 a OR (o0m2 AND BIT 4);
         w1' = w1 a OR of_bool (wi = W16);
         o0'' = o0' OR (o0m0 AND o0m1 AND BIT 5);
         w2' = w2 a OR (w2m0 AND w2m1 AND BIT 4);
         w0'' = w0' OR (w0m1 AND BIT 6);
         o0''' = o0'' OR (o0m3 AND BIT 6);
         w0''' = w0'' OR (w0m0 AND BIT 5)
     in \<lparr>w0 = w0''', w1 = w1', w2 = w2', o0 = o0''',
         acc_sib_i = (if o0''' AND BIT 4 \<noteq> 0 then of_nat i else acc_sib_i a)\<rparr>)"

fun sum_loop :: "nat \<Rightarrow> i64_operand list \<Rightarrow> sum_acc \<Rightarrow> sum_acc" where
  "sum_loop i [] a = a"
| "sum_loop i (opr # oprs) a = sum_loop (Suc i) oprs (sum_step i opr a)"

definition operand_em :: "i64_operand \<Rightarrow> u8" where
  "operand_em t =
     push_bit 1 (of_bool (oid t AND I64_OP_EXT \<noteq> 0)) OR (od_type (desc t) AND I64_MEM)"

text \<open>
  The local \<^verbatim>\<open>sib_i\<close> is never assigned after its initialisation; the last statement copies
  it over the index the loop computed.
\<close>

definition i64_sum_calc :: "i64_opcode_desc \<Rightarrow> i64_operand list option \<Rightarrow> i64_operand_sum" where
  "i64_sum_calc d oprs_opt =
    (case oprs_opt of None \<Rightarrow> i64_operand_sum_zero | Some oprs \<Rightarrow>
      (let t0 = oprs ! 0; t1 = oprs ! 1; sib_i = 0;
           t0_em = operand_em t0; t1_em = operand_em t1;
           swap = i64_opcode_form_val (od_form d) AND 8;
           dest = (if swap \<noteq> 0 then t1_em else t0_em);
           src = (if swap \<noteq> 0 then t0_em else t1_em);
           a = sum_loop 0 (take (unat (od_count d)) oprs)
                 \<lparr>w0 = push_bit 3 1, w1 = 0, w2 = 0, o0 = push_bit 4 swap, acc_sib_i = 0\<rparr>;
           dest_mem = dest AND BIT 0 \<noteq> 0; src_mem = src AND BIT 0 \<noteq> 0;
           dest_ext = dest AND BIT 1 \<noteq> 0; src_ext = src AND BIT 1 \<noteq> 0;
           o1 = push_bit 3 (of_bool (dest_ext \<and> \<not> dest_mem));
           o2 = push_bit 1 (of_bool (src_ext \<and> \<not> src_mem));
           o1' = o1 OR push_bit 2 (of_bool (dest_ext \<and> dest_mem));
           o2' = o2 OR of_bool (src_ext \<and> src_mem)
       in \<lparr>sib_i = sib_i, sum_width = w0 a OR w1 a OR w2 a, sum_operand = o0 a OR o1' OR o2'\<rparr>))"

section \<open>Resolvers\<close>

definition i64_leg_resolve :: "i64_operand_sum \<Rightarrow> u8" where
  "i64_leg_resolve s =
    (let mask = push_bit 1 (of_bool (sum_width s AND BIT 4 \<noteq> 0))
                OR of_bool (sum_width s AND BIT 0 \<noteq> 0) :: u8
     in if mask = 2 then 0x67 else if mask = 1 then 0x66 else 0)"

definition I64_REX_LABEL :: u8 where "I64_REX_LABEL = 4"

definition i64_rex_resolve :: "i64_operand_sum \<Rightarrow> u8" where
  "i64_rex_resolve s =
    (let flip = sum_operand s AND BIT 7 \<noteq> 0;
         dest = of_bool (sum_operand s AND BIT 3 \<noteq> 0 \<or> sum_operand s AND BIT 2 \<noteq> 0) :: u8;
         src = of_bool (sum_operand s AND BIT 1 \<noteq> 0 \<or> sum_operand s AND BIT 0 \<noteq> 0) :: u8;
         is_64bit = push_bit 3 (of_bool (sum_width s AND BIT 3 \<noteq> 0));
         src_r = push_bit 2 (if flip then src else dest);
         sib_ext = push_bit 1 (of_bool (sum_operand s AND BIT 5 \<noteq> 0));
         dest_rm = (if flip then dest else src);
         rex = push_bit 4 I64_REX_LABEL OR is_64bit OR src_r OR sib_ext OR dest_rm
     in if rex = 0x40 then 0 else rex)"

definition i64_modrm_resolve :: "u8 \<Rightarrow> u8 \<Rightarrow> i64_operand_sum \<Rightarrow> u8" where
  "i64_modrm_resolve dest src s =
    (let mod_i = push_bit 3 (of_bool (sum_width s AND BIT 6 \<noteq> 0))
                 OR push_bit 2 (of_bool (sum_width s AND BIT 5 \<noteq> 0))
                 OR push_bit 1 (of_bool (sum_operand s AND BIT 4 \<noteq> 0))
                 OR of_bool (sum_operand s AND BIT 6 \<noteq> 0) :: u8;
         flip = sum_operand s AND BIT 7 \<noteq> 0;
         dest_flip = (if flip then dest else src);
         src_flip = (if flip then src else dest);
         mod_magic = 0x00884403 :: u32;
         calc = ucast (drop_bit (unat (push_bit 1 mod_i)) mod_magic AND 3) :: u8;
         rm = (if mod_i AND BIT 1 \<noteq> 0 then 4 else dest_flip AND 7)
     in push_bit 6 calc OR push_bit 3 (src_flip AND 7) OR rm)"

definition i64_sib_resolve :: "u8 \<Rightarrow> i64_operand_mem \<Rightarrow> i64_operand_sum \<Rightarrow> u8" where
  "i64_sib_resolve base_id mem s =
    (if sum_operand s AND BIT 4 = 0 then 0
     else
      (let sib_index = push_bit 3 (index_id mem AND 7);
           sib_base = base_id AND 7;
           sib_magic = 0xe4 :: u8;
           sib_scale = push_bit 6 (drop_bit (unat (push_bit 1 (scale_id mem AND 3))) sib_magic)
       in (sib_index OR sib_base) OR sib_scale))"

section \<open>Emission (i64_emit_64)\<close>

text \<open>
  The last loop of \<^verbatim>\<open>i64_emit_64\<close>: the parts are visited from index 15 down to 0, each is
  stored at the current position (0 for an absent one), and only a present one advances it. Every
  store is a checked one: a position behind the end of the buffer is the fault
  \<open>Out_Of_Bounds\<close>.
\<close>

fun squeeze :: "(bool \<times> u8) list \<Rightarrow> nat \<Rightarrow> u8 list \<Rightarrow> (nat \<times> u8 list) res" where
  "squeeze [] n buf = Inr (n, buf)"
| "squeeze ((present, hold) # ps) n buf =
     and_then (arr_set buf n (if present then hold else 0))
       (\<lambda>buf'. squeeze ps (if present then Suc n else n) buf')"

text \<open>
  The arrays \<^verbatim>\<open>present\<close> and \<^verbatim>\<open>hold\<close> for a summary of the operands, from index 15 down to index 0.
\<close>

definition parts_of_sum :: "u64 \<Rightarrow> i64_opcode_desc \<Rightarrow> i64_operand list \<Rightarrow> i64_operand_sum \<Rightarrow> (bool \<times> u8) list" where
  "parts_of_sum opc d oprs s =
    (let opcode_p0 = ucast (drop_bit 16 opc AND 0xff) :: u8;
         opcode_p1 = ucast (drop_bit 8 opc AND 0xff) :: u8;
         opcode_p2 = ucast (opc AND 0xff) :: u8;
         rex_is_set = mask_of (od_flags d AND FLAG_REX \<noteq> 0);
         leg_is_set = mask_of (od_flags d AND FLAG_LEGACY \<noteq> 0);
         modrm_is_set = mask_of (od_flags d AND FLAG_MODRM \<noteq> 0);
         rex = i64_rex_resolve s AND rex_is_set;
         sib_op = oprs ! unat (sib_i s);
         sib_mem = i64_operand_mem_of (val sib_op);
         leg = i64_leg_resolve s AND leg_is_set;
         modrm = i64_modrm_resolve (oid (oprs ! 0)) (oid (oprs ! 1)) s AND modrm_is_set;
         sib = i64_sib_resolve (oid sib_op) sib_mem s;
         disp_mode = drop_bit 5 (sum_width s) AND 3
     in [(False, 0), (False, 0), (False, 0), (False, 0),
         (False, 0),
         (leg \<noteq> 0, leg),
         (rex \<noteq> 0, rex),
         (opcode_p0 \<noteq> 0, opcode_p0),
         (opcode_p1 \<noteq> 0, opcode_p1),
         (True, opcode_p2),
         (modrm \<noteq> 0, modrm),
         (sib \<noteq> 0, sib),
         (disp_mode AND 3 \<noteq> 0, ucast (disp sib_mem AND 0xff)),
         (disp_mode AND 2 \<noteq> 0, ucast (drop_bit 8 (disp sib_mem) AND 0xff)),
         (disp_mode AND 2 \<noteq> 0, ucast (drop_bit 16 (disp sib_mem) AND 0xff)),
         (disp_mode AND 2 \<noteq> 0, ucast (drop_bit 24 (disp sib_mem) AND 0xff))])"

definition emit_parts :: "u64 \<Rightarrow> i64_opcode_desc \<Rightarrow> i64_operand list \<Rightarrow> (bool \<times> u8) list" where
  "emit_parts opc d oprs = parts_of_sum opc d oprs (i64_sum_calc d (Some oprs))"

definition i64_emit_64 ::
  "i64_opcode \<Rightarrow> i64_operand list option \<Rightarrow> u8 list option \<Rightarrow> u8 option
     \<Rightarrow> (axres \<times> u8 list option \<times> u8 option) res" where
  "i64_emit_64 opc oprs_opt buf_opt buf_len =
    (case oprs_opt of None \<Rightarrow> Inr (AX_INV_ARG, buf_opt, buf_len)
     | Some oprs \<Rightarrow>
       (case buf_opt of None \<Rightarrow> Inr (AX_INV_BUF, None, buf_len)
        | Some buf \<Rightarrow>
          and_then (i64_lookup_opcode_meta opc) (\<lambda>d.
            and_then (squeeze (emit_parts (i64_opcode_val opc) d oprs) 0 buf) (\<lambda>(n, buf').
              Inr (AX_SUCC, Some buf', map_option (\<lambda>_. of_nat n) buf_len)))))"

section \<open>Lemmas\<close>

definition part_bytes :: "(bool \<times> u8) list \<Rightarrow> u8 list" where
  "part_bytes ps = map snd (filter fst ps)"

lemma part_bytes_simps [simp]:
  "part_bytes [] = []"
  "part_bytes ((True, h) # ps) = h # part_bytes ps"
  "part_bytes ((False, h) # ps) = part_bytes ps"
  by (simp_all add: part_bytes_def)

lemma part_bytes_Cons: "part_bytes ((p, h) # ps) = (if p then h # part_bytes ps else part_bytes ps)"
  by simp

declare part_bytes_simps(1) [code] part_bytes_Cons [code]

lemma length_part_bytes: "length (part_bytes ps) \<le> length ps"
  by (simp add: part_bytes_def)

text \<open>
  What the loop leaves, exactly: the sequence of the present parts, followed by one zero byte when
  the last part is absent; everything behind is as before. The number of cells it stores to decides
  whether it stays inside the buffer.
\<close>

definition squeeze_need :: "(bool \<times> u8) list \<Rightarrow> nat" where
  "squeeze_need ps = length (part_bytes ps) + of_bool (\<not> fst (last ps))"

definition squeeze_image :: "(bool \<times> u8) list \<Rightarrow> u8 list" where
  "squeeze_image ps = part_bytes ps @ (if fst (last ps) then [] else [0])"

lemma length_squeeze_image: "length (squeeze_image ps) = squeeze_need ps"
  by (simp add: squeeze_image_def squeeze_need_def)

lemma squeeze_image_Cons:
  assumes "ps \<noteq> []"
  shows "squeeze_image ((p, h) # ps) = (if p then h # squeeze_image ps else squeeze_image ps)"
  using assms by (simp add: squeeze_image_def)

lemma squeeze_image_pos:
  assumes "ps \<noteq> []" shows "squeeze_image ps \<noteq> []"
  using assms
proof (induction ps)
  case (Cons p ps)
  then show ?case by (cases p; cases "ps = []")
    (auto simp: squeeze_image_def part_bytes_Cons split: if_splits)
qed simp

lemma squeeze_exact:
  assumes "ps \<noteq> []" and "n \<le> length buf"
  shows "squeeze ps n buf =
    (if n + squeeze_need ps \<le> length buf
     then Inr (n + length (part_bytes ps), take n buf @ squeeze_image ps @ drop (n + squeeze_need ps) buf)
     else Inl Out_Of_Bounds)"
  using assms
proof (induction ps n buf rule: squeeze.induct)
  case (1 n buf)
  then show ?case by simp
next
  case (2 p h ps n buf)
  show ?case
  proof (cases "ps = []")
    case True
    with 2 show ?thesis
      by (auto simp: arr_set_def squeeze_need_def squeeze_image_def upd_conv_take_nth_drop)
  next
    case False
    note image = squeeze_image_Cons [OF False]
    have pos: "0 < length (squeeze_image ps)" using squeeze_image_pos [OF False] by simp
    have need: "squeeze_need ((p, h) # ps) = (if p then Suc (squeeze_need ps) else squeeze_need ps)"
      by (simp flip: length_squeeze_image add: image)
    show ?thesis
    proof (cases "n < length buf")
      case True
      with 2(1) [OF False] pos show ?thesis
        by (auto simp: image need take_Suc_conv_app_nth length_squeeze_image)
    next
      case over: False
      with 2(3) pos show ?thesis by (simp add: arr_set_def need length_squeeze_image)
    qed
  qed
qed

lemma length_emit_parts [simp]: "length (emit_parts opc d oprs) = 16"
  by (simp add: emit_parts_def parts_of_sum_def Let_def)

lemma emit_parts_not_Nil [simp]: "emit_parts opc d oprs \<noteq> []"
  by (simp add: emit_parts_def parts_of_sum_def Let_def)

text \<open>Eleven cells are enough for every list of parts.\<close>

lemma emit_parts_need: "squeeze_need (emit_parts opc d oprs) \<le> 11"
  by (simp add: squeeze_need_def emit_parts_def parts_of_sum_def Let_def part_bytes_def)

text \<open>Emission in terms of the byte sequence of its parts, on a buffer of any length.\<close>

lemma i64_emit_64_exact:
  assumes "i64_lookup_opcode_meta opc = Inr d"
  shows "i64_emit_64 opc (Some oprs) (Some buf) l =
    (let ps = emit_parts (i64_opcode_val opc) d oprs in
     if squeeze_need ps \<le> length buf
     then Inr (AX_SUCC, Some (squeeze_image ps @ drop (squeeze_need ps) buf),
       map_option (\<lambda>_. of_nat (length (part_bytes ps))) l)
     else Inl Out_Of_Bounds)"
  using assms squeeze_exact [of "emit_parts (i64_opcode_val opc) d oprs" 0 buf]
  by (simp add: i64_emit_64_def Let_def)

lemma i64_emit_64_bytes:
  assumes "i64_lookup_opcode_meta opc = Inr d" and "16 \<le> length buf"
  obtains buf' where
    "i64_emit_64 opc (Some oprs) (Some buf) (Some l) =
       Inr (AX_SUCC, Some buf', Some (of_nat (length (part_bytes (emit_parts (i64_opcode_val opc) d oprs)))))"
    and "length buf' = length buf"
    and "take (length (part_bytes (emit_parts (i64_opcode_val opc) d oprs))) buf' =
       part_bytes (emit_parts (i64_opcode_val opc) d oprs)"
proof -
  let ?ps = "emit_parts (i64_opcode_val opc) d oprs"
  have "squeeze_need ?ps \<le> length buf"
    using emit_parts_need [of "i64_opcode_val opc" d oprs] assms(2) by linarith
  moreover have "length (part_bytes ?ps) \<le> squeeze_need ?ps" by (simp add: squeeze_need_def)
  ultimately show ?thesis
    using that [of "squeeze_image ?ps @ drop (squeeze_need ?ps) buf"]
    by (simp add: i64_emit_64_exact [OF assms(1)] Let_def length_squeeze_image)
      (simp add: squeeze_image_def)
qed

end
