(* ===== verification/X86_Spec.thy ===== *)
theory X86_Spec
  imports Prelude
begin

text \<open>
  The reference the emitter is measured against: decoding and execution of the Intel 64
  instructions in the emitter's repertoire, after the architecture manual (legacy prefixes
  \<^verbatim>\<open>66\<close> and \<^verbatim>\<open>67\<close>, REX, a one-byte opcode, ModRM, SIB, displacement). Nothing here models code
  of the repository.
\<close>

section \<open>Instructions\<close>

datatype x86_alu = X_ADD | X_OR | X_AND | X_SUB | X_MOV

datatype x86_rm =
    XReg nat
  | XMem "nat option" "(nat \<times> nat) option" u32 bool

text \<open>
  \<open>XMem base index disp a32\<close>: an optional base register, an optional index register with
  its scale exponent, a sign-extended 32-bit displacement, and 32-bit addressing.
  \<open>x_to_rm\<close> tells whether the ModRM operand is the destination.
\<close>

record x86_instr =
  x_alu :: x86_alu
  x_size :: nat
  x_to_rm :: bool
  x_reg :: nat
  x_rm :: x86_rm

section \<open>Decoding\<close>

definition x86_alu_of :: "u8 \<Rightarrow> x86_alu option" where
  "x86_alu_of b =
    (if b AND 0xfc = 0x00 then Some X_ADD
     else if b AND 0xfc = 0x08 then Some X_OR
     else if b AND 0xfc = 0x20 then Some X_AND
     else if b AND 0xfc = 0x28 then Some X_SUB
     else if b AND 0xfc = 0x88 then Some X_MOV
     else None)"

definition modrm_mod :: "u8 \<Rightarrow> nat" where "modrm_mod m = unat (drop_bit 6 m)"
definition modrm_reg :: "u8 \<Rightarrow> nat" where "modrm_reg m = unat (drop_bit 3 m AND 7)"
definition modrm_rm :: "u8 \<Rightarrow> nat" where "modrm_rm m = unat (m AND 7)"

definition rex_ext :: "u8 \<Rightarrow> nat \<Rightarrow> nat" where
  "rex_ext rex k = (if bit rex k then 8 else 0)"

definition take_disp8 :: "u8 list \<Rightarrow> (u32 \<times> u8 list) option" where
  "take_disp8 bs = (case bs of [] \<Rightarrow> None | b # r \<Rightarrow> Some (scast b, r))"

definition take_disp32 :: "u8 list \<Rightarrow> (u32 \<times> u8 list) option" where
  "take_disp32 bs = (if length bs < 4 then None else Some (le32 bs, drop 4 bs))"

definition take_disp :: "nat \<Rightarrow> u8 list \<Rightarrow> (u32 \<times> u8 list) option" where
  "take_disp md bs =
    (if md = 0 then Some (0, bs) else if md = 1 then take_disp8 bs else take_disp32 bs)"

text \<open>The ModRM operand; RIP-relative addressing (mod 0, r/m 5) is outside the repertoire.\<close>

definition x86_decode_rm :: "bool \<Rightarrow> u8 \<Rightarrow> u8 \<Rightarrow> u8 list \<Rightarrow> (x86_rm \<times> u8 list) option" where
  "x86_decode_rm a32 rex m bs =
    (let md = modrm_mod m in
     if md = 3 then Some (XReg (modrm_rm m + rex_ext rex 0), bs)
     else if modrm_rm m = 4 then
       (case bs of [] \<Rightarrow> None
        | s # bs' \<Rightarrow>
          (let index = modrm_reg s + rex_ext rex 1;
               idx = (if index = 4 then None else Some (index, modrm_mod s));
               no_base = (md = 0 \<and> modrm_rm s = 5);
               base = (if no_base then None else Some (modrm_rm s + rex_ext rex 0))
           in map_option (\<lambda>(dp, r). (XMem base idx dp a32, r))
                (if no_base then take_disp32 bs' else take_disp md bs')))
     else if md = 0 \<and> modrm_rm m = 5 then None
     else map_option (\<lambda>(dp, r). (XMem (Some (modrm_rm m + rex_ext rex 0)) None dp a32, r))
            (take_disp md bs))"

definition x86_decode_op :: "bool \<Rightarrow> bool \<Rightarrow> u8 \<Rightarrow> u8 list \<Rightarrow> (x86_instr \<times> u8 list) option" where
  "x86_decode_op o16 a32 rex bs =
    (case bs of
       opc # m # r \<Rightarrow>
         (case (x86_alu_of opc, x86_decode_rm a32 rex m r) of
            (Some alu, Some (rm, r')) \<Rightarrow>
              Some (\<lparr>x_alu = alu,
                     x_size = (if \<not> bit opc 0 then 8 else if bit rex 3 then 64
                               else if o16 then 16 else 32),
                     x_to_rm = (\<not> bit opc 1), x_reg = modrm_reg m + rex_ext rex 2, x_rm = rm\<rparr>, r')
          | _ \<Rightarrow> None)
     | _ \<Rightarrow> None)"

definition x86_decode_rex :: "bool \<Rightarrow> bool \<Rightarrow> u8 list \<Rightarrow> (x86_instr \<times> u8 list) option" where
  "x86_decode_rex o16 a32 bs =
    (case bs of [] \<Rightarrow> None
     | b # r \<Rightarrow> if b AND 0xf0 = 0x40 then x86_decode_op o16 a32 b r
                else x86_decode_op o16 a32 0 bs)"

fun x86_decode_pref :: "bool \<Rightarrow> bool \<Rightarrow> u8 list \<Rightarrow> (x86_instr \<times> u8 list) option" where
  "x86_decode_pref o16 a32 [] = None"
| "x86_decode_pref o16 a32 (b # r) =
    (if b = 0x66 then x86_decode_pref True a32 r
     else if b = 0x67 then x86_decode_pref o16 True r
     else x86_decode_rex o16 a32 (b # r))"

definition x86_decode :: "u8 list \<Rightarrow> (x86_instr \<times> u8 list) option" where
  "x86_decode = x86_decode_pref False False"

section \<open>Execution of register-to-register instructions\<close>

type_synonym x86_regs = "nat \<Rightarrow> u64"

fun x86_alu_fun :: "x86_alu \<Rightarrow> u64 \<Rightarrow> u64 \<Rightarrow> u64" where
  "x86_alu_fun X_ADD a b = a + b"
| "x86_alu_fun X_OR a b = a OR b"
| "x86_alu_fun X_AND a b = a AND b"
| "x86_alu_fun X_SUB a b = a - b"
| "x86_alu_fun X_MOV a b = b"

text \<open>
  A 64-bit instruction writes the whole register, a 32-bit one clears the upper half. The
  narrower sizes and memory operands are not executed here.
\<close>

definition x86_exec :: "x86_instr \<Rightarrow> x86_regs \<Rightarrow> x86_regs option" where
  "x86_exec i rs =
    (case x_rm i of
       XMem _ _ _ _ \<Rightarrow> None
     | XReg rm \<Rightarrow>
       (let dst = (if x_to_rm i then rm else x_reg i);
            src = (if x_to_rm i then x_reg i else rm);
            v = x86_alu_fun (x_alu i) (rs dst) (rs src)
        in if x_size i = 64 then Some (rs(dst := v))
           else if x_size i = 32 then Some (rs(dst := take_bit 32 v))
           else None))"

text \<open>Runs the instructions of a byte string to its end; \<open>None\<close> if one is not understood.\<close>

function (sequential) x86_run :: "u8 list \<Rightarrow> x86_regs \<Rightarrow> x86_regs option" where
  "x86_run [] rs = Some rs"
| "x86_run bs rs =
    (case x86_decode bs of None \<Rightarrow> None
     | Some (i, r) \<Rightarrow>
       (if length r < length bs then
          (case x86_exec i rs of None \<Rightarrow> None | Some rs' \<Rightarrow> x86_run r rs')
        else None))"
  by pat_completeness auto
termination by (relation "measure (\<lambda>(bs, rs). length bs)") auto

declare x86_run.simps(2) [simp del]

section \<open>Byte strings of register-to-register instructions\<close>

text \<open>The decoding of \<^verbatim>\<open>REX opcode ModRM\<close> with a register ModRM operand leaves what follows.\<close>

lemma x86_decode_rr:
  assumes "rex AND 0xf0 = 0x40" "rex \<noteq> 0x66" "rex \<noteq> 0x67"
    and "x86_alu_of opc = Some alu" "modrm_mod m = 3"
  shows "x86_decode (rex # opc # m # r) =
    Some (\<lparr>x_alu = alu, x_size = (if \<not> bit opc 0 then 8 else if bit rex 3 then 64 else 32),
           x_to_rm = (\<not> bit opc 1), x_reg = modrm_reg m + rex_ext rex 2,
           x_rm = XReg (modrm_rm m + rex_ext rex 0)\<rparr>, r)"
  using assms by (simp add: x86_decode_def x86_decode_rex_def x86_decode_op_def x86_decode_rm_def)

lemma x86_decode_take_disp_append:
  "take_disp md bs = Some (dp, r) \<Longrightarrow> take_disp md (bs @ cs) = Some (dp, r @ cs)"
  by (auto simp: take_disp_def take_disp8_def take_disp32_def le32_def nth_append
      split: if_splits list.splits)

lemma take_disp32_append:
  "take_disp32 bs = Some (dp, r) \<Longrightarrow> take_disp32 (bs @ cs) = Some (dp, r @ cs)"
  using x86_decode_take_disp_append [of 2] by (simp add: take_disp_def)

text \<open>Decoding reads a prefix of its input: more bytes behind it do not change the result.\<close>

lemma x86_decode_rm_append:
  "x86_decode_rm a32 rex m bs = Some (rm, r) \<Longrightarrow>
   x86_decode_rm a32 rex m (bs @ cs) = Some (rm, r @ cs)"
  by (auto simp: x86_decode_rm_def Let_def split: if_splits list.splits
      dest: take_disp32_append [where cs = cs] x86_decode_take_disp_append [where cs = cs])

lemma x86_decode_op_append:
  "x86_decode_op o16 a32 rex bs = Some (i, r) \<Longrightarrow>
   x86_decode_op o16 a32 rex (bs @ cs) = Some (i, r @ cs)"
  by (auto simp: x86_decode_op_def split: list.splits option.splits
      dest: x86_decode_rm_append [where cs = cs])

lemma x86_decode_pref_append:
  "x86_decode_pref o16 a32 bs = Some (i, r) \<Longrightarrow>
   x86_decode_pref o16 a32 (bs @ cs) = Some (i, r @ cs)"
proof (induction o16 a32 bs rule: x86_decode_pref.induct)
  case (1 o16 a32)
  then show ?case by simp
next
  case (2 o16 a32 b rest)
  show ?case
  proof (cases "b = 0x66 \<or> b = 0x67")
    case True
    with 2 show ?thesis by auto
  next
    case False
    with 2(3) show ?thesis
      by (auto simp: x86_decode_rex_def split: if_splits
          dest: x86_decode_op_append [where cs = cs])
  qed
qed

lemma x86_decode_append:
  "x86_decode bs = Some (i, r) \<Longrightarrow> x86_decode (bs @ cs) = Some (i, r @ cs)"
  by (simp add: x86_decode_def x86_decode_pref_append)

lemma x86_run_step:
  assumes "x86_decode bs = Some (i, [])" "bs \<noteq> []" "x86_exec i rs = Some rs'"
  shows "x86_run (bs @ cs) rs = x86_run cs rs'"
proof -
  from assms(1) have "x86_decode (bs @ cs) = Some (i, cs)"
    using x86_decode_append by fastforce
  moreover from assms(2) have "length cs < length (bs @ cs)" by simp
  ultimately show ?thesis
    using assms(2,3) by (cases "bs @ cs") (simp_all add: x86_run.simps(2))
qed

end
