(* ===== verification/I64_Encode.thy ===== *)
theory I64_Encode
  imports I64_Emit X86_Spec
begin

text \<open>
  The emitter against the reference decoder. For register operands the emitted bytes are a
  REX prefix, the opcode and a ModRM byte (\<open>emit_parts_rr\<close>). They decode to the requested
  registers for the forms whose first operand is the ModRM \<open>reg\<close> field; for the forms whose
  first operand is the \<open>r/m\<close> field the two extension bits of the prefix end up exchanged.
\<close>

section \<open>Register operands\<close>

definition reg_operand :: "nat \<Rightarrow> u8 \<Rightarrow> i64_operand" where
  "reg_operand r w =
     \<lparr>desc = \<lparr>od_type = I64_REG, od_width = w\<rparr>,
      oid = i64_operand_id_val (I64_REG_TO_OPERAND ! r), val = 0\<rparr>"

lemma all_less_16:
  "(\<forall>r < 16. P r) \<longleftrightarrow> P 0 \<and> P 1 \<and> P 2 \<and> P 3 \<and> P 4 \<and> P 5 \<and> P 6 \<and> P 7 \<and> P 8 \<and> P 9 \<and>
     P 10 \<and> P 11 \<and> P 12 \<and> P 13 \<and> P 14 \<and> P (15 :: nat)"
  by (simp add: All_less_Suc numeral_eq_Suc conj_ac)

lemma reg_oid_all:
  "\<forall>r < 16. (oid (reg_operand r w) AND I64_OP_EXT \<noteq> 0 \<longleftrightarrow> 8 \<le> r) \<and>
     (oid (reg_operand r w) AND I64_OP_EXT = I64_OP_EXT \<longleftrightarrow> 8 \<le> r) \<and>
     unat (oid (reg_operand r w) AND 7) + (if 8 \<le> r then 8 else 0) = r"
  unfolding all_less_16 by (simp add: reg_operand_def I64_REG_TO_OPERAND_def i64_eval nth_Cons')

lemma reg_oid:
  assumes "r < 16"
  shows reg_oid_ext: "oid (reg_operand r w) AND I64_OP_EXT \<noteq> 0 \<longleftrightarrow> 8 \<le> r"
    and reg_oid_ext': "oid (reg_operand r w) AND I64_OP_EXT = I64_OP_EXT \<longleftrightarrow> 8 \<le> r"
    and reg_oid_low: "unat (oid (reg_operand r w) AND 7) + (if 8 \<le> r then 8 else 0) = r"
  using reg_oid_all assms by blast+

lemma reg_operand_simps [simp]:
  "od_type (desc (reg_operand r w)) = I64_REG"
  "od_width (desc (reg_operand r w)) = w"
  "val (reg_operand r w) = 0"
  by (simp_all add: reg_operand_def)

text \<open>The entries of the metadata table whose operands are two 64-bit registers (or memory).\<close>

definition desc_rr64 :: "i64_opcode_desc \<Rightarrow> bool" where
  "desc_rr64 d \<longleftrightarrow> od_count d = 2 \<and> od_flags d AND FLAG_REX \<noteq> 0 \<and> od_flags d AND FLAG_MODRM \<noteq> 0 \<and>
     (od_form d = FORM_RM_R \<or> od_form d = FORM_R_RM) \<and>
     od_type (od_ops d ! 0) AND I64_REG = I64_REG \<and> od_width (od_ops d ! 0) = W64 \<and>
     od_type (od_ops d ! 1) AND I64_REG = I64_REG \<and> od_width (od_ops d ! 1) = W64"

section \<open>Fields of the ModRM byte\<close>

lemma byte_masks: "(7 :: u8) = mask 3" "(3 :: u8) = mask 2" "(0xc0 :: u8) = push_bit 6 (mask 2)"
  by (simp_all add: mask_eq_exp_minus_1)

lemma modrm_fields:
  fixes x y :: u8
  defines "m \<equiv> push_bit 6 3 OR push_bit 3 (y AND 7) OR (x AND 7)"
  shows "modrm_mod m = 3" "modrm_reg m = unat (y AND 7)" "modrm_rm m = unat (x AND 7)" "m \<noteq> 0"
proof -
  have "drop_bit 6 m = mask 2"
    unfolding m_def byte_masks by (rule bit_word_eqI) (auto simp: bit_simps)
  then show "modrm_mod m = 3" by (simp add: modrm_mod_def mask_eq_exp_minus_1)
  have "drop_bit 3 m AND 7 = y AND 7"
    unfolding m_def byte_masks by (rule bit_word_eqI) (auto simp: bit_simps)
  then show "modrm_reg m = unat (y AND 7)" by (simp add: modrm_reg_def)
  have "m AND 7 = x AND 7"
    unfolding m_def byte_masks by (rule bit_word_eqI) (auto simp: bit_simps)
  then show "modrm_rm m = unat (x AND 7)" by (simp add: modrm_rm_def)
  have "bit m 7" unfolding m_def byte_masks by (simp add: bit_simps)
  then show "m \<noteq> 0" by auto
qed

section \<open>Emission of register operands\<close>

text \<open>
  The summary of two register operands: width D is set and, of the operand bits, only the
  swap flag and the two register extension bits. \<open>e0\<close> and \<open>e1\<close> tell whether the first and
  the second operand are extended registers.
\<close>

definition rr_operand_bits :: "bool \<Rightarrow> bool \<Rightarrow> bool \<Rightarrow> u8" where
  "rr_operand_bits swap e0 e1 =
     push_bit 7 (of_bool swap) OR push_bit 3 (of_bool (if swap then e1 else e0))
     OR push_bit 1 (of_bool (if swap then e0 else e1))"

lemma i64_sum_calc_rr:
  assumes "desc_rr64 d" "a < 16" "b < 16"
  shows "i64_sum_calc d (Some (reg_operand a W64 # reg_operand b W64 # rest)) =
    \<lparr>sib_i = 0, sum_width = 8,
     sum_operand = rr_operand_bits (od_form d = FORM_RM_R) (8 \<le> a) (8 \<le> b)\<rparr>"
proof -
  note ext = reg_oid_ext [OF assms(2)] reg_oid_ext [OF assms(3)]
  have em: "operand_em (reg_operand r w) = push_bit 1 (of_bool (8 \<le> r))" if "r < 16" for r w
    using reg_oid_ext [OF that] by (simp add: operand_em_def I64_REG_def I64_MEM_def)
  have step: "sum_step i (reg_operand r W64) \<lparr>w0 = 8, w1 = 0, w2 = 0, o0 = z, acc_sib_i = k\<rparr>
      = \<lparr>w0 = 8, w1 = 0, w2 = 0, o0 = z, acc_sib_i = (if bit z 4 then of_nat i else k)\<rparr>" for i r z k
    by (simp add: sum_step_def i64_eval mask_of_def)
  from assms(1) have "od_form d = FORM_RM_R \<or> od_form d = FORM_R_RM" and "od_count d = 2"
    by (simp_all add: desc_rr64_def)
  then show ?thesis
    by (elim disjE; cases "8 \<le> a"; cases "8 \<le> b")
      (simp_all add: i64_sum_calc_def Let_def em assms(2,3) step rr_operand_bits_def I64_FORM_I_def BIT_def)
qed

definition rr_rex :: "bool \<Rightarrow> bool \<Rightarrow> u8" where
  "rr_rex r b = 0x48 OR push_bit 2 (of_bool r) OR of_bool b"

lemma i64_rex_resolve_rr:
  "i64_rex_resolve \<lparr>sib_i = 0, sum_width = 8, sum_operand = rr_operand_bits swap e0 e1\<rparr> = rr_rex e0 e1"
  by (cases swap; cases e0; cases e1)
    (simp_all add: i64_rex_resolve_def rr_operand_bits_def rr_rex_def Let_def BIT_def I64_REX_LABEL_def)

lemma i64_modrm_resolve_rr:
  "i64_modrm_resolve x y \<lparr>sib_i = 0, sum_width = 8, sum_operand = rr_operand_bits swap e0 e1\<rparr> =
     push_bit 6 3 OR push_bit 3 ((if swap then y else x) AND 7) OR ((if swap then x else y) AND 7)"
  by (cases swap; cases e0; cases e1)
    (simp_all add: i64_modrm_resolve_def rr_operand_bits_def Let_def BIT_def)

lemma rr_rex_nonzero [simp]: "rr_rex r b \<noteq> 0"
  by (cases r; cases b) (simp_all add: rr_rex_def)

text \<open>The bytes of a register-to-register instruction.\<close>

lemma emit_parts_rr:
  assumes "desc_rr64 d" "a < 16" "b < 16" "drop_bit 8 opc AND 0xff = 0" "drop_bit 16 opc AND 0xff = 0"
  defines "x \<equiv> oid (reg_operand a W64)" and "y \<equiv> oid (reg_operand b W64)"
    and "swap \<equiv> (od_form d = FORM_RM_R)"
  shows "part_bytes (emit_parts opc d (reg_operand a W64 # reg_operand b W64 # rest)) =
    [rr_rex (8 \<le> a) (8 \<le> b), ucast (opc AND 0xff),
     push_bit 6 3 OR push_bit 3 ((if swap then y else x) AND 7) OR ((if swap then x else y) AND 7)]"
proof -
  let ?s = "\<lparr>sib_i = 0, sum_width = 8, sum_operand = rr_operand_bits swap (8 \<le> a) (8 \<le> b)\<rparr>"
  from assms(1) have fl: "od_flags d AND FLAG_REX \<noteq> 0" "od_flags d AND FLAG_MODRM \<noteq> 0"
    by (simp_all add: desc_rr64_def)
  have leg: "i64_leg_resolve ?s = 0"
    by (simp add: i64_leg_resolve_def Let_def BIT_def)
  have sib: "i64_sib_resolve z mm ?s = 0" for z mm
    by (cases swap; cases "8 \<le> a"; cases "8 \<le> b")
      (simp_all add: i64_sib_resolve_def rr_operand_bits_def BIT_def)
  note calc = i64_sum_calc_rr [OF assms(1-3), of rest, folded swap_def]
  define m where "m = push_bit 6 3 OR push_bit 3 ((if swap then y else x) AND 7)
    OR ((if swap then x else y) AND 7)"
  have "m \<noteq> 0" unfolding m_def by (rule modrm_fields(4))
  moreover have "i64_modrm_resolve (oid (reg_operand a W64)) (oid (reg_operand b W64)) ?s = m"
    unfolding m_def x_def y_def by (rule i64_modrm_resolve_rr)
  ultimately show ?thesis
    unfolding emit_parts_def calc parts_of_sum_def Let_def m_def [symmetric]
    by (simp add: leg sib i64_rex_resolve_rr fl assms(4,5))
qed

section \<open>Decoding what was emitted\<close>

text \<open>The bytes an emission produced: the first \<^verbatim>\<open>*buf_len\<close> of the buffer.\<close>

fun emitted :: "(axres \<times> u8 list option \<times> u8 option) res \<Rightarrow> u8 list option" where
  "emitted (Inr (AX_SUCC, Some buf, Some n)) = Some (take (unat n) buf)"
| "emitted _ = None"

text \<open>
  The meaning of the mnemonics with two 64-bit operands: the operation and whether the
  first operand is written in the ModRM \<open>r/m\<close> field.
\<close>

fun rr64_opcode :: "i64_opcode \<Rightarrow> (x86_alu \<times> bool) option" where
  "rr64_opcode ADD_64_R64 = Some (X_ADD, True)"
| "rr64_opcode ADD_R64_64 = Some (X_ADD, False)"
| "rr64_opcode OR_64_R64 = Some (X_OR, True)"
| "rr64_opcode OR_R64_64 = Some (X_OR, False)"
| "rr64_opcode AND_64_R64 = Some (X_AND, True)"
| "rr64_opcode AND_R64_64 = Some (X_AND, False)"
| "rr64_opcode SUB_64_R64 = Some (X_SUB, True)"
| "rr64_opcode SUB_R64_64 = Some (X_SUB, False)"
| "rr64_opcode MOV_64_R64 = Some (X_MOV, True)"
| "rr64_opcode MOV_R64_64 = Some (X_MOV, False)"
| "rr64_opcode _ = None"

lemma rr64_opcode_byte:
  assumes "rr64_opcode opc = Some (alu, to_rm)"
  defines "b \<equiv> ucast (i64_opcode_val opc AND 0xff) :: u8"
  shows "x86_alu_of b = Some alu" "bit b 0" "bit b 1 \<longleftrightarrow> \<not> to_rm"
    "drop_bit 8 (i64_opcode_val opc) AND 0xff = 0" "drop_bit 16 (i64_opcode_val opc) AND 0xff = 0"
  using assms(1) unfolding b_def
  by (cases opc; simp add: i64_eval x86_alu_of_def; fail)+

lemma rr64_opcode_entry:
  assumes "rr64_opcode opc = Some (alu, to_rm)"
  shows "(i64_opcode_val opc,
     (if \<not> to_rm then meta2 I64_REG W64 (I64_REG OR I64_MEM) W64 (FLAG_REX OR FLAG_MODRM) I64_NO_PREF FORM_R_RM
      else if alu = X_MOV then meta2 (I64_REG OR I64_MEM) W64 I64_REG W64 (FLAG_REX OR FLAG_MODRM) I64_NO_PREF FORM_RM_R
      else meta2 (I64_REG OR I64_MEM) W64 I64_REG W64 (FLAG_REX OR FLAG_MODRM OR FLAG_LEGACY) I64_LOCK_PREF FORM_RM_R))
     \<in> set L1_OPCODE_META_ENTRIES"
  using assms by (cases opc; simp add: L1_OPCODE_META_ENTRIES_eval)

lemma rr64_opcode_meta:
  assumes "rr64_opcode opc = Some (alu, to_rm)"
  obtains d where "i64_lookup_opcode_meta opc = Inr d" "desc_rr64 d"
    "od_form d = FORM_RM_R \<longleftrightarrow> to_rm"
proof (rule that)
  show "i64_lookup_opcode_meta opc = Inr
     (if \<not> to_rm then meta2 I64_REG W64 (I64_REG OR I64_MEM) W64 (FLAG_REX OR FLAG_MODRM) I64_NO_PREF FORM_R_RM
      else if alu = X_MOV then meta2 (I64_REG OR I64_MEM) W64 I64_REG W64 (FLAG_REX OR FLAG_MODRM) I64_NO_PREF FORM_RM_R
      else meta2 (I64_REG OR I64_MEM) W64 I64_REG W64 (FLAG_REX OR FLAG_MODRM OR FLAG_LEGACY) I64_LOCK_PREF FORM_RM_R)"
    by (rule i64_lookup_opcode_meta_entry) (rule rr64_opcode_entry [OF assms])
qed (simp_all add: desc_rr64_def meta2_def i64_eval)

lemma rr_rex_decode:
  "rr_rex r b AND 0xf0 = 0x40" "rr_rex r b \<noteq> 0x66" "rr_rex r b \<noteq> 0x67"
  "bit (rr_rex r b) 3" "rex_ext (rr_rex r b) 2 = (if r then 8 else 0)"
  "rex_ext (rr_rex r b) 0 = (if b then 8 else 0)"
  by (cases r; cases b; simp add: rr_rex_def rex_ext_def)+

text \<open>The three bytes of a register-to-register instruction.\<close>

definition rr_bytes :: "i64_opcode \<Rightarrow> bool \<Rightarrow> nat \<Rightarrow> nat \<Rightarrow> u8 list" where
  "rr_bytes opc to_rm a b =
    (let x = oid (reg_operand a W64); y = oid (reg_operand b W64)
     in [rr_rex (8 \<le> a) (8 \<le> b), ucast (i64_opcode_val opc AND 0xff),
         push_bit 6 3 OR push_bit 3 ((if to_rm then y else x) AND 7) OR ((if to_rm then x else y) AND 7)])"

lemma emit_rr_bytes:
  assumes "rr64_opcode opc = Some (alu, to_rm)" "a < 16" "b < 16" "16 \<le> length buf"
  obtains buf' where
    "i64_emit_64 opc (Some (reg_operand a W64 # reg_operand b W64 # rest)) (Some buf) (Some l) =
       Inr (AX_SUCC, Some buf', Some 3)"
    "length buf' = length buf" "take 3 buf' = rr_bytes opc to_rm a b"
proof -
  from assms(1) obtain d where d: "i64_lookup_opcode_meta opc = Inr d" "desc_rr64 d"
    "od_form d = FORM_RM_R \<longleftrightarrow> to_rm" by (rule rr64_opcode_meta)
  note byte = rr64_opcode_byte [OF assms(1)]
  let ?oprs = "reg_operand a W64 # reg_operand b W64 # rest"
  have parts: "part_bytes (emit_parts (i64_opcode_val opc) d ?oprs) = rr_bytes opc to_rm a b"
    using emit_parts_rr [OF d(2) assms(2,3) byte(4,5), of rest] unfolding rr_bytes_def Let_def d(3) .
  have "length (rr_bytes opc to_rm a b) = 3" by (simp add: rr_bytes_def Let_def)
  with i64_emit_64_bytes [OF d(1) assms(4), of ?oprs l] that show ?thesis unfolding parts by auto
qed

text \<open>
  What a register-to-register emission decodes to. The extension bit of the \<open>reg\<close> field is
  always taken from the first operand and that of the \<open>r/m\<close> field from the second.
\<close>

lemma rr_bytes_decode:
  assumes "rr64_opcode opc = Some (alu, to_rm)"
  defines "lo \<equiv> \<lambda>r. unat (oid (reg_operand r W64) AND 7)"
    and "ext \<equiv> \<lambda>r. (if 8 \<le> r then 8 else 0 :: nat)"
  shows "x86_decode (rr_bytes opc to_rm a b) =
    Some (\<lparr>x_alu = alu, x_size = 64, x_to_rm = to_rm,
        x_reg = lo (if to_rm then b else a) + ext a,
        x_rm = XReg (lo (if to_rm then a else b) + ext b)\<rparr>, [])"
proof -
  note byte = rr64_opcode_byte [OF assms(1)]
  define m where "m = push_bit 6 3
     OR push_bit 3 ((if to_rm then oid (reg_operand b W64) else oid (reg_operand a W64)) AND 7)
     OR ((if to_rm then oid (reg_operand a W64) else oid (reg_operand b W64)) AND 7)"
  note fields = modrm_fields [of "if to_rm then oid (reg_operand b W64) else oid (reg_operand a W64)"
      "if to_rm then oid (reg_operand a W64) else oid (reg_operand b W64)", folded m_def]
  have "rr_bytes opc to_rm a b = [rr_rex (8 \<le> a) (8 \<le> b), ucast (i64_opcode_val opc AND 0xff), m]"
    unfolding rr_bytes_def Let_def m_def ..
  then show ?thesis
    using x86_decode_rr [OF rr_rex_decode(1-3) byte(1) fields(1), of "8 \<le> a" "8 \<le> b" "[]"]
      byte(2,3) fields(2,3)
    by (simp add: rr_rex_decode lo_def ext_def)
qed

text \<open>
  With both operands or neither among the extended registers, an instruction whose first
  operand is the \<open>r/m\<close> field decodes to the registers asked for.
\<close>

lemma rr_bytes_decode_rm:
  assumes "rr64_opcode opc = Some (alu, True)" "a < 16" "b < 16" "8 \<le> a \<longleftrightarrow> 8 \<le> b"
  shows "x86_decode (rr_bytes opc True a b) =
    Some (\<lparr>x_alu = alu, x_size = 64, x_to_rm = True, x_reg = b, x_rm = XReg a\<rparr>, [])"
  using rr_bytes_decode [OF assms(1), of a b] reg_oid_low [OF assms(2), of W64]
    reg_oid_low [OF assms(3), of W64] assms(4) by auto

lemma emit_rr_decode:
  assumes "rr64_opcode opc = Some (alu, to_rm)" "a < 16" "b < 16" "16 \<le> length buf"
  defines "lo \<equiv> \<lambda>r. unat (oid (reg_operand r W64) AND 7)"
    and "ext \<equiv> \<lambda>r. (if 8 \<le> r then 8 else 0 :: nat)"
  shows "\<exists>bs. emitted (i64_emit_64 opc (Some (reg_operand a W64 # reg_operand b W64 # rest)) (Some buf) (Some l)) = Some bs
    \<and> bs \<noteq> [] \<and> x86_decode bs = Some (\<lparr>x_alu = alu, x_size = 64, x_to_rm = to_rm,
        x_reg = lo (if to_rm then b else a) + ext a,
        x_rm = XReg (lo (if to_rm then a else b) + ext b)\<rparr>, [])"
proof -
  obtain buf' where "i64_emit_64 opc (Some (reg_operand a W64 # reg_operand b W64 # rest)) (Some buf) (Some l) =
       Inr (AX_SUCC, Some buf', Some 3)" "take 3 buf' = rr_bytes opc to_rm a b"
    using emit_rr_bytes [OF assms(1-4)] by metis
  moreover have "rr_bytes opc to_rm a b \<noteq> []" by (simp add: rr_bytes_def Let_def)
  ultimately show ?thesis using rr_bytes_decode [OF assms(1), of a b] by (simp add: lo_def ext_def)
qed

section \<open>Properties\<close>

text \<open>The decoding of a full register-to-register instruction.\<close>

definition decodes_to :: "u8 list \<Rightarrow> x86_alu \<Rightarrow> bool \<Rightarrow> nat \<Rightarrow> nat \<Rightarrow> bool" where
  "decodes_to bs alu to_rm reg rm \<longleftrightarrow>
     x86_decode bs = Some (\<lparr>x_alu = alu, x_size = 64, x_to_rm = to_rm, x_reg = reg, x_rm = XReg rm\<rparr>, [])"

text \<open>
  C3: the mnemonics whose first operand is the ModRM \<open>reg\<close> field (\<^verbatim>\<open>ADD_R64_64\<close>, \<^verbatim>\<open>OR_R64_64\<close>,
  \<^verbatim>\<open>AND_R64_64\<close>, \<^verbatim>\<open>SUB_R64_64\<close>, \<^verbatim>\<open>MOV_R64_64\<close>) are encoded correctly: for all 256 pairs of 64-bit
  registers the bytes \<^verbatim>\<open>i64_emit_64\<close> writes decode to the operation and the two registers asked for.
\<close>

theorem emit_r_rm_roundtrip:
  assumes "rr64_opcode opc = Some (alu, False)" "a < 16" "b < 16" "16 \<le> length buf"
  shows "\<exists>bs. emitted (i64_emit_64 opc (Some (reg_operand a W64 # reg_operand b W64 # rest)) (Some buf) (Some l)) = Some bs
    \<and> decodes_to bs alu False a b"
  using emit_rr_decode [OF assms] reg_oid_low [OF assms(2), of W64] reg_oid_low [OF assms(3), of W64]
  by (auto simp: decodes_to_def)

theorem emit_r_rm_roundtrip_witness:
  "\<exists>bs. emitted (i64_emit_64 ADD_R64_64 (Some [reg_operand 0 W64, reg_operand 10 W64]) (Some (replicate 16 0)) (Some 0)) = Some bs
    \<and> decodes_to bs X_ADD False 0 10"
  by (rule emit_r_rm_roundtrip) simp_all

text \<open>
  C4: the mnemonics whose first operand is the \<open>r/m\<close> field, which are the ones the translator uses,
  are encoded correctly exactly when both registers or neither are among \<^verbatim>\<open>r8\<close> to \<^verbatim>\<open>r15\<close>: otherwise
  the extension bits of the REX prefix are exchanged and the bytes name two other registers.
\<close>

theorem emit_rm_r_decode_iff:
  assumes "rr64_opcode opc = Some (alu, True)" "a < 16" "b < 16" "16 \<le> length buf"
  shows "\<exists>bs. emitted (i64_emit_64 opc (Some (reg_operand a W64 # reg_operand b W64 # rest)) (Some buf) (Some l)) = Some bs
    \<and> decodes_to bs alu True (if (8 \<le> a) = (8 \<le> b) then b else if 8 \<le> a then b + 8 else b - 8)
        (if (8 \<le> a) = (8 \<le> b) then a else if 8 \<le> a then a - 8 else a + 8)"
proof -
  have low: "unat (oid (reg_operand r W64) AND 7) = (if 8 \<le> r then r - 8 else r)" if "r < 16" for r
    using reg_oid_low [OF that, of W64] by (simp split: if_splits)
  show ?thesis
    using emit_rr_decode [OF assms, of rest l] low [OF assms(2)] low [OF assms(3)]
    by (auto simp: decodes_to_def split: if_splits)
qed

theorem emit_rm_r_decode_iff_witness:
  "\<exists>bs. emitted (i64_emit_64 ADD_64_R64 (Some [reg_operand 0 W64, reg_operand 10 W64]) (Some (replicate 16 0)) (Some 0)) = Some bs
    \<and> decodes_to bs X_ADD True 2 8"
  using emit_rm_r_decode_iff [of ADD_64_R64 X_ADD 0 10 "replicate 16 0" "[]" 0] by simp

text \<open>
  C32: \<^verbatim>\<open>i64_emit_64\<close> checks its pointers in order. For an opcode with a descriptor and a
  buffer of any length it writes the bytes of the present parts from the start of the buffer, one
  zero byte behind them when the last part (the top displacement byte) is absent, and leaves every
  byte behind that as it was; the count is the number of the present parts. It needs at most 11
  cells, so that on the 16-byte buffer of its interface it never writes outside and never touches
  the bytes 11 to 15; on a buffer with fewer cells than it needs it writes past the end.
\<close>

theorem emit_64_contract:
  "i64_emit_64 opc None buf len = Inr (AX_INV_ARG, buf, len) \<and>
   i64_emit_64 opc (Some oprs) None len = Inr (AX_INV_BUF, None, len) \<and>
   (\<forall>d bytes. i64_lookup_opcode_meta opc = Inr d \<longrightarrow>
      (let ps = emit_parts (i64_opcode_val opc) d oprs;
           bs = part_bytes ps @ (if fst (last ps) then [] else [0]) in
        length bs \<le> 11 \<and>
        i64_emit_64 opc (Some oprs) (Some bytes) len =
          (if length bs \<le> length bytes
           then Inr (AX_SUCC, Some (bs @ drop (length bs) bytes),
                  map_option (\<lambda>_. of_nat (length (part_bytes ps))) len)
           else Inl Out_Of_Bounds) \<and>
        (length bytes = 16 \<longrightarrow> drop 11 (bs @ drop (length bs) bytes) = drop 11 bytes)))"
proof (intro conjI allI impI)
  fix d bytes
  assume d: "i64_lookup_opcode_meta opc = Inr d"
  let ?ps = "emit_parts (i64_opcode_val opc) d oprs"
  have bs: "part_bytes ?ps @ (if fst (last ?ps) then [] else [0]) = squeeze_image ?ps"
    by (simp add: squeeze_image_def)
  note need = emit_parts_need [of "i64_opcode_val opc" d oprs, folded length_squeeze_image]
  show "let ps = ?ps; bs = part_bytes ps @ (if fst (last ps) then [] else [0]) in
        length bs \<le> 11 \<and>
        i64_emit_64 opc (Some oprs) (Some bytes) len =
          (if length bs \<le> length bytes
           then Inr (AX_SUCC, Some (bs @ drop (length bs) bytes),
                  map_option (\<lambda>_. of_nat (length (part_bytes ps))) len)
           else Inl Out_Of_Bounds) \<and>
        (length bytes = 16 \<longrightarrow> drop 11 (bs @ drop (length bs) bytes) = drop 11 bytes)"
    unfolding Let_def bs using need
    by (simp add: i64_emit_64_exact [OF d] Let_def length_squeeze_image)
qed (simp_all add: i64_emit_64_def)

theorem emit_64_contract_witness:
  "i64_emit_64 MOV_R64_64 (Some [reg_operand 1 W64, reg_operand 2 W64]) (Some (replicate 16 0xcc)) (Some 0) =
     Inr (AX_SUCC, Some ([0x48, 0x8b, 0xca, 0] @ replicate 12 0xcc), Some 3)"
proof -
  let ?d = "meta2 I64_REG W64 (I64_REG OR I64_MEM) W64 (FLAG_REX OR FLAG_MODRM) I64_NO_PREF FORM_R_RM"
  let ?ps = "emit_parts (i64_opcode_val MOV_R64_64) ?d [reg_operand 1 W64, reg_operand 2 W64]"
  have d: "i64_lookup_opcode_meta MOV_R64_64 = Inr ?d"
    using i64_lookup_opcode_meta_entry [OF rr64_opcode_entry [of MOV_R64_64 X_MOV False]] by simp
  have ps: "part_bytes ?ps = [0x48, 0x8b, 0xca]" "\<not> fst (last ?ps)" by code_simp+
  from emit_64_contract [of MOV_R64_64 None "Some 0" "[reg_operand 1 W64, reg_operand 2 W64]"] d
  have "let bs = part_bytes ?ps @ (if fst (last ?ps) then [] else [0]) in
    i64_emit_64 MOV_R64_64 (Some [reg_operand 1 W64, reg_operand 2 W64]) (Some (replicate 16 0xcc)) (Some 0) =
      (if length bs \<le> length (replicate 16 (0xcc :: u8))
       then Inr (AX_SUCC, Some (bs @ drop (length bs) (replicate 16 0xcc)), Some (of_nat (length (part_bytes ?ps))))
       else Inl Out_Of_Bounds)"
    by (auto simp: Let_def)
  with ps show ?thesis by simp
qed

end
