(* ===== verification/I64_IR.thy ===== *)
theory I64_IR
  imports I64_Encode
begin

text \<open>
  Lowering of IR instructions to Intel 64 (\<^verbatim>\<open>asm/intel/i64_ir.h\<close>, \<^verbatim>\<open>i64_ir.c\<close>,
  \<^verbatim>\<open>tables/i64_ir_tables.c\<close>): the group, form and opcode tables, operand translation, and the
  \<^verbatim>\<open>ir_to_host\<close> call \<^verbatim>\<open>i64_ir_to_raw\<close>. The context argument is only compared with
  \<^verbatim>\<open>nullptr\<close>, so it is the flag \<open>ctx_present\<close>.
\<close>

section \<open>Tables (i64_ir_tables.c)\<close>

text \<open>Rows by opcode group, columns by operand width; unnamed rows and columns are zero.\<close>

definition generic_row :: "i64_opcode \<Rightarrow> i64_opcode \<Rightarrow> i64_opcode list" where
  "generic_row g8 g64 = [g8, g64, g64, g64] @ replicate 4 I64_INVALID_OPCODE"

definition I64_IR_GROUP_TO_GENERIC :: "i64_opcode list list" where
  "I64_IR_GROUP_TO_GENERIC =
    [replicate 8 I64_INVALID_OPCODE,
     generic_row gADD_8_8 gADD_64_64,
     generic_row gOR_8_8 gOR_64_64,
     generic_row gAND_8_8 gAND_64_64,
     generic_row gSUB_8_8 gSUB_64_64,
     replicate 8 I64_INVALID_OPCODE,
     replicate 8 I64_INVALID_OPCODE,
     generic_row gMOV_8_8 gMOV_64_64]"

text \<open>
  A row of the second table: the specific opcodes for \<^verbatim>\<open>FORM_RM_R\<close>, \<^verbatim>\<open>FORM_R_RM\<close>,
  \<^verbatim>\<open>FORM_RM_IMM\<close> and \<^verbatim>\<open>FORM_rAX_IMM\<close>. Its initialised rows are keyed by the value of the
  generic opcode; the last row is that of \<^verbatim>\<open>gMOV_64_64\<close>.
\<close>

fun specific_row :: "i64_opcode \<Rightarrow> i64_opcode \<Rightarrow> i64_opcode \<Rightarrow> i64_opcode
    \<Rightarrow> i64_opcode_form \<Rightarrow> i64_opcode" where
  "specific_row rm_r r_rm rm_imm rax_imm FORM_RM_R = rm_r"
| "specific_row rm_r r_rm rm_imm rax_imm FORM_R_RM = r_rm"
| "specific_row rm_r r_rm rm_imm rax_imm FORM_RM_IMM = rm_imm"
| "specific_row rm_r r_rm rm_imm rax_imm FORM_rAX_IMM = rax_imm"
| "specific_row rm_r r_rm rm_imm rax_imm FORM_R = I64_INVALID_OPCODE"
| "specific_row rm_r r_rm rm_imm rax_imm FORM_UNK = I64_INVALID_OPCODE"

definition I64_IR_GENERIC_TO_SPECIFIC_ROWS :: "(i64_opcode \<times> (i64_opcode_form \<Rightarrow> i64_opcode)) list" where
  "I64_IR_GENERIC_TO_SPECIFIC_ROWS =
    [(gADD_8_8, specific_row ADD_8_R8 ADD_R8_8 I64_INVALID_OPCODE I64_INVALID_OPCODE),
     (gADD_64_64, specific_row ADD_64_R64 ADD_R64_64 ADD_AL_IMM8 ADD_rAX_IMM32),
     (gOR_8_8, specific_row OR_8_R8 OR_R8_8 I64_INVALID_OPCODE I64_INVALID_OPCODE),
     (gOR_64_64, specific_row OR_64_R64 OR_R64_64 OR_AL_IMM8 OR_rAX_IMM32),
     (gAND_8_8, specific_row AND_8_R8 AND_R8_8 I64_INVALID_OPCODE I64_INVALID_OPCODE),
     (gAND_64_64, specific_row AND_64_R64 AND_R64_64 AND_AL_IMM8 AND_rAX_IMM32),
     (gSUB_8_8, specific_row SUB_8_R8 SUB_R8_8 I64_INVALID_OPCODE I64_INVALID_OPCODE),
     (gSUB_64_64, specific_row SUB_64_R64 SUB_R64_64 SUB_AL_IMM8 SUB_rAX_IMM32),
     (gMOV_8_8, specific_row I64_INVALID_OPCODE I64_INVALID_OPCODE I64_INVALID_OPCODE I64_INVALID_OPCODE),
     (gMOV_64_64, specific_row MOV_64_R64 MOV_R64_64 I64_INVALID_OPCODE I64_INVALID_OPCODE)]"

definition I64_IR_GENERIC_TO_SPECIFIC :: "u32 \<Rightarrow> i64_opcode_form \<Rightarrow> i64_opcode res" where
  "I64_IR_GENERIC_TO_SPECIFIC v form =
    (if unat v > 0x89 then Inl Out_Of_Bounds
     else Inr (case map_of (map (\<lambda>(g, row). (ucast (I64_OPCODE_VALUE (i64_opcode_val g)), row))
                 I64_IR_GENERIC_TO_SPECIFIC_ROWS) v of
            None \<Rightarrow> I64_INVALID_OPCODE | Some row \<Rightarrow> row form))"

fun I64_IR_FORM_MAP :: "ir_operand_kind \<Rightarrow> ir_operand_kind \<Rightarrow> i64_opcode_form" where
  "I64_IR_FORM_MAP IR_OP_REG IR_OP_REG = FORM_RM_R"
| "I64_IR_FORM_MAP IR_OP_REG IR_OP_MEM = FORM_R_RM"
| "I64_IR_FORM_MAP IR_OP_REG IR_OP_IMM = FORM_RM_IMM"
| "I64_IR_FORM_MAP IR_OP_MEM IR_OP_REG = FORM_RM_R"
| "I64_IR_FORM_MAP IR_OP_MEM IR_OP_MEM = FORM_UNK"
| "I64_IR_FORM_MAP IR_OP_MEM IR_OP_IMM = FORM_RM_IMM"
| "I64_IR_FORM_MAP IR_OP_IMM IR_OP_REG = FORM_UNK"
| "I64_IR_FORM_MAP IR_OP_IMM IR_OP_MEM = FORM_UNK"
| "I64_IR_FORM_MAP IR_OP_IMM IR_OP_IMM = FORM_UNK"

section \<open>Opcode and operand translation (i64_ir.h)\<close>

definition i64_ir_opcode_form_res :: "ir_operand \<Rightarrow> ir_operand \<Rightarrow> i64_opcode_form" where
  "i64_ir_opcode_form_res dest src1 = I64_IR_FORM_MAP (kind dest) (kind src1)"

definition i64_ir_opcode_trans :: "u8 \<Rightarrow> u8 \<Rightarrow> ir_operand \<Rightarrow> ir_operand \<Rightarrow> i64_opcode res" where
  "i64_ir_opcode_trans ir_op_group ir_op_width dest src1 =
    (if unat ir_op_group \<ge> length I64_IR_GROUP_TO_GENERIC \<or> unat ir_op_width \<ge> 8
     then Inl Out_Of_Bounds
     else
      (let i64_op_gen = I64_IR_GROUP_TO_GENERIC ! unat ir_op_group ! unat ir_op_width;
           i64_op_gen_group = ucast (I64_OPCODE_VALUE (i64_opcode_val i64_op_gen)) :: u32;
           i64_op_form = i64_ir_opcode_form_res dest src1
       in I64_IR_GENERIC_TO_SPECIFIC i64_op_gen_group i64_op_form))"

text \<open>
  Returns the flag and the operand after the call; memory and immediate operands are left
  as they were.
\<close>

definition i64_ir_operand_trans ::
  "ir_operand \<Rightarrow> i64_operand_desc \<Rightarrow> i64_operand option \<Rightarrow> (bool \<times> i64_operand option) res" where
  "i64_ir_operand_trans ir_op d operand =
    (case operand of None \<Rightarrow> Inr (False, None)
     | Some opr \<Rightarrow>
       (case kind ir_op of
          IR_OP_REG \<Rightarrow>
            (if unat (op_id ir_op) \<ge> length I64_REG_TO_OPERAND then Inl Out_Of_Bounds
             else Inr (True, Some \<lparr>desc = \<lparr>od_type = od_type d AND I64_REG, od_width = od_width d\<rparr>,
                    oid = i64_operand_id_val (I64_REG_TO_OPERAND ! unat (op_id ir_op)), val = 0\<rparr>))
        | IR_OP_MEM \<Rightarrow> Inr (True, Some opr)
        | IR_OP_IMM \<Rightarrow> Inr (True, Some opr)))"

section \<open>Conversion (i64_ir.c)\<close>

text \<open>The operand loop: \<open>is\<close> are the values of \<^verbatim>\<open>op_i\<close> still to come.\<close>

fun conv_loop :: "ir_operand_set \<Rightarrow> i64_opcode_desc \<Rightarrow> nat \<Rightarrow> nat list \<Rightarrow> i64_operand list
    \<Rightarrow> (bool \<times> i64_operand list) res" where
  "conv_loop s d ds [] buf = Inr (True, buf)"
| "conv_loop s d ds (op_i # is) buf =
    (if op_i \<ge> length (ops s) \<or> op_i - ds \<ge> length buf then Inl Out_Of_Bounds
     else and_then (i64_ir_operand_trans (ops s ! op_i) (od_ops d ! (op_i - ds)) (Some (buf ! (op_i - ds))))
       (\<lambda>(ok, opr).
          (if ok then conv_loop s d ds is (buf[op_i - ds := the opr])
           else Inr (False, buf))))"

definition i64_ir_opcode_conv ::
  "ir_raw_instr \<Rightarrow> i64_opcode option \<Rightarrow> i64_operand list option
     \<Rightarrow> (bool \<times> i64_opcode option \<times> i64_operand list option) res" where
  "i64_ir_opcode_conv ir_instr opcode_buf operand_buf =
    (case opcode_buf of None \<Rightarrow> Inr (False, None, operand_buf)
     | Some _ \<Rightarrow>
       (case operand_buf of None \<Rightarrow> Inr (False, opcode_buf, None)
        | Some obuf \<Rightarrow>
          (let s = opset ir_instr;
               ir_op_width = ucast (IR_OPCODE_WIDTH (opcode ir_instr)) :: u8;
               ir_op_group = ucast (IR_OPCODE_GROUP (opcode ir_instr)) :: u8;
               ir_op_dest_src = of_bool (op_id (ops s ! 0) = op_id (ops s ! 1)) :: nat
           in and_then (i64_ir_opcode_trans ir_op_group ir_op_width
                 (ops s ! ir_op_dest_src) (ops s ! (ir_op_dest_src + 1)))
               (\<lambda>opc.
                 (let i64_op_form = i64_ir_opcode_form_res (ops s ! ir_op_dest_src)
                        (ops s ! (ir_op_dest_src + 1))
                  in and_then (i64_lookup_opcode_meta opc) (\<lambda>opcode_desc.
                       and_then (asrt (i64_op_form = od_form opcode_desc)) (\<lambda>_.
                         and_then (conv_loop s opcode_desc ir_op_dest_src
                                     [ir_op_dest_src..<unat (ops_count s)] obuf)
                           (\<lambda>(ok, buf). Inr (ok, Some opc, Some buf)))))))))"

definition i64_ir_to_raw ::
  "ir_raw_instr \<Rightarrow> bool \<Rightarrow> u8 option \<Rightarrow> (mte_raw_instr \<times> u8 option) res" where
  "i64_ir_to_raw ir_instr ctx_present len =
    (if \<not> ctx_present then Inr (mte_raw_instr_zero, len)
     else if len = None then Inr (mte_raw_instr_zero, len)
     else if unat (ops_count (opset ir_instr)) > I64_MAX_OP_COUNT then Inr (mte_raw_instr_zero, len)
     else
      (let s = opset ir_instr;
           ir_flags = IR_OPCODE_FLAGS (opcode ir_instr);
           non_dest_mov = (op_id (ops s ! 0) = op_id (ops s ! 1) \<and> ir_flags AND IR_DEST_NEQ_SRC \<noteq> 0)
       in and_then (asrt (\<not> non_dest_mov)) (\<lambda>_.
            and_then (i64_ir_opcode_conv ir_instr (Some I64_INVALID_OPCODE)
                        (Some (replicate I64_MAX_OP_COUNT i64_operand_zero)))
              (\<lambda>(ok, opc, operands).
                (if \<not> ok then Inr (mte_raw_instr_zero, len)
                 else and_then (i64_emit_64 (the opc) operands (Some (payload mte_raw_instr_zero)) len)
                   (\<lambda>(r, buf, len').
                     (if r \<noteq> AX_SUCC then Inr (mte_raw_instr_zero, len')
                      else Inr (mte_raw_instr_zero\<lparr>payload := the buf\<rparr>, len'))))))))"

section \<open>Lowering of register instructions\<close>

text \<open>The code a lowering returned: the first \<^verbatim>\<open>*len\<close> bytes of the payload.\<close>

fun host_code :: "(mte_raw_instr \<times> u8 option) res \<Rightarrow> u8 list option" where
  "host_code (Inr (raw, Some n)) = Some (take (unat n) (payload raw))"
| "host_code _ = None"

text \<open>The 16, 32 and 64-bit operations; they are all lowered to 64-bit instructions.\<close>

fun ir_alu :: "ir_opcode \<Rightarrow> x86_alu option" where
  "ir_alu IR_ADD_I64 = Some X_ADD" | "ir_alu IR_ADD_I32 = Some X_ADD" | "ir_alu IR_ADD_I16 = Some X_ADD"
| "ir_alu IR_OR_I64 = Some X_OR" | "ir_alu IR_OR_I32 = Some X_OR" | "ir_alu IR_OR_I16 = Some X_OR"
| "ir_alu IR_AND_I64 = Some X_AND" | "ir_alu IR_AND_I32 = Some X_AND" | "ir_alu IR_AND_I16 = Some X_AND"
| "ir_alu IR_SUB_I64 = Some X_SUB" | "ir_alu IR_SUB_I32 = Some X_SUB" | "ir_alu IR_SUB_I16 = Some X_SUB"
| "ir_alu IR_MOV_I64 = Some X_MOV" | "ir_alu IR_MOV_I32 = Some X_MOV" | "ir_alu IR_MOV_I16 = Some X_MOV"
| "ir_alu _ = None"

lemmas ir_opcode_eval = IR_OPI_def IR_OPCODE_WIDTH_def IR_OPCODE_GROUP_def IR_OPCODE_FLAGS_def
  IR_8BIT_def IR_16BIT_def IR_32BIT_def IR_64BIT_def IR_DEST_NEQ_SRC_def BIT_def

lemma i64_ir_opcode_trans_rr:
  assumes "ir_alu irop = Some alu" "kind x = IR_OP_REG" "kind y = IR_OP_REG"
  obtains opc where "i64_ir_opcode_trans (ucast (IR_OPCODE_GROUP (ir_opcode_val irop)))
      (ucast (IR_OPCODE_WIDTH (ir_opcode_val irop))) x y = Inr opc"
    "rr64_opcode opc = Some (alu, True)"
proof -
  have "\<exists>opc. i64_ir_opcode_trans (ucast (IR_OPCODE_GROUP (ir_opcode_val irop)))
      (ucast (IR_OPCODE_WIDTH (ir_opcode_val irop))) x y = Inr opc \<and> rr64_opcode opc = Some (alu, True)"
    using assms
    by (cases irop; simp add: i64_ir_opcode_trans_def i64_ir_opcode_form_res_def
        I64_IR_GROUP_TO_GENERIC_def generic_row_def I64_IR_GENERIC_TO_SPECIFIC_def
        I64_IR_GENERIC_TO_SPECIFIC_ROWS_def ir_opcode_eval i64_eval)
  then show ?thesis using that by blast
qed

lemma ir_alu_flags:
  assumes "ir_alu irop = Some alu"
  shows "IR_OPCODE_FLAGS (ir_opcode_val irop) AND IR_DEST_NEQ_SRC \<noteq> 0 \<longleftrightarrow> alu = X_MOV"
  using assms by (cases irop; simp add: ir_opcode_eval)

lemma i64_ir_operand_trans_reg:
  assumes "kind x = IR_OP_REG" "op_id x = of_nat r" "r < 16" "desc_rr64 d" "k < 2"
  shows "i64_ir_operand_trans x (od_ops d ! k) (Some opr) = Inr (True, Some (reg_operand r W64))"
proof -
  have "unat (of_nat r :: u8) = r" using assms(3) by (simp add: unat_of_nat)
  moreover from assms(5) have "k = 0 \<or> k = 1" by auto
  ultimately show ?thesis using assms(1-4)
    by (elim disjE) (simp_all add: i64_ir_operand_trans_def I64_REG_TO_OPERAND_def reg_operand_def desc_rr64_def)
qed

text \<open>
  An instruction whose first two operands are the same register is lowered to the two
  address form over operands 1 and 2; a move is lowered over operands 0 and 1.
\<close>

lemma i64_ir_to_raw_rr:
  assumes "ir_alu irop = Some alu" "opcode ins = ir_opcode_val irop"
    and "ops (opset ins) = [x0, x1, x2, x3, x4, x5]" "ops_count (opset ins) = of_nat (2 + ds)"
    and "ds = of_bool (op_id x0 = op_id x1)" "alu = X_MOV \<longleftrightarrow> ds = 0"
    and "x = [x0, x1, x2] ! ds" "y = [x0, x1, x2] ! (ds + 1)"
    and "kind x = IR_OP_REG" "op_id x = of_nat a" "a < 16"
    and "kind y = IR_OP_REG" "op_id y = of_nat b" "b < 16"
  shows "\<exists>opc buf'. rr64_opcode opc = Some (alu, True) \<and>
    i64_ir_to_raw ins True (Some l) = Inr (mte_raw_instr_zero\<lparr>payload := buf'\<rparr>, Some 3) \<and>
    length buf' = MTE_PAYLOAD_SIZE \<and> take 3 buf' = rr_bytes opc True a b"
proof -
  obtain opc where opc: "i64_ir_opcode_trans (ucast (IR_OPCODE_GROUP (ir_opcode_val irop)))
      (ucast (IR_OPCODE_WIDTH (ir_opcode_val irop))) x y = Inr opc" "rr64_opcode opc = Some (alu, True)"
    using i64_ir_opcode_trans_rr [OF assms(1,9,12)] .
  obtain d where d: "i64_lookup_opcode_meta opc = Inr d" "desc_rr64 d" "od_form d = FORM_RM_R"
    using rr64_opcode_meta [OF opc(2)] by auto
  note reg = i64_ir_operand_trans_reg [OF assms(9-11) d(2)] i64_ir_operand_trans_reg [OF assms(12-14) d(2)]
  have form: "i64_ir_opcode_form_res x y = FORM_RM_R"
    using assms(9,12) by (simp add: i64_ir_opcode_form_res_def)
  have conv: "i64_ir_opcode_conv ins (Some I64_INVALID_OPCODE) (Some (replicate I64_MAX_OP_COUNT i64_operand_zero))
     = Inr (True, Some opc, Some (reg_operand a W64 # reg_operand b W64 # replicate 2 i64_operand_zero))"
  proof (cases "op_id x0 = op_id x1")
    case True
    then have ds: "ds = 1" using assms(5) by simp
    then have xy: "x = x1" "y = x2" using assms(7,8) by simp_all
    from ds assms(4) have cnt: "unat (ops_count (opset ins)) = 3" by simp
    show ?thesis
      using True xy opc(1) d form reg cnt
      by (simp add: i64_ir_opcode_conv_def assms(2,3) Let_def upt_rec I64_MAX_OP_COUNT_def
          numeral_2_eq_2 numeral_3_eq_3 eval_nat_numeral)
  next
    case False
    then have ds: "ds = 0" using assms(5) by simp
    then have xy: "x = x0" "y = x1" using assms(7,8) by simp_all
    from ds assms(4) have cnt: "unat (ops_count (opset ins)) = 2" by simp
    show ?thesis
      using False xy opc(1) d form reg cnt
      by (simp add: i64_ir_opcode_conv_def assms(2,3) Let_def upt_rec I64_MAX_OP_COUNT_def
          numeral_2_eq_2 eval_nat_numeral)
  qed
  have mov: "\<not> (op_id x0 = op_id x1 \<and> IR_OPCODE_FLAGS (ir_opcode_val irop) AND IR_DEST_NEQ_SRC \<noteq> 0)"
    using ir_alu_flags [OF assms(1)] assms(5,6) by simp
  have cnt: "\<not> unat (ops_count (opset ins)) > I64_MAX_OP_COUNT"
    using assms(4,5) by (cases "op_id x0 = op_id x1") (simp_all add: I64_MAX_OP_COUNT_def)
  have "16 \<le> length (payload mte_raw_instr_zero)"
    by (simp add: mte_raw_instr_zero_def MTE_PAYLOAD_SIZE_def)
  from emit_rr_bytes [OF opc(2) assms(11,14) this, of "replicate 2 i64_operand_zero" l] obtain buf' where
    emit: "i64_emit_64 opc (Some (reg_operand a W64 # reg_operand b W64 # replicate 2 i64_operand_zero))
        (Some (payload mte_raw_instr_zero)) (Some l) = Inr (AX_SUCC, Some buf', Some 3)"
      "length buf' = length (payload mte_raw_instr_zero)" "take 3 buf' = rr_bytes opc True a b"
    by metis
  have "i64_ir_to_raw ins True (Some l) = Inr (mte_raw_instr_zero\<lparr>payload := buf'\<rparr>, Some 3)"
    using mov cnt conv emit(1) by (simp add: i64_ir_to_raw_def assms(2,3) Let_def)
  with opc(2) emit(2,3) show ?thesis by (auto simp: mte_raw_instr_zero_def)
qed

section \<open>Properties\<close>

definition ir_reg :: "nat \<Rightarrow> ir_operand" where
  "ir_reg r = \<lparr>kind = IR_OP_REG, op_id = of_nat r\<rparr>"

definition ir_instr_of :: "ir_opcode \<Rightarrow> ir_operand list \<Rightarrow> ir_raw_instr" where
  "ir_instr_of irop xs =
    \<lparr>opcode = ir_opcode_val irop,
     opset = \<lparr>ops = take 6 (xs @ replicate 6 ir_operand_zero), ops_count = of_nat (length xs)\<rparr>\<rparr>"

lemma ir_reg_simps [simp]:
  "kind (ir_reg r) = IR_OP_REG" "op_id (ir_reg r) = of_nat r"
  by (simp_all add: ir_reg_def)

lemma of_nat_u8_eq: "a < 16 \<Longrightarrow> b < 16 \<Longrightarrow> (of_nat a :: u8) = of_nat b \<longleftrightarrow> a = b"
  by (auto simp: word_unat_eq_iff unat_of_nat)

lemma rr_payload_decodes:
  assumes "rr64_opcode opc = Some (alu, True)" "a < 16" "b < 16" "take 3 bytes = rr_bytes opc True a b"
  shows "decodes_to (take 3 bytes) alu True (if (8 \<le> a) = (8 \<le> b) then b else if 8 \<le> a then b + 8 else b - 8)
        (if (8 \<le> a) = (8 \<le> b) then a else if 8 \<le> a then a - 8 else a + 8)"
proof -
  have low: "unat (oid (reg_operand r W64) AND 7) = (if 8 \<le> r then r - 8 else r)" if "r < 16" for r
    using reg_oid_low [OF that, of W64] by (simp split: if_splits)
  show ?thesis
    using rr_bytes_decode [OF assms(1), of a b] low [OF assms(2)] low [OF assms(3)] assms(4)
    by (auto simp: decodes_to_def split: if_splits)
qed



text \<open>An instruction whose tables disagree on its form fails the assertion.\<close>

lemma form_mismatch_asserts:
  fixes ins :: ir_raw_instr
  defines "ds \<equiv> of_bool (op_id (ops (opset ins) ! 0) = op_id (ops (opset ins) ! 1)) :: nat"
  defines "x \<equiv> ops (opset ins) ! ds" and "y \<equiv> ops (opset ins) ! (ds + 1)"
  assumes "i64_ir_opcode_trans (ucast (IR_OPCODE_GROUP (opcode ins))) (ucast (IR_OPCODE_WIDTH (opcode ins))) x y = Inr opc"
    and "i64_lookup_opcode_meta opc = Inr d" "od_form d \<noteq> I64_IR_FORM_MAP (kind x) (kind y)"
    and "unat (ops_count (opset ins)) \<le> 4"
  shows "i64_ir_to_raw ins True (Some l) = Inl Assert_Fail"
proof -
  have "i64_ir_opcode_conv ins (Some o0) (Some xs) = Inl Assert_Fail" for o0 xs
    using assms(4-6)
    by (simp add: i64_ir_opcode_conv_def Let_def x_def y_def ds_def i64_ir_opcode_form_res_def)
  then show ?thesis
    using assms(7) by (cases "op_id (ops (opset ins) ! 0) = op_id (ops (opset ins) ! 1) \<and>
        IR_OPCODE_FLAGS (opcode ins) AND IR_DEST_NEQ_SRC \<noteq> 0")
      (auto simp: i64_ir_to_raw_def Let_def I64_MAX_OP_COUNT_def)
qed

fun al_imm8 :: "x86_alu \<Rightarrow> i64_opcode" where
  "al_imm8 X_ADD = ADD_AL_IMM8" | "al_imm8 X_OR = OR_AL_IMM8" | "al_imm8 X_AND = AND_AL_IMM8"
| "al_imm8 X_SUB = SUB_AL_IMM8" | "al_imm8 X_MOV = I64_INVALID_OPCODE"

lemma al_imm8_meta:
  obtains d where "i64_lookup_opcode_meta (al_imm8 alu) = Inr d" "od_form d \<noteq> FORM_RM_IMM"
proof (cases "alu = X_MOV")
  case True
  then show ?thesis
    using that by (simp add: i64_lookup_opcode_meta_def i64_eval I64_MAX_OPCODE_LEN_def)
next
  case False
  then have "(i64_opcode_val (al_imm8 alu), meta2 I64_REG W8 I64_IMM W8 0 I64_NO_PREF FORM_rAX_IMM)
      \<in> set L1_OPCODE_META_ENTRIES"
    by (cases alu) (simp_all add: L1_OPCODE_META_ENTRIES_eval)
  from i64_lookup_opcode_meta_entry [OF this] show ?thesis
    using that by (simp add: meta2_def)
qed

lemma invalid_opcode_meta: "i64_lookup_opcode_meta I64_INVALID_OPCODE = Inr i64_opcode_desc_zero"
  by (simp add: i64_lookup_opcode_meta_def i64_eval I64_MAX_OPCODE_LEN_def)

text \<open>
  The opcode the tables give for an immediate: the one of \<open>al, imm8\<close> for the wide operations, none
  for the narrow ones, for moves and for the groups without a row.
\<close>

lemma i64_ir_opcode_trans_imm:
  assumes "kind x \<noteq> IR_OP_IMM" "kind y = IR_OP_IMM"
  shows "i64_ir_opcode_trans (ucast (IR_OPCODE_GROUP (ir_opcode_val irop)))
      (ucast (IR_OPCODE_WIDTH (ir_opcode_val irop))) x y =
    Inr (case ir_alu irop of None \<Rightarrow> I64_INVALID_OPCODE | Some alu \<Rightarrow> al_imm8 alu)"
  using assms
  by (cases "kind x"; cases irop; simp add: i64_ir_opcode_trans_def i64_ir_opcode_form_res_def
      I64_IR_GROUP_TO_GENERIC_def generic_row_def I64_IR_GENERIC_TO_SPECIFIC_def
      I64_IR_GENERIC_TO_SPECIFIC_ROWS_def ir_opcode_eval i64_eval)

lemma i64_ir_imm_form:
  obtains d where "i64_lookup_opcode_meta (case ir_alu irop of None \<Rightarrow> I64_INVALID_OPCODE | Some alu \<Rightarrow> al_imm8 alu) = Inr d"
    "od_form d \<noteq> FORM_RM_IMM"
proof (cases "ir_alu irop")
  case None
  with that [of i64_opcode_desc_zero] show ?thesis
    by (simp add: invalid_opcode_meta) (simp add: i64_opcode_desc_zero_def)
next
  case (Some alu)
  obtain d where "i64_lookup_opcode_meta (al_imm8 alu) = Inr d" "od_form d \<noteq> FORM_RM_IMM"
    by (rule al_imm8_meta)
  with that Some show ?thesis by simp
qed

lemma i64_ir_opcode_trans_mov8:
  assumes "kind x = IR_OP_REG" "kind y = IR_OP_REG" "irop = IR_MOV_I8"
  shows "i64_ir_opcode_trans (ucast (IR_OPCODE_GROUP (ir_opcode_val irop)))
      (ucast (IR_OPCODE_WIDTH (ir_opcode_val irop))) x y = Inr I64_INVALID_OPCODE"
  by (simp add: assms i64_ir_opcode_trans_def i64_ir_opcode_form_res_def
      I64_IR_GROUP_TO_GENERIC_def generic_row_def I64_IR_GENERIC_TO_SPECIFIC_def
      I64_IR_GENERIC_TO_SPECIFIC_ROWS_def ir_opcode_eval i64_eval)

lemma self_move_asserts:
  assumes "opcode ins = ir_opcode_val irop" "irop \<in> {IR_MOV_I64, IR_MOV_I32, IR_MOV_I16, IR_MOV_I8}"
    and "op_id (ops (opset ins) ! 0) = op_id (ops (opset ins) ! 1)" "unat (ops_count (opset ins)) \<le> 4"
  shows "i64_ir_to_raw ins True (Some l) = Inl Assert_Fail"
proof -
  have "IR_OPCODE_FLAGS (ir_opcode_val irop) AND IR_DEST_NEQ_SRC \<noteq> 0"
    using assms(2) by (elim insertE emptyE) (simp_all add: ir_opcode_eval)
  with assms show ?thesis by (simp add: i64_ir_to_raw_def I64_MAX_OP_COUNT_def Let_def)
qed

lemma move8_asserts:
  fixes ins :: ir_raw_instr
  defines "ds \<equiv> of_bool (op_id (ops (opset ins) ! 0) = op_id (ops (opset ins) ! 1)) :: nat"
  defines "x \<equiv> ops (opset ins) ! ds" and "y \<equiv> ops (opset ins) ! (ds + 1)"
  assumes "opcode ins = ir_opcode_val irop" "irop = IR_MOV_I8"
    and "kind x = IR_OP_REG" "kind y = IR_OP_REG" "unat (ops_count (opset ins)) \<le> 4"
  shows "i64_ir_to_raw ins True (Some l) = Inl Assert_Fail"
proof (rule form_mismatch_asserts [of ins, folded ds_def x_def y_def, OF _ invalid_opcode_meta])
  show "i64_ir_opcode_trans (ucast (IR_OPCODE_GROUP (opcode ins))) (ucast (IR_OPCODE_WIDTH (opcode ins))) x y =
      Inr I64_INVALID_OPCODE"
    unfolding assms(4) by (rule i64_ir_opcode_trans_mov8 [OF assms(6,7,5)])
qed (use assms in \<open>simp_all add: i64_opcode_desc_zero_def\<close>)

lemma immediate_asserts:
  fixes ins :: ir_raw_instr
  defines "ds \<equiv> of_bool (op_id (ops (opset ins) ! 0) = op_id (ops (opset ins) ! 1)) :: nat"
  defines "x \<equiv> ops (opset ins) ! ds" and "y \<equiv> ops (opset ins) ! (ds + 1)"
  assumes "opcode ins = ir_opcode_val irop" "kind x \<noteq> IR_OP_IMM" "kind y = IR_OP_IMM"
    and "unat (ops_count (opset ins)) \<le> 4"
  shows "i64_ir_to_raw ins True (Some l) = Inl Assert_Fail"
proof -
  obtain d where d: "i64_lookup_opcode_meta (case ir_alu irop of None \<Rightarrow> I64_INVALID_OPCODE | Some alu \<Rightarrow> al_imm8 alu) = Inr d"
    "od_form d \<noteq> FORM_RM_IMM" by (rule i64_ir_imm_form)
  have "I64_IR_FORM_MAP (kind x) (kind y) = FORM_RM_IMM"
    using assms(5,6) by (cases "kind x") simp_all
  with d(2) show ?thesis
    using assms(7) i64_ir_opcode_trans_imm [OF assms(5,6), of irop, folded assms(4)]
    by (intro form_mismatch_asserts [of ins, folded ds_def x_def y_def, OF _ d(1)]) simp_all
qed

text \<open>
  C31: what \<^verbatim>\<open>i64_ir_to_raw\<close> refuses. Without a context or a length pointer, or with more than four
  operands, it returns the zero instruction and leaves the length alone. Otherwise the operands it
  lowers are \<open>x\<close> and \<open>y\<close>, the first two of the instruction or, when these have one identifier, the second
  and third. The program stops at an assertion for every move, of whatever width, whose first two
  operands have one identifier; for an 8-bit move of a register to a register; and for every opcode of the IR, of whatever width,
  whose \<open>y\<close> is an immediate and whose \<open>x\<close> is a register or memory: the tables have no opcode
  of the form they ask for.
\<close>

theorem i64_ir_to_raw_refuses:
  "i64_ir_to_raw ins False len = Inr (mte_raw_instr_zero, len) \<and>
   i64_ir_to_raw ins True None = Inr (mte_raw_instr_zero, None) \<and>
   (4 < unat (ops_count (opset ins)) \<longrightarrow> i64_ir_to_raw ins True len = Inr (mte_raw_instr_zero, len)) \<and>
   (\<forall>irop l. opcode ins = ir_opcode_val irop \<and> unat (ops_count (opset ins)) \<le> 4 \<longrightarrow>
     (let ds = of_bool (op_id (ops (opset ins) ! 0) = op_id (ops (opset ins) ! 1));
          x = ops (opset ins) ! ds; y = ops (opset ins) ! (ds + 1) in
       (irop \<in> {IR_MOV_I64, IR_MOV_I32, IR_MOV_I16, IR_MOV_I8} \<and> ds = 1 \<longrightarrow>
         i64_ir_to_raw ins True (Some l) = Inl Assert_Fail) \<and>
       (irop = IR_MOV_I8 \<and> kind x = IR_OP_REG \<and> kind y = IR_OP_REG \<longrightarrow>
         i64_ir_to_raw ins True (Some l) = Inl Assert_Fail) \<and>
       (kind x \<noteq> IR_OP_IMM \<and> kind y = IR_OP_IMM \<longrightarrow>
         i64_ir_to_raw ins True (Some l) = Inl Assert_Fail)))"
proof (unfold Let_def, intro conjI allI impI, goal_cases)
  case (4 irop l)
  then show ?case
    by (elim conjE) (rule self_move_asserts; simp only: of_bool_eq_1_iff)
next
  case (5 irop l)
  then show ?case by (elim conjE) (rule move8_asserts)
next
  case (6 irop l)
  then show ?case by (elim conjE) (rule immediate_asserts)
qed (simp_all add: i64_ir_to_raw_def I64_MAX_OP_COUNT_def)

theorem i64_ir_to_raw_refuses_witness:
  "i64_ir_to_raw (ir_instr_of IR_ADD_I32 [ir_reg 10, ir_reg 10, ir_reg 11, ir_reg 12, ir_reg 13]) True (Some 3) =
     Inr (mte_raw_instr_zero, Some 3) \<and>
   i64_ir_to_raw (ir_instr_of IR_MOV_I32 [ir_reg 10, ir_reg 10]) True (Some 3) = Inl Assert_Fail \<and>
   i64_ir_to_raw (ir_instr_of IR_SUB_I8 [ir_reg 10, \<lparr>kind = IR_OP_IMM, op_id = 7\<rparr>]) True (Some 3) = Inl Assert_Fail"
proof (intro conjI)
  show "i64_ir_to_raw (ir_instr_of IR_ADD_I32 [ir_reg 10, ir_reg 10, ir_reg 11, ir_reg 12, ir_reg 13]) True (Some 3) =
     Inr (mte_raw_instr_zero, Some 3)"
    using i64_ir_to_raw_refuses [of "ir_instr_of IR_ADD_I32 [ir_reg 10, ir_reg 10, ir_reg 11, ir_reg 12, ir_reg 13]" "Some 3"]
    by (simp add: ir_instr_of_def)
  show "i64_ir_to_raw (ir_instr_of IR_MOV_I32 [ir_reg 10, ir_reg 10]) True (Some 3) = Inl Assert_Fail"
    using i64_ir_to_raw_refuses [of "ir_instr_of IR_MOV_I32 [ir_reg 10, ir_reg 10]" "Some 3", THEN conjunct2,
        THEN conjunct2, THEN conjunct2, THEN spec [of _ IR_MOV_I32], THEN spec [of _ 3], THEN mp]
    by (simp add: ir_instr_of_def del: ir_opcode_val.simps)
  show "i64_ir_to_raw (ir_instr_of IR_SUB_I8 [ir_reg 10, \<lparr>kind = IR_OP_IMM, op_id = 7\<rparr>]) True (Some 3) = Inl Assert_Fail"
    using i64_ir_to_raw_refuses [of "ir_instr_of IR_SUB_I8 [ir_reg 10, \<lparr>kind = IR_OP_IMM, op_id = 7\<rparr>]" "Some 3",
        THEN conjunct2, THEN conjunct2, THEN conjunct2, THEN spec [of _ IR_SUB_I8], THEN spec [of _ 3], THEN mp]
    by (simp add: ir_instr_of_def del: ir_opcode_val.simps)
qed

end
