(* ===== verification/Translate.thy ===== *)
theory Translate
  imports TBlock Reg_Maps I64_IR
begin

text \<open>
  MIPS32 to Intel 64 translation end to end. The passes of a block are instantiated with the
  two architectures: loading and converting a guest word, placing it in the IR buffer,
  lowering and running it. The reference is the register file semantics of the MIPS32
  register instructions on one side and the decoder and machine of \<^verbatim>\<open>X86_Spec\<close> on the other.
\<close>

section \<open>The context of this translation\<close>

definition mips_i64 :: "ir_context \<Rightarrow> bool" where
  "mips_i64 c \<longleftrightarrow>
     guest_map c = Some MIPS32_CPU_REG_MAP \<and> host_map c = Some I64_CPU_REG_MAP \<and>
     guest_to_ir c = Some mips32_to_ir \<and> ir_to_host c = Some i64_ir_to_raw \<and>
     guest_reg_fetch c = Some mips32_reg_fetch \<and> guest_arch c = MIPS32 \<and> host_arch c = INTEL64"

definition guest_word :: "ir_context \<Rightarrow> nat \<Rightarrow> u32" where
  "guest_word c ptr = le32 (drop ptr (guest_base c))"

lemma load_guest_instr_word:
  assumes "ptr + 16 \<le> length (guest_base c)"
  shows "\<exists>raw. load_guest_instr c ptr = Inr raw \<and> le32 (payload raw) = guest_word c ptr"
  using assms by (auto simp: load_guest_instr_def buf_read_def guest_word_def le32_def nth_append)

text \<open>The instructions the front end makes of a register instruction.\<close>

definition r_instr :: "u16 \<Rightarrow> u8 \<Rightarrow> u8 \<Rightarrow> u8 \<Rightarrow> ir_raw_instr" where
  "r_instr opc d s t =
    \<lparr>opcode = opc, opset = \<lparr>ops = [\<lparr>kind = IR_OP_REG, op_id = d\<rparr>, \<lparr>kind = IR_OP_REG, op_id = s\<rparr>,
        \<lparr>kind = IR_OP_REG, op_id = t\<rparr>, ir_operand_zero, ir_operand_zero, ir_operand_zero], ops_count = 3\<rparr>\<rparr>"

definition mips_rd :: "u32 \<Rightarrow> u8" where "mips_rd w = ucast (mips32_rd w)"
definition mips_rs :: "u32 \<Rightarrow> u8" where "mips_rs w = ucast (mips32_rs w)"
definition mips_rt :: "u32 \<Rightarrow> u8" where "mips_rt w = ucast (mips32_rt w)"

definition mips_instr :: "u32 \<Rightarrow> ir_raw_instr" where
  "mips_instr w = r_instr (MIPS32_TO_IR_TABLE (mips32_funct w)) (mips_rd w) (mips_rs w) (mips_rt w)"

lemma mips_field_limit:
  "unat (mips_rd w) < 32" "unat (mips_rs w) < 32" "unat (mips_rt w) < 32"
proof -
  have "unat (ucast (x AND 0x1f :: u32) :: u8) < 32" for x
  proof -
    have "unat (x AND mask 5 :: u32) < 2 ^ 5"
      using take_bit_nat_less_exp [of 5 "unat x"] by (simp flip: take_bit_eq_mask add: unsigned_take_bit_eq)
    then show ?thesis by (simp add: mask_eq_exp_minus_1 unsigned_ucast_eq take_bit_nat_eq_self)
  qed
  then show "unat (mips_rd w) < 32" "unat (mips_rs w) < 32" "unat (mips_rt w) < 32"
    by (simp_all add: mips_rd_def mips_rs_def mips_rt_def mips32_rd_def mips32_rs_def mips32_rt_def)
qed

lemma mips_call:
  assumes "mips_i64 c" "le32 (payload raw) = w"
  shows "call_guest_to_ir c (Some raw) True (Some l) =
    (if mips32_get_instr_type w = MIPS_R then Inr (mips_instr w, Some 4) else Inl Assert_Fail)"
  using assms
  by (cases "mips32_get_instr_type w")
    (simp_all add: mips_i64_def call_guest_to_ir_def mips32_to_ir_def mips32_raw_to_ir_def Let_def
      mips_instr_def r_instr_def reg_ir_operand_def mips_rd_def mips_rs_def mips_rt_def
      ir_raw_instr_zero_def ir_operand_set_zero_def eval_nat_numeral)

section \<open>Placing a register instruction\<close>

definition block_shape :: "tblock \<Rightarrow> bool" where
  "block_shape b \<longleftrightarrow> length (ir_buf b) = 256 \<and> ir_capacity b = 256 \<and>
     length (liveness b) = IR_REG_LIMIT \<and> length (assoc b) = IR_REG_LIMIT \<and> length (state b) = IR_REG_LIMIT"

definition host_of :: "asm_reg_assoc list \<Rightarrow> u8 \<Rightarrow> u8" where
  "host_of as g = ucast (a_id (as ! unat g))"

text \<open>The code of a register instruction under a given association table.\<close>

definition r_code :: "u16 \<Rightarrow> asm_reg_assoc list \<Rightarrow> u8 \<Rightarrow> u8 \<Rightarrow> u8 \<Rightarrow> ir_raw_instr list" where
  "r_code opc as d s t = expanded (r_instr opc (host_of as d) (host_of as s) (host_of as t))"

lemma r_code_length: "length (r_code opc as d s t) \<le> 2" "1 \<le> length (r_code opc as d s t)"
  by (simp_all add: r_code_def expanded_def)

lemma fix_r_instr:
  "asm_fix_instr (Some c) (Some (r_instr opc d s t)) (Some as) =
     Inr (Some (r_instr opc (host_of as d) (host_of as s) (host_of as t)))"
  by (simp add: asm_fix_instr_def r_instr_def fix_loop_map fix_operand_def host_of_def)

lemma fill_r_instr:
  assumes "mips_i64 c" "length as = IR_REG_LIMIT" "length st = IR_REG_LIMIT"
    and "unat d < 32" "unat s < 32" "unat t < 32"
  shows "\<exists>sp' as' st'. asm_fill_assoc (Some c) (Some (r_instr opc d s t)) (Some sp) (Some as) (Some st) =
      Inr (Some sp', Some as', Some st') \<and>
    length as' = IR_REG_LIMIT \<and> length st' = IR_REG_LIMIT \<and>
    (\<forall>g. ir_reg_assoc_used (as ! g) \<longrightarrow> as' ! g = as ! g) \<and>
    (assoc_inv 16 as st \<longrightarrow> assoc_inv 16 as' st')"
proof -
  let ?xs = "ops (opset (r_instr opc d s t))"
  let ?is = "[if d = s then 1 else 0..<3]"
  have "\<forall>i \<in> set ?is. i < length ?xs \<and> unat (op_id (?xs ! i)) < length (reg_root MIPS32_CPU_REG_MAP)"
    using assms(4-6) by (auto simp: r_instr_def nth_Cons' upt_rec)
  from i64_fill_loop_frame [OF assms(2,3) this, of sp] assms(1) show ?thesis
    by (auto simp: asm_fill_assoc_def mips_i64_def r_instr_def)
qed

lemma place_r_instr:
  assumes "mips_i64 c" "block_shape b" "unat (ir_cnt b) + 2 \<le> 256"
    and "unat d < 32" "unat s < 32" "unat t < 32"
  obtains sp as st where
    "place_instr c (r_instr opc d s t) b = Inr (b\<lparr>spill_cnt := sp, assoc := as, state := st,
       ir_buf := take (unat (ir_cnt b)) (ir_buf b) @ r_code opc as d s t
         @ drop (unat (ir_cnt b) + length (r_code opc as d s t)) (ir_buf b),
       ir_cnt := ir_cnt b + of_nat (length (r_code opc as d s t))\<rparr>)"
    "asm_fill_assoc (Some c) (Some (r_instr opc d s t)) (Some (spill_cnt b)) (Some (assoc b)) (Some (state b))
       = Inr (Some sp, Some as, Some st)"
    "length as = IR_REG_LIMIT" "length st = IR_REG_LIMIT"
    "\<And>g. ir_reg_assoc_used (assoc b ! g) \<Longrightarrow> as ! g = assoc b ! g"
    "assoc_inv 16 (assoc b) (state b) \<Longrightarrow> assoc_inv 16 as st"
proof -
  from assms(2) have shape: "length (ir_buf b) = 256" "ir_capacity b = 256"
    "length (assoc b) = IR_REG_LIMIT" "length (state b) = IR_REG_LIMIT" by (simp_all add: block_shape_def)
  obtain sp as st where f:
    "asm_fill_assoc (Some c) (Some (r_instr opc d s t)) (Some (spill_cnt b)) (Some (assoc b)) (Some (state b))
       = Inr (Some sp, Some as, Some st)"
    "length as = IR_REG_LIMIT" "length st = IR_REG_LIMIT"
    "\<forall>g. ir_reg_assoc_used (assoc b ! g) \<longrightarrow> as ! g = assoc b ! g"
    "assoc_inv 16 (assoc b) (state b) \<longrightarrow> assoc_inv 16 as st"
    using fill_r_instr [OF assms(1) shape(3,4) assms(4-6)] by metis
  let ?n = "ir_capacity b - ucast (ir_cnt b)"
  have "unat (ucast (ir_cnt b) :: u32) = unat (ir_cnt b)"
    by (simp add: unat_ucast_up)
  then have "unat ?n = 256 - unat (ir_cnt b)"
    using assms(3) shape(2) by (simp add: unat_sub word_le_nat_alt)
  then have n: "1 < ?n" using assms(3) by (simp add: word_less_nat_alt)
  let ?ins = "r_instr opc (host_of as d) (host_of as s) (host_of as t)"
  have two: "MTE_ARCH_ISA_FORM (mte_arch_val (guest_arch c)) \<noteq> mte_isa_form_val MTE_ISA_TWO_OP"
    "MTE_ARCH_ISA_FORM (mte_arch_val (host_arch c)) = mte_isa_form_val MTE_ISA_TWO_OP"
    using assms(1) by (simp_all add: mips_i64_def MTE_ARCH_ISA_FORM_def)
  have ex: "asm_expand_instr (Some c) (Some ?ins) ?n (Some (drop (unat (ir_cnt b)) (ir_buf b))) False =
    Inr (of_nat (length (expanded ?ins)), Some (expanded ?ins @ drop (length (expanded ?ins)) (drop (unat (ir_cnt b)) (ir_buf b))))"
    using assms(3) shape(1) by (intro asm_expand_instr_two_op [OF two n]) simp
  have len: "ucast (of_nat (length (expanded ?ins)) :: u32) = (of_nat (length (expanded ?ins)) :: u16)"
    using expanded_length [of ?ins] by auto
  have "place_instr c (r_instr opc d s t) b = Inr (b\<lparr>spill_cnt := sp, assoc := as, state := st,
       ir_buf := take (unat (ir_cnt b)) (ir_buf b) @ r_code opc as d s t
         @ drop (unat (ir_cnt b) + length (r_code opc as d s t)) (ir_buf b),
       ir_cnt := ir_cnt b + of_nat (length (r_code opc as d s t))\<rparr>)"
    by (simp add: place_instr_def f(1) fix_r_instr ex len r_code_def Let_def add.commute)
  from that [OF this f(1-3)] f(4,5) show ?thesis by blast
qed

section \<open>Lowering and running the code of a register instruction\<close>

text \<open>The host code of one IR instruction and of a sequence.\<close>

definition lower :: "ir_raw_instr \<Rightarrow> u8 list option" where
  "lower ins = host_code (i64_ir_to_raw ins True (Some 0))"

fun lower_all :: "ir_raw_instr list \<Rightarrow> u8 list option" where
  "lower_all [] = Some []"
| "lower_all (i # is) =
    (case lower i of None \<Rightarrow> None
     | Some bs \<Rightarrow> (case lower_all is of None \<Rightarrow> None | Some cs \<Rightarrow> Some (bs @ cs)))"

lemma lower_all_append:
  "lower_all (xs @ ys) =
    (case lower_all xs of None \<Rightarrow> None
     | Some bs \<Rightarrow> (case lower_all ys of None \<Rightarrow> None | Some cs \<Rightarrow> Some (bs @ cs)))"
  by (induction xs) (auto split: option.splits)

text \<open>An instruction that lowers, whatever was in \<^verbatim>\<open>*len\<close>, to three bytes with a given effect.\<close>

definition lowers_bytes :: "ir_raw_instr \<Rightarrow> u8 list \<Rightarrow> bool" where
  "lowers_bytes ins bs \<longleftrightarrow> length bs = 3 \<and> opcode ins \<noteq> ir_opcode_val IR_INVALID_OPCODE \<and>
     (\<forall>l. \<exists>buf'. i64_ir_to_raw ins True (Some l) = Inr (mte_raw_instr_zero\<lparr>payload := buf'\<rparr>, Some 3) \<and>
        length buf' = MTE_PAYLOAD_SIZE \<and> take 3 buf' = bs)"

definition lowers_to :: "ir_raw_instr \<Rightarrow> (x86_regs \<Rightarrow> x86_regs) \<Rightarrow> bool" where
  "lowers_to ins eff \<longleftrightarrow>
     (\<exists>bs. lowers_bytes ins bs \<and> (\<forall>cs H. x86_run (bs @ cs) H = x86_run cs (eff H)))"

lemma lowers_bytes_lower: "lowers_bytes ins bs \<Longrightarrow> lower ins = Some bs"
proof -
  assume "lowers_bytes ins bs"
  then obtain buf' where "i64_ir_to_raw ins True (Some 0) = Inr (mte_raw_instr_zero\<lparr>payload := buf'\<rparr>, Some 3)"
    "take 3 buf' = bs" unfolding lowers_bytes_def by blast
  then show ?thesis by (simp add: lower_def)
qed

lemma lowers_toD:
  assumes "lowers_to ins eff"
  obtains bs where "lowers_bytes ins bs" "\<And>cs H. x86_run (bs @ cs) H = x86_run cs (eff H)"
  using assms unfolding lowers_to_def by blast

lemma lowers_bytes_all:
  "list_all2 lowers_bytes xs bss \<Longrightarrow> lower_all xs = Some (concat bss)"
  by (induction xs bss rule: list_all2_induct) (simp_all add: lowers_bytes_lower)

lemma ir_alu_valid: "ir_alu irop = Some alu \<Longrightarrow> ir_opcode_val irop \<noteq> ir_opcode_val IR_INVALID_OPCODE"
  by (cases irop; simp add: ir_opcode_eval)

fun rr_opcode :: "x86_alu \<Rightarrow> i64_opcode" where
  "rr_opcode X_ADD = ADD_64_R64" | "rr_opcode X_OR = OR_64_R64" | "rr_opcode X_AND = AND_64_R64"
| "rr_opcode X_SUB = SUB_64_R64" | "rr_opcode X_MOV = MOV_64_R64"

lemma rr64_opcode_rr_opcode: "rr64_opcode opc = Some (alu, True) \<longleftrightarrow> opc = rr_opcode alu"
  by (cases alu; cases opc; simp)

lemma lowers_bytes_rr:
  assumes "ir_alu irop = Some alu" "opcode ins = ir_opcode_val irop"
    and "ops (opset ins) = [x0, x1, x2, x3, x4, x5]" "ops_count (opset ins) = of_nat (2 + ds)"
    and "ds = of_bool (op_id x0 = op_id x1)" "alu = X_MOV \<longleftrightarrow> ds = 0"
    and "x = [x0, x1, x2] ! ds" "y = [x0, x1, x2] ! (ds + 1)"
    and "kind x = IR_OP_REG" "unat (op_id x) = a" "a < 16"
    and "kind y = IR_OP_REG" "unat (op_id y) = b" "b < 16"
  shows "lowers_bytes ins (rr_bytes (rr_opcode alu) True a b)"
proof -
  have ids: "op_id x = of_nat a" "op_id y = of_nat b" using assms(10,13) by auto
  note low = i64_ir_to_raw_rr [OF assms(1-9) ids(1) assms(11,12) ids(2) assms(14)]
  have "length (rr_bytes (rr_opcode alu) True a b) = 3" by (simp add: rr_bytes_def Let_def)
  then show ?thesis
    unfolding lowers_bytes_def using low ir_alu_valid [OF assms(1)] assms(2)
    by (metis rr64_opcode_rr_opcode)
qed

lemma lowers_to_rr:
  assumes "ir_alu irop = Some alu" "opcode ins = ir_opcode_val irop"
    and "ops (opset ins) = [x0, x1, x2, x3, x4, x5]" "ops_count (opset ins) = of_nat (2 + ds)"
    and "ds = of_bool (op_id x0 = op_id x1)" "alu = X_MOV \<longleftrightarrow> ds = 0"
    and "x = [x0, x1, x2] ! ds" "y = [x0, x1, x2] ! (ds + 1)"
    and "kind x = IR_OP_REG" "unat (op_id x) = a" "a < 16"
    and "kind y = IR_OP_REG" "unat (op_id y) = b" "b < 16"
    and "8 \<le> a \<longleftrightarrow> 8 \<le> b"
  shows "lowers_to ins (\<lambda>H. H(a := x86_alu_fun alu (H a) (H b)))"
proof -
  let ?bs = "rr_bytes (rr_opcode alu) True a b"
  have dec: "x86_decode ?bs =
      Some (\<lparr>x_alu = alu, x_size = 64, x_to_rm = True, x_reg = b, x_rm = XReg a\<rparr>, [])"
    by (rule rr_bytes_decode_rm [OF _ assms(11,14,15)]) (simp add: rr64_opcode_rr_opcode)
  have "?bs \<noteq> []" by (simp add: rr_bytes_def Let_def)
  then have "x86_run (?bs @ cs) H = x86_run cs (H(a := x86_alu_fun alu (H a) (H b)))" for cs H
    using x86_run_step [OF dec, of H] by (fastforce simp: x86_exec_def Let_def)
  with lowers_bytes_rr [OF assms(1-14)] show ?thesis unfolding lowers_to_def by blast
qed

text \<open>The IR operations of the front end.\<close>

fun mips_alu :: "ir_opcode \<Rightarrow> x86_alu option" where
  "mips_alu IR_ADD_I32 = Some X_ADD"
| "mips_alu IR_SUB_I32 = Some X_SUB"
| "mips_alu IR_OR_I32 = Some X_OR"
| "mips_alu IR_AND_I32 = Some X_AND"
| "mips_alu _ = None"

lemma mips_alu_facts:
  assumes "mips_alu irop = Some alu"
  shows "ir_alu irop = Some alu" "alu \<noteq> X_MOV"
    "IR_OPCODE_FLAGS (ir_opcode_val irop) AND IR_DEST_NEQ_SRC = 0"
    "ir_opcode_swap_group (ir_opcode_val irop) (ir_opcode_group_val IR_GROUP_MOV) = ir_opcode_val IR_MOV_I32"
    "ir_opcode_val irop \<noteq> ir_opcode_val IR_INVALID_OPCODE"
  using assms by (cases irop; simp add: ir_opcode_eval ir_opcode_swap_group_def)+

text \<open>
  What the code of \<open>d := s op t\<close> does to the host registers: a copy of \<open>s\<close> into \<open>d\<close> first, when
  they differ.
\<close>

definition r_effect :: "x86_alu \<Rightarrow> nat \<Rightarrow> nat \<Rightarrow> nat \<Rightarrow> x86_regs \<Rightarrow> x86_regs" where
  "r_effect alu d s t H =
    (let H1 = (if d = s then H else H(d := H s)) in H1(d := x86_alu_fun alu (H1 d) (H1 t)))"

lemma r_effect_ok:
  "d = s \<or> d \<noteq> t \<Longrightarrow> r_effect alu d s t H = H(d := x86_alu_fun alu (H s) (H t))"
  by (auto simp: r_effect_def)

lemma lowers_bytes_fix:
  assumes "mips_alu irop = Some alu" "unat d < 16" "unat t < 16"
  shows "lowers_bytes (fix_instr_of (r_instr (ir_opcode_val irop) d s t))
    (rr_bytes (rr_opcode alu) True (unat d) (unat t))"
  using mips_alu_facts [OF assms(1)] assms(2-3)
  by (intro lowers_bytes_rr [where ds = 1 and irop = irop and ?x0.0 = "\<lparr>kind = IR_OP_REG, op_id = d\<rparr>"
        and ?x1.0 = "\<lparr>kind = IR_OP_REG, op_id = d\<rparr>" and ?x2.0 = "\<lparr>kind = IR_OP_REG, op_id = t\<rparr>"
        and x = "\<lparr>kind = IR_OP_REG, op_id = d\<rparr>" and y = "\<lparr>kind = IR_OP_REG, op_id = t\<rparr>"])
    (simp_all add: fix_instr_of_def r_instr_def)

lemma lowers_bytes_mov:
  assumes "mips_alu irop = Some alu" "unat d < 16" "unat s < 16" "d \<noteq> s"
  shows "lowers_bytes (mov_instr_of (r_instr (ir_opcode_val irop) d s t))
    (rr_bytes MOV_64_R64 True (unat d) (unat s))"
proof -
  have "lowers_bytes (mov_instr_of (r_instr (ir_opcode_val irop) d s t))
      (rr_bytes (rr_opcode X_MOV) True (unat d) (unat s))"
    using mips_alu_facts [OF assms(1)] assms(2-4)
    by (intro lowers_bytes_rr [where ds = 0 and irop = IR_MOV_I32 and ?x0.0 = "\<lparr>kind = IR_OP_REG, op_id = d\<rparr>"
          and ?x1.0 = "\<lparr>kind = IR_OP_REG, op_id = s\<rparr>" and ?x2.0 = ir_operand_zero
          and x = "\<lparr>kind = IR_OP_REG, op_id = d\<rparr>" and y = "\<lparr>kind = IR_OP_REG, op_id = s\<rparr>"])
      (simp_all add: mov_instr_of_def r_instr_def eval_nat_numeral)
  then show ?thesis by simp
qed

lemma lowers_to_fix:
  assumes "mips_alu irop = Some alu" "unat d < 16" "unat t < 16" "8 \<le> unat d \<longleftrightarrow> 8 \<le> unat t"
  shows "lowers_to (fix_instr_of (r_instr (ir_opcode_val irop) d s t))
    (\<lambda>H. H(unat d := x86_alu_fun alu (H (unat d)) (H (unat t))))"
  using mips_alu_facts [OF assms(1)] assms(2-4)
  by (intro lowers_to_rr [where ds = 1 and irop = irop and ?x0.0 = "\<lparr>kind = IR_OP_REG, op_id = d\<rparr>"
        and ?x1.0 = "\<lparr>kind = IR_OP_REG, op_id = d\<rparr>" and ?x2.0 = "\<lparr>kind = IR_OP_REG, op_id = t\<rparr>"
        and x = "\<lparr>kind = IR_OP_REG, op_id = d\<rparr>" and y = "\<lparr>kind = IR_OP_REG, op_id = t\<rparr>"])
    (simp_all add: fix_instr_of_def r_instr_def)

lemma lowers_to_mov:
  assumes "mips_alu irop = Some alu" "unat d < 16" "unat s < 16" "8 \<le> unat d \<longleftrightarrow> 8 \<le> unat s" "d \<noteq> s"
  shows "lowers_to (mov_instr_of (r_instr (ir_opcode_val irop) d s t)) (\<lambda>H. H(unat d := H (unat s)))"
proof -
  have "lowers_to (mov_instr_of (r_instr (ir_opcode_val irop) d s t))
      (\<lambda>H. H(unat d := x86_alu_fun X_MOV (H (unat d)) (H (unat s))))"
    using mips_alu_facts [OF assms(1)] assms(2-5)
    by (intro lowers_to_rr [where ds = 0 and irop = IR_MOV_I32 and ?x0.0 = "\<lparr>kind = IR_OP_REG, op_id = d\<rparr>"
          and ?x1.0 = "\<lparr>kind = IR_OP_REG, op_id = s\<rparr>" and ?x2.0 = ir_operand_zero
          and x = "\<lparr>kind = IR_OP_REG, op_id = d\<rparr>" and y = "\<lparr>kind = IR_OP_REG, op_id = s\<rparr>"])
      (simp_all add: mov_instr_of_def r_instr_def eval_nat_numeral)
  then show ?thesis by simp
qed

lemma r_code_run:
  assumes "mips_alu irop = Some alu" "unat (host_of as d) < 16" "unat (host_of as s) < 16" "unat (host_of as t) < 16"
    and "8 \<le> unat (host_of as d) \<longleftrightarrow> 8 \<le> unat (host_of as s)" "8 \<le> unat (host_of as d) \<longleftrightarrow> 8 \<le> unat (host_of as t)"
  obtains bss where "list_all2 lowers_bytes (r_code (ir_opcode_val irop) as d s t) bss"
    "\<And>cs H. x86_run (concat bss @ cs) H =
       x86_run cs (r_effect alu (unat (host_of as d)) (unat (host_of as s)) (unat (host_of as t)) H)"
proof -
  let ?d = "host_of as d" and ?s = "host_of as s" and ?t = "host_of as t"
  note facts = mips_alu_facts [OF assms(1)]
  obtain fb where fb: "lowers_bytes (fix_instr_of (r_instr (ir_opcode_val irop) ?d ?s ?t)) fb"
    "\<And>cs H. x86_run (fb @ cs) H = x86_run cs (H(unat ?d := x86_alu_fun alu (H (unat ?d)) (H (unat ?t))))"
    using lowers_toD [OF lowers_to_fix [OF assms(1,2,4,6)]] by metis
  show ?thesis
  proof (cases "?d = ?s")
    case True
    then have "list_all2 lowers_bytes (r_code (ir_opcode_val irop) as d s t) [fb]"
      using fb(1) by (simp add: r_code_def expanded_def r_instr_def)
    from that [OF this] show ?thesis using fb(2) True by (simp add: r_effect_def Let_def)
  next
    case False
    obtain mb where mb: "lowers_bytes (mov_instr_of (r_instr (ir_opcode_val irop) ?d ?s ?t)) mb"
      "\<And>cs H. x86_run (mb @ cs) H = x86_run cs (H(unat ?d := H (unat ?s)))"
      using lowers_toD [OF lowers_to_mov [OF assms(1,2,3,5) False]] by metis
    have "list_all2 lowers_bytes (r_code (ir_opcode_val irop) as d s t) [mb, fb]"
      using fb(1) mb(1) False facts(3) by (simp add: r_code_def expanded_def r_instr_def)
    from that [OF this] show ?thesis using fb(2) mb(2) False
      by (simp add: r_effect_def Let_def)
  qed
qed

section \<open>The guest machine\<close>

text \<open>
  The registers of the guest and the effect of its register instructions. \<^verbatim>\<open>ADD\<close> and \<^verbatim>\<open>SUB\<close> trap on
  overflow on the machine; the reference is their result when they do not.
\<close>

type_synonym mips_regs = "u8 \<Rightarrow> u32"

fun mips_fun :: "x86_alu \<Rightarrow> u32 \<Rightarrow> u32 \<Rightarrow> u32" where
  "mips_fun X_ADD a b = a + b"
| "mips_fun X_SUB a b = a - b"
| "mips_fun X_OR a b = a OR b"
| "mips_fun X_AND a b = a AND b"
| "mips_fun X_MOV a b = b"

definition mips_funct_alu :: "u32 \<Rightarrow> x86_alu option" where
  "mips_funct_alu f =
    (if f = 0x20 then Some X_ADD else if f = 0x22 then Some X_SUB
     else if f = 0x24 then Some X_AND else if f = 0x25 then Some X_OR else None)"

text \<open>Register 0 ignores writes; the word 0 is the \<^verbatim>\<open>nop\<close>.\<close>

definition mips_exec :: "u32 \<Rightarrow> mips_regs \<Rightarrow> mips_regs option" where
  "mips_exec w G =
    (if w = 0 then Some G
     else if mips32_get_instr_type w \<noteq> MIPS_R then None
     else
      (case mips_funct_alu (mips32_funct w) of None \<Rightarrow> None
       | Some alu \<Rightarrow> Some (if mips_rd w = 0 then G
           else G(mips_rd w := mips_fun alu (G (mips_rs w)) (G (mips_rt w))))))"

fun mips_run :: "u32 list \<Rightarrow> mips_regs \<Rightarrow> mips_regs option" where
  "mips_run [] G = Some G"
| "mips_run (w # ws) G = (case mips_exec w G of None \<Rightarrow> None | Some G' \<Rightarrow> mips_run ws G')"

lemma mips_table_alu:
  assumes "mips_funct_alu f = Some alu"
  obtains irop where "MIPS32_TO_IR_TABLE f = ir_opcode_val irop" "mips_alu irop = Some alu"
proof -
  have "\<exists>irop. MIPS32_TO_IR_TABLE f = ir_opcode_val irop \<and> mips_alu irop = Some alu"
    using assms unfolding mips_funct_alu_def MIPS32_TO_IR_TABLE_def
    by (auto simp del: ir_opcode_val.simps split: if_splits intro: exI [of _ IR_ADD_I32] exI [of _ IR_SUB_I32]
        exI [of _ IR_AND_I32] exI [of _ IR_OR_I32])
  with that show ?thesis by blast
qed

lemma ucast_low:
  fixes a b :: u64
  shows "ucast (a + b) = (ucast a + ucast b :: u32)" "ucast (a - b) = (ucast a - ucast b :: u32)"
    "ucast (a OR b) = (ucast a OR ucast b :: u32)" "ucast (a AND b) = (ucast a AND ucast b :: u32)"
proof -
  show "ucast (a + b) = (ucast a + ucast b :: u32)"
    by transfer (simp add: take_bit_eq_mod mod_mod_cancel, rule mod_add_cong; simp add: mod_mod_cancel)
  show "ucast (a - b) = (ucast a - ucast b :: u32)"
    by transfer (simp add: take_bit_eq_mod mod_mod_cancel, rule mod_diff_cong; simp add: mod_mod_cancel)
  show "ucast (a OR b) = (ucast a OR ucast b :: u32)" "ucast (a AND b) = (ucast a AND ucast b :: u32)"
    by (auto intro!: bit_word_eqI simp: bit_simps)
qed

lemma x86_alu_low:
  "ucast (x86_alu_fun alu a b) = mips_fun alu (ucast a) (ucast b)"
  by (cases alu) (simp_all add: ucast_low)

text \<open>
  A guest register held in a host register has its value in the lower half of it.
\<close>

definition sim :: "asm_reg_assoc list \<Rightarrow> x86_regs \<Rightarrow> mips_regs \<Rightarrow> bool" where
  "sim as H G \<longleftrightarrow> (\<forall>g. unat g < 32 \<longrightarrow> hosted (as ! unat g) \<longrightarrow> ucast (H (unat (a_id (as ! unat g)))) = G g)"

text \<open>
  The conditions under which the code of \<open>d := s op t\<close> is right: all three registers are held in
  host registers, these are all extended ones or all not, and \<open>d\<close> is not overwritten with \<open>s\<close>
  before it is read as \<open>t\<close>.
\<close>

definition word_ok :: "asm_reg_assoc list \<Rightarrow> u32 \<Rightarrow> bool" where
  "word_ok as w \<longleftrightarrow>
     mips32_get_instr_type w = MIPS_R \<and> mips_funct_alu (mips32_funct w) \<noteq> None \<and> mips_rd w \<noteq> 0 \<and>
     hosted (as ! unat (mips_rd w)) \<and> hosted (as ! unat (mips_rs w)) \<and> hosted (as ! unat (mips_rt w)) \<and>
     (8 \<le> unat (host_of as (mips_rd w)) \<longleftrightarrow> 8 \<le> unat (host_of as (mips_rs w))) \<and>
     (8 \<le> unat (host_of as (mips_rd w)) \<longleftrightarrow> 8 \<le> unat (host_of as (mips_rt w))) \<and>
     (mips_rd w = mips_rs w \<or> mips_rd w \<noteq> mips_rt w)"

lemma hosted_host_of:
  assumes "table_ok 16 as" "hosted (as ! unat g)"
  shows "unat (host_of as g) = unat (a_id (as ! unat g))" "unat (host_of as g) < 16"
proof -
  have "unat (a_id (as ! unat g)) < 16" using assms by (simp add: table_ok_def)
  then show "unat (host_of as g) = unat (a_id (as ! unat g))" "unat (host_of as g) < 16"
    by (simp_all add: host_of_def unsigned_ucast_eq take_bit_nat_eq_self)
qed

lemma hosted_inj:
  assumes "table_ok 16 as" "hosted (as ! unat g)" "hosted (as ! unat g')"
    and "unat (host_of as g) = unat (host_of as g')"
  shows "g = g'"
  using assms hosted_host_of [OF assms(1,2)] hosted_host_of [OF assms(1,3)]
  by (auto simp: table_ok_def word_unat_eq_iff)

lemma word_step:
  assumes "table_ok 16 as" "word_ok as w"
  obtains bss where
    "list_all2 lowers_bytes (r_code (MIPS32_TO_IR_TABLE (mips32_funct w)) as (mips_rd w) (mips_rs w) (mips_rt w)) bss"
    "\<And>H G. sim as H G \<Longrightarrow> \<exists>H' G'. (\<forall>cs. x86_run (concat bss @ cs) H = x86_run cs H') \<and>
       mips_exec w G = Some G' \<and> sim as H' G'"
proof -
  let ?d = "mips_rd w" and ?s = "mips_rs w" and ?t = "mips_rt w"
  from assms(2) obtain alu where alu: "mips_funct_alu (mips32_funct w) = Some alu"
    by (auto simp: word_ok_def)
  then obtain irop where irop: "MIPS32_TO_IR_TABLE (mips32_funct w) = ir_opcode_val irop" "mips_alu irop = Some alu"
    by (rule mips_table_alu)
  from assms(2) have ok: "mips32_get_instr_type w = MIPS_R" "?d \<noteq> 0"
    "hosted (as ! unat ?d)" "hosted (as ! unat ?s)" "hosted (as ! unat ?t)"
    "8 \<le> unat (host_of as ?d) \<longleftrightarrow> 8 \<le> unat (host_of as ?s)"
    "8 \<le> unat (host_of as ?d) \<longleftrightarrow> 8 \<le> unat (host_of as ?t)" "?d = ?s \<or> ?d \<noteq> ?t"
    unfolding word_ok_def by blast+
  note hd = hosted_host_of [OF assms(1) ok(3)] and hs = hosted_host_of [OF assms(1) ok(4)]
    and ht = hosted_host_of [OF assms(1) ok(5)]
  obtain bss where bs: "list_all2 lowers_bytes (r_code (ir_opcode_val irop) as ?d ?s ?t) bss"
    "\<And>cs H. x86_run (concat bss @ cs) H =
       x86_run cs (r_effect alu (unat (host_of as ?d)) (unat (host_of as ?s)) (unat (host_of as ?t)) H)"
    using r_code_run [OF irop(2) hd(2) hs(2) ht(2) ok(6,7)] by metis
  have "\<exists>H' G'. (\<forall>cs. x86_run (concat bss @ cs) H = x86_run cs H') \<and> mips_exec w G = Some G' \<and> sim as H' G'"
    if sim: "sim as H G" for H G
  proof -
    let ?H' = "H(unat (host_of as ?d) := x86_alu_fun alu (H (unat (host_of as ?s))) (H (unat (host_of as ?t))))"
    have "unat (host_of as ?d) = unat (host_of as ?s) \<or> unat (host_of as ?d) \<noteq> unat (host_of as ?t)"
      using hosted_inj [OF assms(1) ok(3,5)] ok(8) by auto
    from r_effect_ok [OF this] have run: "x86_run (concat bss @ cs) H = x86_run cs ?H'" for cs
      using bs(2) by simp
    let ?G' = "G(?d := mips_fun alu (G ?s) (G ?t))"
    have "ucast (x86_alu_fun alu (H (unat (host_of as ?s))) (H (unat (host_of as ?t)))) = mips_fun alu (G ?s) (G ?t)"
      using sim ok(4,5) hs ht mips_field_limit [of w] by (simp add: x86_alu_low sim_def)
    moreover have "unat (a_id (as ! unat g)) \<noteq> unat (host_of as ?d)" if "g \<noteq> ?d" "hosted (as ! unat g)" for g
      using hosted_inj [OF assms(1) that(2) ok(3)] hosted_host_of(1) [OF assms(1) that(2)] that(1) by metis
    ultimately have "sim as ?H' ?G'"
      using sim hd(1) by (auto simp: sim_def)
    moreover have "mips_exec w G = Some ?G'"
      using ok(1,2) alu by (auto simp: mips_exec_def mips_funct_alu_def mips32_funct_def)
    ultimately show ?thesis using run by blast
  qed
  with that [of bss] bs(1) irop(1) show ?thesis by metis
qed

section \<open>Placing a guest word\<close>

lemma place_mips_instr:
  assumes "mips_i64 c" "block_shape b" "unat (ir_cnt b) + 2 \<le> 256"
  obtains b' where "place_instr c (mips_instr w) b = Inr b'" "block_shape b'"
    "unat (ir_cnt b') = unat (ir_cnt b) +
       length (r_code (MIPS32_TO_IR_TABLE (mips32_funct w)) (assoc b') (mips_rd w) (mips_rs w) (mips_rt w))"
    "unat (ir_cnt b') \<le> unat (ir_cnt b) + 2"
    "take (unat (ir_cnt b')) (ir_buf b') = take (unat (ir_cnt b)) (ir_buf b) @
       r_code (MIPS32_TO_IR_TABLE (mips32_funct w)) (assoc b') (mips_rd w) (mips_rs w) (mips_rt w)"
    "\<And>g. ir_reg_assoc_used (assoc b ! g) \<Longrightarrow> assoc b' ! g = assoc b ! g"
    "assoc_inv 16 (assoc b) (state b) \<Longrightarrow> assoc_inv 16 (assoc b') (state b')"
    "tb_type b' = tb_type b" "liveness b' = liveness b"
proof -
  let ?opc = "MIPS32_TO_IR_TABLE (mips32_funct w)"
  obtain sp as st where p:
    "place_instr c (r_instr ?opc (mips_rd w) (mips_rs w) (mips_rt w)) b = Inr (b\<lparr>spill_cnt := sp, assoc := as, state := st,
       ir_buf := take (unat (ir_cnt b)) (ir_buf b) @ r_code ?opc as (mips_rd w) (mips_rs w) (mips_rt w)
         @ drop (unat (ir_cnt b) + length (r_code ?opc as (mips_rd w) (mips_rs w) (mips_rt w))) (ir_buf b),
       ir_cnt := ir_cnt b + of_nat (length (r_code ?opc as (mips_rd w) (mips_rs w) (mips_rt w)))\<rparr>)"
    "length as = IR_REG_LIMIT" "length st = IR_REG_LIMIT"
    "\<And>g. ir_reg_assoc_used (assoc b ! g) \<Longrightarrow> as ! g = assoc b ! g"
    "assoc_inv 16 (assoc b) (state b) \<Longrightarrow> assoc_inv 16 as st"
    using place_r_instr [OF assms mips_field_limit] by metis
  let ?code = "r_code ?opc as (mips_rd w) (mips_rs w) (mips_rt w)"
  have len: "length ?code \<le> 2" "1 \<le> length ?code"
    using r_code_length by blast+
  have "unat (of_nat (length ?code) :: u16) = length ?code"
    using len by (simp add: unat_of_nat)
  then have cnt: "unat (ir_cnt b + of_nat (length ?code)) = unat (ir_cnt b) + length ?code"
    using assms(3) len by (simp add: unat_word_ariths)
  let ?b' = "b\<lparr>spill_cnt := sp, assoc := as, state := st,
       ir_buf := take (unat (ir_cnt b)) (ir_buf b) @ ?code @ drop (unat (ir_cnt b) + length ?code) (ir_buf b),
       ir_cnt := ir_cnt b + of_nat (length ?code)\<rparr>"
  show ?thesis
  proof (rule that [of ?b'])
    show "place_instr c (mips_instr w) b = Inr ?b'" using p(1) by (simp add: mips_instr_def)
    show "block_shape ?b'" using assms(2,3) p(2,3) len by (simp add: block_shape_def)
    show "unat (ir_cnt ?b') = unat (ir_cnt b) + length (r_code ?opc (assoc ?b') (mips_rd w) (mips_rs w) (mips_rt w))"
      "unat (ir_cnt ?b') \<le> unat (ir_cnt b) + 2" using cnt len by simp_all
    show "take (unat (ir_cnt ?b')) (ir_buf ?b') = take (unat (ir_cnt b)) (ir_buf b) @
        r_code ?opc (assoc ?b') (mips_rd w) (mips_rs w) (mips_rt w)"
      using assms(2,3) cnt by (simp add: block_shape_def)
  qed (use p(4,5) in simp_all)
qed

end
