(* ===== verification/Passes.thy ===== *)
theory Passes
  imports Translate
begin

text \<open>
  The passes of a block for MIPS32 guests and the Intel 64 host: what the liveness scan marks,
  when the conversion goes through, and the correctness of the code \<^verbatim>\<open>tblock_emit\<close> leaves in the
  host buffer.
\<close>

section \<open>The two architectures as guest and host\<close>

definition mips_regs_of :: "mte_raw_instr \<Rightarrow> ir_operand_set" where
  "mips_regs_of raw =
    (let w = le32 (payload raw) in
     if mips32_get_instr_type w = MIPS_R \<and> mips32_funct w \<noteq> 0
     then ir_operand_set_zero\<lparr>
       ops := (ops ir_operand_set_zero)[0 := reg_ir_operand (mips32_rd w), 1 := reg_ir_operand (mips32_rs w),
                2 := reg_ir_operand (mips32_rt w)],
       ops_count := 3\<rparr>
     else ir_operand_set_zero)"

interpretation mips_guest: fixed_width_guest mips32_to_ir mips32_reg_fetch mips_regs_of 4
proof
  fix raw l ins len
  show "mips32_reg_fetch (Some raw) True (Some l) = Inr (mips_regs_of raw, Some 4)"
    by (cases "mips32_get_instr_type (le32 (payload raw))")
      (simp_all add: mips32_reg_fetch_def mips_regs_of_def Let_def)
  show "unat (ops_count (mips_regs_of raw)) \<le> length (ops (mips_regs_of raw))"
    by (simp add: mips_regs_of_def Let_def ir_operand_set_zero_def)
  assume "mips32_to_ir (Some raw) True (Some l) = Inr (ins, len)"
  then show "len = Some 4"
    by (cases "mips32_get_instr_type (le32 (payload raw))")
      (simp_all add: mips32_to_ir_def mips32_raw_to_ir_def)
qed simp

interpretation i64_host: host_backend i64_ir_to_raw lowers_bytes
proof
  fix ins bs l
  assume *: "lowers_bytes ins bs"
  then obtain buf' where "i64_ir_to_raw ins True (Some l) = Inr (mte_raw_instr_zero\<lparr>payload := buf'\<rparr>, Some 3)"
    "length buf' = MTE_PAYLOAD_SIZE" "take 3 buf' = bs" "length bs = 3"
    unfolding lowers_bytes_def by blast
  then show "\<exists>raw. i64_ir_to_raw ins True (Some l) = Inr (raw, Some (of_nat (length bs))) \<and>
      length bs \<le> length (payload raw) \<and> take (length bs) (payload raw) = bs"
    by (simp add: MTE_PAYLOAD_SIZE_def)
  show "length bs < 256" "opcode ins \<noteq> ir_opcode_val IR_INVALID_OPCODE"
    using * by (simp_all add: lowers_bytes_def)
qed

text \<open>The registers the scan marks for a word.\<close>

definition mips_uses :: "u32 \<Rightarrow> nat \<Rightarrow> bool" where
  "mips_uses w g \<longleftrightarrow> mips32_get_instr_type w = MIPS_R \<and> mips32_funct w \<noteq> 0 \<and>
     g \<in> {unat (mips_rd w), unat (mips_rs w), unat (mips_rt w)}"

lemma uses_reg_word:
  assumes "ptr + 16 \<le> length (guest_base c)"
  shows "uses_reg (mips_regs_of (guest_instr_at c ptr)) g \<longleftrightarrow> mips_uses (guest_word c ptr) g"
proof -
  have "le32 (payload (guest_instr_at c ptr)) = guest_word c ptr"
    using assms by (auto simp: guest_instr_at_def guest_word_def le32_def nth_append)
  moreover have "replicate 6 x = [x, x, x, x, x, x]" for x :: ir_operand by (simp add: eval_nat_numeral)
  ultimately show ?thesis
    by (auto simp: uses_reg_def mips_regs_of_def mips_uses_def Let_def reg_ir_operand_def
        ir_operand_set_zero_def mips_rd_def mips_rs_def mips_rt_def take_Cons')
qed

lemma mips_scan_spec:
  assumes "mips_i64 c" "guest_ptr c + block_bytes (tb_type b) + 12 \<le> length (guest_base c)"
  shows "\<exists>lv'. tblock_liveness_scan (Some c) (Some b) =
      Inr ((of_nat (block_bytes (tb_type b) div 4), AX_SUCC), Some (b\<lparr>liveness := lv'\<rparr>)) \<and>
    length lv' = length (liveness b) \<and>
    (\<forall>g < length (liveness b). \<forall>i. bit (lv' ! g) i \<longleftrightarrow> bit (liveness b ! g) i \<or>
       i < 8 \<and> (\<exists>j < block_bytes (tb_type b) div 4. 4 * j div frag_bytes (tb_type b) = i \<and>
          mips_uses (guest_word c (guest_ptr c + 4 * j)) g))"
proof -
  let ?n = "block_bytes (tb_type b) div 4"
  have n: "4 * ?n = block_bytes (tb_type b)" "?n \<le> 128" by (cases "tb_type b"; simp)+
  have "guest_reg_fetch c = Some mips32_reg_fetch" using assms(1) by (simp add: mips_i64_def)
  from mips_guest.scan_spec [OF this, of ?n b] n(1) assms(2) obtain lv' where
    r: "tblock_liveness_scan (Some c) (Some b) = Inr ((ucast (of_nat ?n :: u16), AX_SUCC), Some (b\<lparr>liveness := lv'\<rparr>))"
      "length lv' = length (liveness b)"
      "\<And>g i. g < length (liveness b) \<Longrightarrow> bit (lv' ! g) i \<longleftrightarrow> bit (liveness b ! g) i \<or>
         i < 8 \<and> (\<exists>j < ?n. 4 * j div frag_bytes (tb_type b) = i \<and>
          uses_reg (mips_regs_of (guest_instr_at c (guest_ptr c + 4 * j))) g)"
    by auto
  have "uses_reg (mips_regs_of (guest_instr_at c (guest_ptr c + 4 * j))) g \<longleftrightarrow>
      mips_uses (guest_word c (guest_ptr c + 4 * j)) g" if "j < ?n" for j g
    using that assms(2) n(1) by (intro uses_reg_word) simp
  moreover have "(ucast (of_nat ?n :: u16) :: u32) = of_nat ?n"
    using n(2) by (simp add: word_unat_eq_iff unat_ucast_up unat_of_nat)
  ultimately show ?thesis using r by (intro exI [of _ lv']) (auto simp del: of_nat_div)
qed

section \<open>The conversion pass as a loop over words\<close>

definition block_words :: "tblock_type \<Rightarrow> nat" where
  "block_words ty = block_bytes ty div 4"

definition flush_after :: "ir_context \<Rightarrow> tblock_type \<Rightarrow> nat \<Rightarrow> tblock \<Rightarrow> tblock res" where
  "flush_after c ty k b =
    (if 4 * Suc k div frag_bytes ty \<noteq> 4 * k div frag_bytes ty then
       and_then (asm_flush_by_liveness (Some c) (of_nat (4 * k div frag_bytes ty)) (Some (liveness b))
                   (Some (assoc b)) (Some (state b)))
         (\<lambda>(as, st). Inr (b\<lparr>assoc := the as, state := the st\<rparr>))
     else Inr b)"

definition word_conv :: "ir_context \<Rightarrow> tblock_type \<Rightarrow> nat \<Rightarrow> u32 \<Rightarrow> tblock \<Rightarrow> tblock res" where
  "word_conv c ty k w b =
    (if mips32_get_instr_type w \<noteq> MIPS_R then Inl Assert_Fail
     else and_then (if MIPS32_TO_IR_TABLE (mips32_funct w) = ir_opcode_val IR_INVALID_OPCODE then Inr b
                    else place_instr c (mips_instr w) b) (flush_after c ty k))"

fun conv_all :: "ir_context \<Rightarrow> tblock_type \<Rightarrow> nat \<Rightarrow> u32 list \<Rightarrow> tblock \<Rightarrow> tblock res" where
  "conv_all c ty k [] b = Inr b"
| "conv_all c ty k (w # ws) b = and_then (word_conv c ty k w b) (conv_all c ty (Suc k) ws)"

definition words_of :: "ir_context \<Rightarrow> tblock_type \<Rightarrow> u32 list" where
  "words_of c ty = map (\<lambda>k. guest_word c (guest_ptr c + 4 * k)) [0..<block_words ty]"

definition conv_at :: "u8 \<Rightarrow> tblock_type \<Rightarrow> nat \<Rightarrow> tblock \<Rightarrow> conv_state" where
  "conv_at l ty k b = \<lparr>cv_guest_len = l, cv_blk_i = of_nat (4 * k div frag_bytes ty),
     cv_bytes = of_nat (4 * k), cv_block = b\<rparr>"

lemma block_words_simps [simp]: "block_words TBLOCK_BIG = 128" "block_words TBLOCK_SMALL = 32"
  by (simp_all add: block_words_def)

lemma block_words_bytes: "4 * block_words ty = block_bytes ty"
  by (cases ty; simp)

lemma conv_body_word:
  assumes "mips_i64 c" "k < block_words ty"
    and "guest_ptr c + 4 * k + 16 \<le> length (guest_base c)"
  shows "conv_body c (tblock_frag_calc ty) (guest_ptr c + 4 * k) (conv_at l ty k b) =
    and_then (word_conv c ty k (guest_word c (guest_ptr c + 4 * k)) b) (\<lambda>b'. Inr (conv_at 4 ty (Suc k) b', 4))"
proof -
  let ?w = "guest_word c (guest_ptr c + 4 * k)"
  obtain raw where raw: "load_guest_instr c (guest_ptr c + 4 * k) = Inr raw" "le32 (payload raw) = ?w"
    using load_guest_instr_word [OF assms(3)] by blast
  have k: "4 * Suc k \<le> block_bytes ty" "4 * k \<le> block_bytes ty"
    using assms(2) block_words_bytes [of ty] by simp_all
  have bytes: "of_nat (4 * k) + ucast (4 :: u8) = (of_nat (4 * Suc k) :: u32)" by simp
  have ne: "(of_nat (4 * Suc k div frag_bytes ty) :: u8) - of_nat (4 * k div frag_bytes ty) \<noteq> 0 \<longleftrightarrow>
      4 * Suc k div frag_bytes ty \<noteq> 4 * k div frag_bytes ty"
    unfolding right_minus_eq unfolding word_unat_eq_iff
    using frag_index(2) [OF k(1)] frag_index(2) [OF k(2)] by (simp add: unat_of_nat)
  have cross: "and_then (cross_fragment c (tblock_frag_calc ty) ((conv_at l ty k b)\<lparr>cv_guest_len := 4, cv_block := b1\<rparr>))
      (\<lambda>s'. Inr (s', 4)) = and_then (flush_after c ty k b1) (\<lambda>b'. Inr (conv_at 4 ty (Suc k) b', 4 :: u8))" for b1
  proof -
    have next_i: "ucast ((of_nat (4 * Suc k) :: u32) div tblock_frag_calc ty) = (of_nat (4 * Suc k div frag_bytes ty) :: u8)"
      by (rule frag_index(1) [OF k(1)])
    show ?thesis
      unfolding cross_fragment_def conv_at_def flush_after_def Let_def
      by (simp only: conv_state.simps bytes next_i ne split: if_split)
        (auto simp: and_then_assoc case_prod_beta)
  qed
  show ?thesis
    using raw(1) cross
    by (simp add: conv_body_def mips_call [OF assms(1) raw(2)] word_conv_def mips_instr_def r_instr_def
        conv_at_def and_then_assoc)
qed

lemma conv_body_len:
  assumes "mips_i64 c"
  shows "conv_body c frag ptr s =
    and_then (and_then (conv_body c frag ptr s) (\<lambda>(s', len). Inr s')) (\<lambda>s'. Inr (s', 4))"
proof (cases "conv_body c frag ptr s")
  case (Inr r)
  then have "snd r = 4"
    using assms mips_guest.to_ir_len
    by (fastforce simp: conv_body_def call_guest_to_ir_def mips_i64_def)
  with Inr show ?thesis by (simp add: case_prod_beta) (metis prod.collapse)
qed simp

lemma conv_fold:
  assumes "mips_i64 c" "guest_ptr c + block_bytes ty + 12 \<le> length (guest_base c)"
    and "f = (\<lambda>k s. and_then (conv_body c (tblock_frag_calc ty) (guest_ptr c + 4 * k) s) (\<lambda>(s', len). Inr s'))"
  shows "k \<le> block_words ty \<Longrightarrow>
    and_then (fold_res f [k..<block_words ty] (conv_at l ty k b)) (\<lambda>s. Inr (cv_block s)) =
    conv_all c ty k (map (\<lambda>k. guest_word c (guest_ptr c + 4 * k)) [k..<block_words ty]) b"
proof (induction "block_words ty - k" arbitrary: k l b)
  case 0
  then show ?case by (simp add: conv_at_def)
next
  case (Suc d)
  then have k: "k < block_words ty" by simp
  then have "guest_ptr c + 4 * k + 16 \<le> length (guest_base c)"
    using assms(2) block_words_bytes [of ty] by simp
  from conv_body_word [OF assms(1) k this, of l b]
  have f: "f k (conv_at l ty k b) =
      and_then (word_conv c ty k (guest_word c (guest_ptr c + 4 * k)) b) (\<lambda>b'. Inr (conv_at 4 ty (Suc k) b'))"
    by (simp add: assms(3) and_then_assoc)
  have upt: "[k..<block_words ty] = k # [Suc k..<block_words ty]" using k by (simp add: upt_conv_Cons)
  show ?case
  proof (cases "word_conv c ty k (guest_word c (guest_ptr c + 4 * k)) b")
    case (Inl e)
    with f show ?thesis unfolding upt by simp
  next
    case (Inr b')
    have "and_then (fold_res f [Suc k..<block_words ty] (conv_at 4 ty (Suc k) b')) (\<lambda>s. Inr (cv_block s)) =
        conv_all c ty (Suc k) (map (\<lambda>k. guest_word c (guest_ptr c + 4 * k)) [Suc k..<block_words ty]) b'"
      using Suc k by (intro Suc.hyps(1)) simp_all
    with f Inr show ?thesis unfolding upt by simp
  qed
qed

text \<open>The conversion pass converts the words of the block one after another.\<close>

lemma raw_to_ir_words:
  assumes "mips_i64 c" "guest_ptr c + block_bytes (tb_type b) + 12 \<le> length (guest_base c)"
  shows "tblock_raw_to_ir (Some c) (Some b) =
    and_then (conv_all c (tb_type b) 0 (words_of c (tb_type b)) b)
      (\<lambda>b'. Inr ((ucast (ir_cnt b'), AX_SUCC), Some b'))"
proof -
  let ?ty = "tb_type b"
  let ?f = "\<lambda>k s. and_then (conv_body c (tblock_frag_calc ?ty) (guest_ptr c + 4 * k) s) (\<lambda>(s', len). Inr s')"
  let ?s0 = "conv_at 0 ?ty 0 b"
  have ceil: "tblock_ceil c b = guest_ptr c + unat (4 :: u8) * block_words ?ty"
    using block_words_bytes [of ?ty] by (simp add: tblock_ceil_def block_bytes_def)
  have "pass_loop (conv_body c (tblock_frag_calc ?ty)) (guest_ptr c + unat (4 :: u8) * block_words ?ty)
      (guest_ptr c + unat (4 :: u8) * 0) 0 ?s0 =
    and_then (fold_res ?f [0..<block_words ?ty] ?s0) (\<lambda>s'. Inr (s', 0 + of_nat (block_words ?ty - 0)))"
    using conv_body_len [OF assms(1)] by (intro pass_loop_steps) simp_all
  moreover have "?s0 = \<lparr>cv_guest_len = 0, cv_blk_i = 0, cv_bytes = 0, cv_block = b\<rparr>"
    by (simp add: conv_at_def)
  moreover have "conv_all c ?ty 0 (words_of c ?ty) b =
      and_then (fold_res ?f [0..<block_words ?ty] ?s0) (\<lambda>s. Inr (cv_block s))"
    unfolding words_of_def by (rule conv_fold [OF assms, symmetric]) simp_all
  ultimately show ?thesis
    by (cases "fold_res ?f [0..<block_words ?ty] ?s0") (auto simp: tblock_raw_to_ir_def ceil)
qed

section \<open>When the conversion goes through\<close>

lemma flush_after_ok:
  assumes "mips_i64 c" "block_shape b"
  obtains as st where "flush_after c ty k b = Inr (b\<lparr>assoc := as, state := st\<rparr>)"
    "length as = IR_REG_LIMIT" "length st = IR_REG_LIMIT"
proof (cases "4 * Suc k div frag_bytes ty \<noteq> 4 * k div frag_bytes ty")
  case True
  have "guest_map c = Some MIPS32_CPU_REG_MAP" using assms(1) by (simp add: mips_i64_def)
  from asm_flush_by_liveness_spec [OF mips_reg_ids_wf this, of "of_nat (4 * k div frag_bytes ty)"
      "liveness b" "assoc b" "state b"]
  obtain as st where "asm_flush_by_liveness (Some c) (of_nat (4 * k div frag_bytes ty)) (Some (liveness b))
      (Some (assoc b)) (Some (state b)) = Inr (Some as, Some st)"
    "length as = length (assoc b)" "length st = length (state b)" by blast
  with that [where as = as and st = st] True assms(2) show ?thesis by (simp add: flush_after_def block_shape_def)
next
  case False
  with that [where as = "assoc b" and st = "state b"] assms(2) show ?thesis by (simp add: flush_after_def block_shape_def)
qed

text \<open>
  The IR buffer has room for two instructions per word, so register instructions always
  convert; any other instruction stops the program.
\<close>

lemma conv_all_total:
  assumes "mips_i64 c"
  shows "block_shape b \<Longrightarrow> unat (ir_cnt b) + 2 * length ws \<le> 256 \<Longrightarrow>
    list_all (\<lambda>w. mips32_get_instr_type w = MIPS_R) ws \<Longrightarrow>
    \<exists>b'. conv_all c ty k ws b = Inr b' \<and> block_shape b' \<and> tb_type b' = tb_type b \<and>
      unat (ir_cnt b) \<le> unat (ir_cnt b') \<and> unat (ir_cnt b') \<le> unat (ir_cnt b) + 2 * length ws \<and>
      take (unat (ir_cnt b)) (ir_buf b') = take (unat (ir_cnt b)) (ir_buf b)"
proof (induction ws arbitrary: b k)
  case Nil
  then show ?case by simp
next
  case (Cons w ws)
  have room: "unat (ir_cnt b) + 2 \<le> 256" using Cons.prems(2) by simp
  obtain b1 where b1: "(if MIPS32_TO_IR_TABLE (mips32_funct w) = ir_opcode_val IR_INVALID_OPCODE then Inr b
        else place_instr c (mips_instr w) b) = Inr b1" "block_shape b1" "tb_type b1 = tb_type b"
      "unat (ir_cnt b) \<le> unat (ir_cnt b1)" "unat (ir_cnt b1) \<le> unat (ir_cnt b) + 2"
      "take (unat (ir_cnt b)) (ir_buf b1) = take (unat (ir_cnt b)) (ir_buf b)"
  proof (cases "MIPS32_TO_IR_TABLE (mips32_funct w) = ir_opcode_val IR_INVALID_OPCODE")
    case True
    with that [of b] Cons.prems(1) show ?thesis by simp
  next
    case False
    obtain b1 where p: "place_instr c (mips_instr w) b = Inr b1" "block_shape b1"
      "unat (ir_cnt b1) = unat (ir_cnt b) +
         length (r_code (MIPS32_TO_IR_TABLE (mips32_funct w)) (assoc b1) (mips_rd w) (mips_rs w) (mips_rt w))"
      "unat (ir_cnt b1) \<le> unat (ir_cnt b) + 2"
      "take (unat (ir_cnt b1)) (ir_buf b1) = take (unat (ir_cnt b)) (ir_buf b) @
         r_code (MIPS32_TO_IR_TABLE (mips32_funct w)) (assoc b1) (mips_rd w) (mips_rs w) (mips_rt w)"
      "tb_type b1 = tb_type b"
      using place_mips_instr [OF assms Cons.prems(1) room, of w] by metis
    from p(3) have "take (unat (ir_cnt b)) (ir_buf b1) = take (unat (ir_cnt b)) (take (unat (ir_cnt b1)) (ir_buf b1))"
      by (simp add: min_def)
    then have "take (unat (ir_cnt b)) (ir_buf b1) = take (unat (ir_cnt b)) (ir_buf b)"
      using Cons.prems(1) room by (simp add: p(5) block_shape_def)
    with that [of b1] False p show ?thesis by simp
  qed
  obtain as st where fl: "flush_after c ty k b1 = Inr (b1\<lparr>assoc := as, state := st\<rparr>)"
    "length as = IR_REG_LIMIT" "length st = IR_REG_LIMIT"
    using flush_after_ok [OF assms b1(2)] by metis
  let ?b2 = "b1\<lparr>assoc := as, state := st\<rparr>"
  have shape: "block_shape ?b2" using b1(2) fl(2,3) by (simp add: block_shape_def)
  have "unat (ir_cnt ?b2) + 2 * length ws \<le> 256" using Cons.prems(2) b1(5) by simp
  from Cons.IH [OF shape this, of "Suc k"] Cons.prems(3) obtain b' where
    r: "conv_all c ty (Suc k) ws ?b2 = Inr b'" "block_shape b'" "tb_type b' = tb_type b1"
      "unat (ir_cnt b1) \<le> unat (ir_cnt b')" "unat (ir_cnt b') \<le> unat (ir_cnt b1) + 2 * length ws"
      "take (unat (ir_cnt b1)) (ir_buf b') = take (unat (ir_cnt b1)) (ir_buf b1)"
    by auto
  have "take (unat (ir_cnt b)) (ir_buf b') = take (unat (ir_cnt b)) (take (unat (ir_cnt b1)) (ir_buf b'))"
    using b1(4) by (simp add: min_def)
  also have "\<dots> = take (unat (ir_cnt b)) (ir_buf b1)"
    unfolding r(6) using b1(4) by (simp add: min_def)
  finally have "take (unat (ir_cnt b)) (ir_buf b') = take (unat (ir_cnt b)) (ir_buf b)" using b1(6) by simp
  moreover have "conv_all c ty k (w # ws) b = Inr b'"
    using Cons.prems(3) b1(1) fl(1) r(1) by (simp add: word_conv_def)
  ultimately show ?case using r b1 by auto
qed

lemma conv_all_append:
  "conv_all c ty k (us @ vs) b = and_then (conv_all c ty k us b) (conv_all c ty (k + length us) vs)"
proof (induction us arbitrary: k b)
  case (Cons w us)
  then show ?case by (cases "word_conv c ty k w b") simp_all
qed simp

lemma conv_all_not_R:
  assumes "mips_i64 c" "list_all (\<lambda>w. mips32_get_instr_type w = MIPS_R) us" "mips32_get_instr_type w \<noteq> MIPS_R"
    and "block_shape b" "unat (ir_cnt b) + 2 * length us \<le> 256"
  shows "conv_all c ty k (us @ w # ws) b = Inl Assert_Fail"
proof -
  obtain b' where "conv_all c ty k us b = Inr b'"
    using conv_all_total [OF assms(1,4,5,2)] by blast
  with assms(3) show ?thesis by (simp add: conv_all_append word_conv_def)
qed

section \<open>Correctness of the emitted code\<close>

definition agrees :: "asm_reg_assoc list \<Rightarrow> asm_reg_assoc list \<Rightarrow> u32 \<Rightarrow> bool" where
  "agrees as as1 w \<longleftrightarrow> as1 ! unat (mips_rd w) = as ! unat (mips_rd w) \<and>
     as1 ! unat (mips_rs w) = as ! unat (mips_rs w) \<and> as1 ! unat (mips_rt w) = as ! unat (mips_rt w)"

text \<open>
  The condition on a block, along its conversion: every word is a \<^verbatim>\<open>nop\<close> or an instruction that
  is right under the table \<open>as\<close>, and was given the host registers \<open>as\<close> has for its operands.
\<close>

fun conv_ok :: "ir_context \<Rightarrow> tblock_type \<Rightarrow> asm_reg_assoc list \<Rightarrow> nat \<Rightarrow> u32 list \<Rightarrow> tblock \<Rightarrow> bool" where
  "conv_ok c ty as k [] b \<longleftrightarrow> True"
| "conv_ok c ty as k (w # ws) b \<longleftrightarrow>
     (if w = 0 then
        (case flush_after c ty k b of Inl e \<Rightarrow> False | Inr b' \<Rightarrow> conv_ok c ty as (Suc k) ws b')
      else
        word_ok as w \<and>
        (case place_instr c (mips_instr w) b of Inl e \<Rightarrow> False
         | Inr b1 \<Rightarrow> agrees as (assoc b1) w \<and>
            (case flush_after c ty k b1 of Inl e \<Rightarrow> False | Inr b' \<Rightarrow> conv_ok c ty as (Suc k) ws b')))"

text \<open>What a converted word contributes: the code, and what the code does.\<close>

definition code_ok :: "asm_reg_assoc list \<Rightarrow> ir_raw_instr list \<Rightarrow> u8 list list \<Rightarrow> u32 list \<Rightarrow> bool" where
  "code_ok as irs bss ws \<longleftrightarrow> list_all2 lowers_bytes irs bss \<and>
     (\<forall>H G. sim as H G \<longrightarrow>
       (\<exists>H' G'. (\<forall>cs. x86_run (concat bss @ cs) H = x86_run cs H') \<and> mips_run ws G = Some G' \<and> sim as H' G'))"

lemma code_ok_Nil: "code_ok as [] [] []"
  by (auto simp: code_ok_def)

lemma code_ok_nop: "code_ok as irs bss ws \<Longrightarrow> code_ok as irs bss (0 # ws)"
  by (simp add: code_ok_def mips_exec_def)

lemma code_ok_append:
  assumes "code_ok as irs bss [w]" "code_ok as irs' bss' ws"
  shows "code_ok as (irs @ irs') (bss @ bss') (w # ws)"
proof -
  have "\<exists>H' G'. (\<forall>cs. x86_run (concat (bss @ bss') @ cs) H = x86_run cs H') \<and>
      mips_run (w # ws) G = Some G' \<and> sim as H' G'" if "sim as H G" for H G
  proof -
    obtain H1 G1 where 1: "\<And>cs. x86_run (concat bss @ cs) H = x86_run cs H1" "mips_exec w G = Some G1" "sim as H1 G1"
      using assms(1) \<open>sim as H G\<close> unfolding code_ok_def by (force split: option.splits)
    obtain H2 G2 where "\<And>cs. x86_run (concat bss' @ cs) H1 = x86_run cs H2" "mips_run ws G1 = Some G2" "sim as H2 G2"
      using assms(2) 1(3) unfolding code_ok_def by blast
    with 1 show ?thesis by auto
  qed
  with assms show ?thesis by (auto simp: code_ok_def intro: list_all2_appendI)
qed

lemma agrees_code:
  "agrees as as1 w \<Longrightarrow> r_code opc as1 (mips_rd w) (mips_rs w) (mips_rt w) = r_code opc as (mips_rd w) (mips_rs w) (mips_rt w)"
  by (simp add: agrees_def r_code_def host_of_def)

lemma word_ok_table:
  "word_ok as w \<Longrightarrow> mips32_get_instr_type w = MIPS_R \<and> MIPS32_TO_IR_TABLE (mips32_funct w) \<noteq> ir_opcode_val IR_INVALID_OPCODE"
  by (auto simp: word_ok_def elim!: mips_table_alu dest!: mips_alu_facts(5))

lemma nop_word: "mips32_get_instr_type 0 = MIPS_R" "MIPS32_TO_IR_TABLE (mips32_funct 0) = ir_opcode_val IR_INVALID_OPCODE"
  by (simp_all add: mips32_get_instr_type_def mips32_opcode_def mips32_funct_def MIPS32_TO_IR_TABLE_def)

text \<open>The IR of a sequence of words under one table.\<close>

fun words_irs :: "asm_reg_assoc list \<Rightarrow> u32 list \<Rightarrow> ir_raw_instr list" where
  "words_irs as [] = []"
| "words_irs as (w # ws) =
    (if w = 0 then []
     else r_code (MIPS32_TO_IR_TABLE (mips32_funct w)) as (mips_rd w) (mips_rs w) (mips_rt w)) @ words_irs as ws"

lemma words_irs_nops: "words_irs as (ws @ replicate n 0) = words_irs as ws"
proof (induction ws)
  case Nil
  show ?case by (induction n) simp_all
qed simp

lemma length_words_irs: "length (words_irs as ws) \<le> 2 * length ws"
proof (induction ws)
  case (Cons w ws)
  then show ?case using r_code_length(1) [of "MIPS32_TO_IR_TABLE (mips32_funct w)" as] by (auto intro: add_mono order_trans)
qed simp

theorem conv_all_correct:
  assumes "mips_i64 c" "table_ok 16 as"
  shows "block_shape b \<Longrightarrow> unat (ir_cnt b) + 2 * length ws \<le> 256 \<Longrightarrow> conv_ok c ty as k ws b \<Longrightarrow>
    \<exists>b' bss. conv_all c ty k ws b = Inr b' \<and> block_shape b' \<and>
      unat (ir_cnt b') = unat (ir_cnt b) + length (words_irs as ws) \<and>
      take (unat (ir_cnt b')) (ir_buf b') = take (unat (ir_cnt b)) (ir_buf b) @ words_irs as ws \<and>
      code_ok as (words_irs as ws) bss ws"
proof (induction ws arbitrary: b k)
  case Nil
  show ?case using Nil code_ok_Nil by (intro exI [of _ b] exI [of _ "[]"]) simp
next
  case (Cons w ws)
  show ?case
  proof (cases "w = 0")
    case True
    obtain as' st where fl: "flush_after c ty k b = Inr (b\<lparr>assoc := as', state := st\<rparr>)"
      "length as' = IR_REG_LIMIT" "length st = IR_REG_LIMIT"
      using flush_after_ok [OF assms(1) Cons.prems(1)] by metis
    let ?b1 = "b\<lparr>assoc := as', state := st\<rparr>"
    have "block_shape ?b1" "unat (ir_cnt ?b1) + 2 * length ws \<le> 256" "conv_ok c ty as (Suc k) ws ?b1"
      using Cons.prems fl True by (simp_all add: block_shape_def)
    from Cons.IH [OF this] obtain b' bss where "conv_all c ty (Suc k) ws ?b1 = Inr b'" "block_shape b'"
      "unat (ir_cnt b') = unat (ir_cnt b) + length (words_irs as ws)"
      "take (unat (ir_cnt b')) (ir_buf b') = take (unat (ir_cnt b)) (ir_buf b) @ words_irs as ws"
      "code_ok as (words_irs as ws) bss ws"
      by auto
    with True fl(1) code_ok_nop show ?thesis by (force simp: word_conv_def nop_word)
  next
    case False
    let ?opc = "MIPS32_TO_IR_TABLE (mips32_funct w)"
    have room: "unat (ir_cnt b) + 2 \<le> 256" using Cons.prems(2) by simp
    obtain b1 where p: "place_instr c (mips_instr w) b = Inr b1" "block_shape b1"
      "unat (ir_cnt b1) = unat (ir_cnt b) + length (r_code ?opc (assoc b1) (mips_rd w) (mips_rs w) (mips_rt w))"
      "unat (ir_cnt b1) \<le> unat (ir_cnt b) + 2"
      "take (unat (ir_cnt b1)) (ir_buf b1) = take (unat (ir_cnt b)) (ir_buf b) @
         r_code ?opc (assoc b1) (mips_rd w) (mips_rs w) (mips_rt w)"
      using place_mips_instr [OF assms(1) Cons.prems(1) room, of w] by metis
    from Cons.prems(3) False p(1) have ok: "word_ok as w" "agrees as (assoc b1) w" by simp_all
    note code = p(3,5) [unfolded agrees_code [OF ok(2)]]
    let ?irs = "r_code ?opc as (mips_rd w) (mips_rs w) (mips_rt w)"
    obtain as' st where fl: "flush_after c ty k b1 = Inr (b1\<lparr>assoc := as', state := st\<rparr>)"
      "length as' = IR_REG_LIMIT" "length st = IR_REG_LIMIT"
      using flush_after_ok [OF assms(1) p(2)] by metis
    let ?b2 = "b1\<lparr>assoc := as', state := st\<rparr>"
    have "block_shape ?b2" "unat (ir_cnt ?b2) + 2 * length ws \<le> 256" "conv_ok c ty as (Suc k) ws ?b2"
      using Cons.prems fl False p by (simp_all add: block_shape_def)
    from Cons.IH [OF this] obtain b' bss where r: "conv_all c ty (Suc k) ws ?b2 = Inr b'" "block_shape b'"
      "unat (ir_cnt b') = unat (ir_cnt b1) + length (words_irs as ws)"
      "take (unat (ir_cnt b')) (ir_buf b') = take (unat (ir_cnt b1)) (ir_buf b1) @ words_irs as ws"
      "code_ok as (words_irs as ws) bss ws"
      by auto
    obtain bss1 where bss1: "list_all2 lowers_bytes ?irs bss1"
      "\<And>H G. sim as H G \<Longrightarrow> \<exists>H' G'. (\<forall>cs. x86_run (concat bss1 @ cs) H = x86_run cs H') \<and>
         mips_exec w G = Some G' \<and> sim as H' G'"
      using word_step [OF assms(2) ok(1)] by metis
    then have "code_ok as ?irs bss1 [w]" unfolding code_ok_def by fastforce
    from code_ok_append [OF this r(5)] have "code_ok as (?irs @ words_irs as ws) (bss1 @ bss) (w # ws)" .
    moreover have "conv_all c ty k (w # ws) b = Inr b'"
      using word_ok_table [OF ok(1)] p(1) fl(1) r(1) by (simp add: word_conv_def)
    ultimately show ?thesis using r(2-4) code False by (intro exI [of _ b']) auto
  qed
qed

section \<open>Blocks that convert under one table\<close>

text \<open>
  Once the registers \<open>R\<close> of a run of words have their associations, the run keeps them, as long
  as they are live in every fragment it leaves.
\<close>

lemma conv_ok_steady:
  assumes "mips_i64 c" "\<forall>g \<in> R. ir_reg_assoc_used (as ! g)"
  shows "block_shape b \<Longrightarrow> unat (ir_cnt b) + 2 * length ws \<le> 256 \<Longrightarrow>
    \<forall>w \<in> set ws. w = 0 \<or> word_ok as w \<and> {unat (mips_rd w), unat (mips_rs w), unat (mips_rt w)} \<subseteq> R \<Longrightarrow>
    \<forall>g \<in> R. g < IR_REG_LIMIT \<and> assoc b ! g = as ! g \<Longrightarrow>
    \<forall>j < length ws. 4 * Suc (k + j) div frag_bytes ty \<noteq> 4 * (k + j) div frag_bytes ty \<longrightarrow>
       (\<forall>g \<in> R. \<not> dead_in (BIT (4 * (k + j) div frag_bytes ty)) (liveness b) g) \<Longrightarrow>
    k + length ws \<le> block_words ty \<Longrightarrow>
    conv_ok c ty as k ws b"
proof (induction ws arbitrary: b k)
  case Nil
  then show ?case by simp
next
  case (Cons w ws)
  obtain b1 where b1: "w = 0 \<and> b1 = b \<or> w \<noteq> 0 \<and> place_instr c (mips_instr w) b = Inr b1" "block_shape b1"
    "unat (ir_cnt b1) \<le> unat (ir_cnt b) + 2" "\<forall>g \<in> R. assoc b1 ! g = as ! g" "liveness b1 = liveness b"
  proof (cases "w = 0")
    case True
    with that [of b] Cons.prems(1,4) show ?thesis by simp
  next
    case False
    have "unat (ir_cnt b) + 2 \<le> 256" using Cons.prems(2) by simp
    from place_mips_instr [OF assms(1) Cons.prems(1) this, of w] obtain b1 where
      "place_instr c (mips_instr w) b = Inr b1" "block_shape b1" "unat (ir_cnt b1) \<le> unat (ir_cnt b) + 2"
      "\<And>g. ir_reg_assoc_used (assoc b ! g) \<Longrightarrow> assoc b1 ! g = assoc b ! g" "liveness b1 = liveness b"
      by metis
    with that [of b1] False Cons.prems(4) assms(2) show ?thesis by simp
  qed
  obtain as' st where fl: "flush_after c ty k b1 = Inr (b1\<lparr>assoc := as', state := st\<rparr>)"
    "length as' = IR_REG_LIMIT" "length st = IR_REG_LIMIT" "\<forall>g \<in> R. as' ! g = as ! g"
  proof (cases "4 * Suc k div frag_bytes ty \<noteq> 4 * k div frag_bytes ty")
    case True
    have k: "4 * k \<le> block_bytes ty" using Cons.prems(6) block_words_bytes [of ty] by simp
    have alive: "\<forall>g \<in> R. \<not> dead_in (BIT (4 * k div frag_bytes ty)) (liveness b1) g"
      using Cons.prems(5) True b1(5) by (auto dest: spec [of _ 0])
    have map: "guest_map c = Some MIPS32_CPU_REG_MAP" using assms(1) by (simp add: mips_i64_def)
    from asm_flush_by_liveness_spec [OF mips_reg_ids_wf map, of "of_nat (4 * k div frag_bytes ty)"
        "liveness b1" "assoc b1" "state b1"]
    obtain as' st where f: "asm_flush_by_liveness (Some c) (of_nat (4 * k div frag_bytes ty)) (Some (liveness b1))
        (Some (assoc b1)) (Some (state b1)) = Inr (Some as', Some st)"
      "length as' = length (assoc b1)" "length st = length (state b1)"
      "\<forall>g < length (assoc b1). as' ! g = (if g < length (reg_root MIPS32_CPU_REG_MAP) \<and>
          dead_in (BIT (unat (of_nat (4 * k div frag_bytes ty) :: u8))) (liveness b1) g
        then asm_reg_assoc_zero else assoc b1 ! g)" by blast
    have "unat (of_nat (4 * k div frag_bytes ty) :: u8) = 4 * k div frag_bytes ty"
      using frag_index(2) [OF k] by (simp add: unat_of_nat)
    with f(4) alive b1(2,4) Cons.prems(4) have "\<forall>g \<in> R. as' ! g = as ! g" by (simp add: block_shape_def)
    with that [where as' = as' and st = st] f(1-3) True b1(2) show ?thesis
      by (simp add: flush_after_def block_shape_def)
  next
    case False
    with that [where as' = "assoc b1" and st = "state b1"] b1(2,4) show ?thesis
      by (simp add: flush_after_def block_shape_def)
  qed
  let ?b2 = "b1\<lparr>assoc := as', state := st\<rparr>"
  have "conv_ok c ty as (Suc k) ws ?b2"
  proof (rule Cons.IH)
    show "block_shape ?b2" using b1(2) fl(2,3) by (simp add: block_shape_def)
    show "unat (ir_cnt ?b2) + 2 * length ws \<le> 256" using b1(3) Cons.prems(2) by simp
    show "\<forall>j < length ws. 4 * Suc (Suc k + j) div frag_bytes ty \<noteq> 4 * (Suc k + j) div frag_bytes ty \<longrightarrow>
       (\<forall>g \<in> R. \<not> dead_in (BIT (4 * (Suc k + j) div frag_bytes ty)) (liveness ?b2) g)"
    proof (intro allI impI ballI)
      fix j g
      assume "j < length ws" "4 * Suc (Suc k + j) div frag_bytes ty \<noteq> 4 * (Suc k + j) div frag_bytes ty" "g \<in> R"
      with Cons.prems(5) [rule_format, of "Suc j" g] b1(5)
      show "\<not> dead_in (BIT (4 * (Suc k + j) div frag_bytes ty)) (liveness ?b2) g" by simp
    qed
  qed (use Cons.prems fl in auto)
  then show ?case using b1 fl(1) Cons.prems(3) by (auto simp: agrees_def)
qed

lemma conv_ok_nops:
  assumes "mips_i64 c"
  shows "block_shape b \<Longrightarrow> conv_ok c ty as k (replicate n 0) b"
proof (induction n arbitrary: b k)
  case (Suc n)
  obtain as' st where "flush_after c ty k b = Inr (b\<lparr>assoc := as', state := st\<rparr>)"
    "length as' = IR_REG_LIMIT" "length st = IR_REG_LIMIT" using flush_after_ok [OF assms Suc.prems] by metis
  with Suc show ?case by (simp add: block_shape_def)
qed simp

lemma conv_ok_append_nops:
  assumes "mips_i64 c"
  shows "block_shape b \<Longrightarrow> unat (ir_cnt b) + 2 * length ws \<le> 256 \<Longrightarrow> conv_ok c ty as k ws b \<Longrightarrow>
    conv_ok c ty as k (ws @ replicate n 0) b"
proof (induction ws arbitrary: b k)
  case Nil
  then show ?case using conv_ok_nops [OF assms] by simp
next
  case (Cons w ws)
  have fl: "\<exists>as' st. flush_after c ty k b1 = Inr (b1\<lparr>assoc := as', state := st\<rparr>) \<and> block_shape (b1\<lparr>assoc := as', state := st\<rparr>)"
    if sh: "block_shape b1" for b1
  proof -
    obtain as' st where "flush_after c ty k b1 = Inr (b1\<lparr>assoc := as', state := st\<rparr>)"
      "length as' = IR_REG_LIMIT" "length st = IR_REG_LIMIT" using flush_after_ok [OF assms sh] by metis
    with sh show ?thesis by (auto simp: block_shape_def)
  qed
  show ?case
  proof (cases "w = 0")
    case True
    from fl [OF Cons.prems(1)] True Cons show ?thesis by auto
  next
    case False
    have "unat (ir_cnt b) + 2 \<le> 256" using Cons.prems(2) by simp
    from place_mips_instr [OF assms Cons.prems(1) this, of w] obtain b1 where
      p: "place_instr c (mips_instr w) b = Inr b1" "block_shape b1" "unat (ir_cnt b1) \<le> unat (ir_cnt b) + 2"
      by metis
    from fl [OF p(2)] obtain as' st where "flush_after c ty k b1 = Inr (b1\<lparr>assoc := as', state := st\<rparr>)"
      "block_shape (b1\<lparr>assoc := as', state := st\<rparr>)" by blast
    with False p Cons.prems Cons.IH [of "b1\<lparr>assoc := as', state := st\<rparr>" "Suc k"] show ?thesis by simp
  qed
qed

section \<open>The translation theorem\<close>

text \<open>The whole of \<^verbatim>\<open>tblock_emit\<close> on a block that converts under one table.\<close>

lemma tblock_emit_converts:
  assumes "mips_i64 c" "block_shape b" "ir_cnt b = 0"
    and "guest_ptr c + block_bytes (tb_type b) + 12 \<le> length (guest_base c)"
    and "host_ptr c + 6 * block_words (tb_type b) \<le> length (host_base c)"
    and "tblock_liveness_scan (Some c) (Some b) = Inr (r, Some b1)"
    and "table_ok 16 as" "conv_ok c (tb_type b) as 0 (words_of c (tb_type b)) b1"
  obtains b2 bss where "conv_all c (tb_type b) 0 (words_of c (tb_type b)) b1 = Inr b2" "block_shape b2"
    "tblock_emit (Some c) (Some b) = Inr (True,
       Some (c\<lparr>host_base := take (host_ptr c) (host_base c) @ concat bss @ drop (host_ptr c + length (concat bss)) (host_base c)\<rparr>),
       Some (b2\<lparr>spill_cnt := 0\<rparr>))"
    "code_ok as (words_irs as (words_of c (tb_type b))) bss (words_of c (tb_type b))"
proof -
  let ?ty = "tb_type b"
  let ?ws = "words_of c ?ty"
  have c: "guest_reg_fetch c = Some mips32_reg_fetch" "ir_to_host c = Some i64_ir_to_raw"
    using assms(1) by (simp_all add: mips_i64_def)
  have len: "length ?ws = block_words ?ty" by (simp add: words_of_def)
  have n128: "block_words ?ty \<le> 128" by (cases ?ty) simp_all
  have "unat (4 :: u8) * block_words ?ty = block_bytes ?ty" using block_words_bytes by simp
  from mips_guest.scan_spec [OF c(1) this] assms(4,6) obtain lv where
    scan: "r = (ucast (of_nat (block_words ?ty) :: u16), AX_SUCC)" "b1 = b\<lparr>liveness := lv\<rparr>"
    "length lv = length (liveness b)"
    by auto
  have b1: "block_shape b1" "unat (ir_cnt b1) + 2 * length ?ws \<le> 256" "tb_type b1 = ?ty" "ir_cnt b1 = 0"
    using assms(2,3) scan(2,3) len n128 by (simp_all add: block_shape_def)
  from conv_all_correct [OF assms(1,7) b1(1,2) assms(8)] obtain b2 bss where
    b2: "conv_all c ?ty 0 ?ws b1 = Inr b2" "block_shape b2" "unat (ir_cnt b2) = length (words_irs as ?ws)"
      "take (unat (ir_cnt b2)) (ir_buf b2) = words_irs as ?ws" "code_ok as (words_irs as ?ws) bss ?ws"
    using b1(4) by auto
  have bss: "list_all2 lowers_bytes (words_irs as ?ws) bss" using b2(5) by (simp add: code_ok_def)
  have cl: "length (concat bss) = 3 * length (words_irs as ?ws)"
    using bss by (induction rule: list_all2_induct) (simp_all add: lowers_bytes_def)
  have room: "host_ptr c + length (concat bss) \<le> length (host_base c)"
    using assms(5) length_words_irs [of as ?ws] by (simp add: cl len)
  have raw: "tblock_raw_to_ir (Some c) (Some b1) = Inr ((ucast (ir_cnt b2), AX_SUCC), Some b2)"
    using raw_to_ir_words [OF assms(1), of b1] assms(4) b1(3) b2(1) by simp
  let ?c' = "c\<lparr>host_base := take (host_ptr c) (host_base c) @ concat bss @ drop (host_ptr c + length (concat bss)) (host_base c)\<rparr>"
  have "tblock_ir_to_raw (Some c) (Some b2) =
      Inr ((ucast (ir_cnt b2), AX_SUCC), Some ?c', Some (b2\<lparr>spill_cnt := 0\<rparr>))"
    using b2(2,3,4) length_words_irs [of as ?ws] n128 bss room
    by (intro i64_host.ir_to_raw_emits [OF c(2)]) (simp_all add: block_shape_def len)
  then have "tblock_emit (Some c) (Some b) = Inr (True, Some ?c', Some (b2\<lparr>spill_cnt := 0\<rparr>))"
    using assms(6) scan(1) raw by (simp add: tblock_emit_def)
  with that b2(1,2,5) show ?thesis by blast
qed

lemma code_ok_all:
  assumes "code_ok as irs bss ws"
  shows "lower_all irs = Some (concat bss)"
    and "sim as H G \<Longrightarrow> \<exists>H' G'. x86_run (concat bss) H = Some H' \<and> mips_run ws G = Some G' \<and> sim as H' G'"
proof -
  show "lower_all irs = Some (concat bss)" using assms lowers_bytes_all by (simp add: code_ok_def)
  assume "sim as H G"
  then obtain H' G' where "\<forall>cs. x86_run (concat bss @ cs) H = x86_run cs H'" "mips_run ws G = Some G'" "sim as H' G'"
    using assms unfolding code_ok_def by blast
  from this(1) [rule_format, of "[]"] this(2,3)
  show "\<exists>H' G'. x86_run (concat bss) H = Some H' \<and> mips_run ws G = Some G' \<and> sim as H' G'" by auto
qed

text \<open>
  C1: \<^verbatim>\<open>tblock_emit\<close> translates correctly. When a MIPS32 block is converted under one table \<open>as\<close> of
  register associations that is free of conflicts (each word is a \<^verbatim>\<open>nop\<close> or an \<^verbatim>\<open>add\<close>, \<^verbatim>\<open>sub\<close>, \<^verbatim>\<open>and\<close>
  or \<^verbatim>\<open>or\<close> whose operands are held in host registers of one extension class and whose destination
  is not its second source), the call succeeds, and running the host code it leaves at \<^verbatim>\<open>host_ptr\<close>
  from any state that agrees with the guest registers ends in a state that agrees with the guest
  registers after the block.
\<close>

theorem tblock_emit_correct:
  assumes "mips_i64 c" "block_shape b" "ir_cnt b = 0"
    and "guest_ptr c + block_bytes (tb_type b) + 12 \<le> length (guest_base c)"
    and "host_ptr c + 6 * block_words (tb_type b) \<le> length (host_base c)"
    and "tblock_liveness_scan (Some c) (Some b) = Inr (r, Some b1)"
    and "table_ok 16 as" "conv_ok c (tb_type b) as 0 (words_of c (tb_type b)) b1"
  shows "\<exists>c' b' code. tblock_emit (Some c) (Some b) = Inr (True, Some c', Some b') \<and>
    lower_all (words_irs as (words_of c (tb_type b))) = Some code \<and>
    host_base c' = take (host_ptr c) (host_base c) @ code @ drop (host_ptr c + length code) (host_base c) \<and>
    (\<forall>H G. sim as H G \<longrightarrow> (\<exists>H' G'. x86_run code H = Some H' \<and>
       mips_run (words_of c (tb_type b)) G = Some G' \<and> sim as H' G'))"
proof -
  obtain b2 bss where e: "tblock_emit (Some c) (Some b) = Inr (True,
       Some (c\<lparr>host_base := take (host_ptr c) (host_base c) @ concat bss @ drop (host_ptr c + length (concat bss)) (host_base c)\<rparr>),
       Some (b2\<lparr>spill_cnt := 0\<rparr>))"
    and "code_ok as (words_irs as (words_of c (tb_type b))) bss (words_of c (tb_type b))"
    by (rule tblock_emit_converts [OF assms])
  note code = code_ok_all [OF this(2)]
  show ?thesis
    using code(2) by (intro exI conjI) (rule e code(1) | simp)+
qed

end
