(* ===== verification/I64_Tables.thy ===== *)
theory I64_Tables
  imports I64_Emit
begin

text \<open>
  The lookup tables of the Intel 64 decoder (\<^verbatim>\<open>emitter/i64_immd.h\<close>, \<^verbatim>\<open>emitter/i64_modrm.h\<close>,
  \<^verbatim>\<open>tables/i64_immd_tables.c\<close>, \<^verbatim>\<open>tables/i64_modrm_tables.c\<close>, \<^verbatim>\<open>tables/i64_qtables.c\<close>): two bits per opcode
  for the size of its immediate, one bit for the presence of a ModRM byte, and the tables
  \<^verbatim>\<open>i64_load_qtables\<close> fills when the Intel 64 register map is selected. The decoder that reads them (\<open>I64_Decode\<close>) is
  disabled; here they are measured against the one-byte opcode map of the architecture.
\<close>

section \<open>Immediates (i64_immd.h, i64_immd_tables.c)\<close>

definition SUBMASK_IMMD_8 :: u8 where "SUBMASK_IMMD_8 = 1"
definition SUBMASK_IMMD_16 :: u8 where "SUBMASK_IMMD_16 = 2"
definition SUBMASK_IMMD_32 :: u8 where "SUBMASK_IMMD_32 = 4"
definition SUBMASK_IMMD_64 :: u8 where "SUBMASK_IMMD_64 = 6"

text \<open>\<^verbatim>\<open>SUBMASK_IMMD_MOD_0\<close> to \<^verbatim>\<open>SUBMASK_IMMD_MOD_7\<close>.\<close>

definition SUBMASK_IMMD_MOD :: "nat \<Rightarrow> u8" where
  "SUBMASK_IMMD_MOD n = [0, 0x02, 0x04, 0x08, 0x10, 0x20, 0x40, 0x80] ! n"

definition SUBMASK_IMMD_AUTO :: "u8 \<Rightarrow> u8 \<Rightarrow> u8" where
  "SUBMASK_IMMD_AUTO msk immd = push_bit (if immd = SUBMASK_IMMD_8 then 0 else 3) msk OR immd"

definition REG_TO_IMMD_SUBMASK :: "nat \<Rightarrow> u8" where
  "REG_TO_IMMD_SUBMASK r = (if r = 0 then 0 else push_bit r 1)"

lemma REG_TO_IMMD_SUBMASK_MOD: "map REG_TO_IMMD_SUBMASK [0..<8] = map SUBMASK_IMMD_MOD [0..<8]"
  by (simp add: REG_TO_IMMD_SUBMASK_def SUBMASK_IMMD_MOD_def upt_rec)

record immd_tables_root =
  immd_l0_mask :: "u64 list"
  immd_l0_submask :: "u8 list"
  immd_l2_66_mask :: "u64 list"
  immd_l2_66_submask :: "u8 list"
  immd_l2_0f_mask :: "u64 list"
  immd_l2_0f_submask :: "u8 list"

text \<open>A designated initialiser \<^verbatim>\<open>[a ... b] = v\<close>.\<close>

fun init_range :: "'a list \<Rightarrow> nat list \<Rightarrow> 'a \<Rightarrow> 'a list" where
  "init_range xs [] v = xs"
| "init_range xs (i # is) v = init_range (xs[i := v]) is v"

definition IMMD_L0_SUBMASK :: "u8 list" where
  "IMMD_L0_SUBMASK =
    (let xs = init_range (replicate 128 0) [0x39..<0x41] (SUBMASK_IMMD_AUTO 0 SUBMASK_IMMD_64)
     in xs[0x43 := SUBMASK_IMMD_AUTO 0 SUBMASK_IMMD_16,
           0x4b := SUBMASK_IMMD_AUTO 0 SUBMASK_IMMD_16,
           0x77 := SUBMASK_IMMD_AUTO (SUBMASK_IMMD_MOD 0) SUBMASK_IMMD_8,
           0x78 := SUBMASK_IMMD_AUTO (SUBMASK_IMMD_MOD 0) SUBMASK_IMMD_32])"

definition IMMD_L2_66_SUBMASK :: "u8 list" where
  "IMMD_L2_66_SUBMASK =
    (let xs = init_range (replicate 192 0) [0x32..<0x34]
           (SUBMASK_IMMD_AUTO (SUBMASK_IMMD_MOD 2 OR SUBMASK_IMMD_MOD 4 OR SUBMASK_IMMD_MOD 6) SUBMASK_IMMD_8)
     in xs[0x34 := SUBMASK_IMMD_AUTO (SUBMASK_IMMD_MOD 2 OR SUBMASK_IMMD_MOD 3 OR SUBMASK_IMMD_MOD 6 OR SUBMASK_IMMD_MOD 7)
             SUBMASK_IMMD_8])"

definition IMMD_L2_0F_SUBMASK :: "u8 list" where
  "IMMD_L2_0F_SUBMASK =
    (let xs = init_range (replicate 192 0) [0x32..<0x34]
           (SUBMASK_IMMD_AUTO (SUBMASK_IMMD_MOD 2 OR SUBMASK_IMMD_MOD 4 OR SUBMASK_IMMD_MOD 6) SUBMASK_IMMD_8)
     in xs[0x34 := SUBMASK_IMMD_AUTO (SUBMASK_IMMD_MOD 2 OR SUBMASK_IMMD_MOD 6) SUBMASK_IMMD_8,
           0x7b := SUBMASK_IMMD_AUTO (SUBMASK_IMMD_MOD 4 OR SUBMASK_IMMD_MOD 5 OR SUBMASK_IMMD_MOD 6 OR SUBMASK_IMMD_MOD 7)
             SUBMASK_IMMD_8])"

definition IMMD_TABLES :: immd_tables_root where
  "IMMD_TABLES =
    \<lparr>immd_l0_mask = [0x0900090009000900, 0x0900090009000900, 0x0000000000000000, 0x0000000001680000,
       0x0000000000000049, 0xFFFF555500090000, 0x0000000004339035, 0x0000F00000005500],
     immd_l0_submask = IMMD_L0_SUBMASK,
     immd_l2_66_mask = [0x0000550015550000, 0x0000000000000015, 0x0000000000000010, 0x000000FD00000050,
       0x0000000000000000, 0x0000000000000000, 0x0000000000001510, 0x0000000000000000],
     immd_l2_66_submask = IMMD_L2_66_SUBMASK,
     immd_l2_0f_mask = [0x0000000000000000, 0x0000000000000000, 0x0000000000000000, 0x000000FD00000000,
       0x0000000000000000, 0x0030000001000100, 0x0000000000001510, 0x0000000000000000],
     immd_l2_0f_submask = IMMD_L2_0F_SUBMASK\<rparr>"

definition I64_IMMD_VTB :: "u64 list \<Rightarrow> nat \<Rightarrow> u64" where
  "I64_IMMD_VTB m v = drop_bit (v * 2 mod 64) (m ! (v div 32)) AND 3"

section \<open>ModRM (i64_modrm.h, i64_modrm_tables.c)\<close>

record modrm_tables_root =
  modrm_l0_mask :: "u64 list"
  modrm_l1_mask :: "u64 list"
  modrm_l2_0f_mask :: "u64 list"
  modrm_l2_66_mask :: "u64 list"
  modrm_l2_f2_mask :: "u64 list"
  modrm_l2_f3_mask :: "u64 list"

definition MODRM_TABLES :: modrm_tables_root where
  "MODRM_TABLES =
    \<lparr>modrm_l0_mask = [0x0f0f0f0f0f0f0f0f, 0x0000000000000a0c, 0x000000000000ffff, 0xc3c30f0f0000f3cf],
     modrm_l1_mask = [0xff80fe0001ff000f, 0xc0000000fffffbff, 0xfffffffffffffe38, 0x7fffefbe7fbf003e],
     modrm_l2_0f_mask = [0x0000000000008000, 0x0000000000000000, 0x000000000000031e, 0x0303000000000003],
     modrm_l2_66_mask = [0xff00000000fffe00, 0xf07fffff0003ffff, 0x0000000000000000, 0x7ffffffffffffdf4],
     modrm_l2_f2_mask = [0x0000340000000700, 0xf0010000f7020000, 0x0000000000000000, 0x0001004000000004],
     modrm_l2_f3_mask = [0x0000340000400700, 0xc0800000ff0e0000, 0x0100000000000000, 0x0000004000800084]\<rparr>"

definition I64_MODRM_VTB :: "u64 list \<Rightarrow> nat \<Rightarrow> u64" where
  "I64_MODRM_VTB t v = drop_bit (v mod 64) (t ! (v div 64)) AND 1"

section \<open>Quick tables (i64_qtables.h, i64_qtables.c)\<close>

text \<open>The global arrays; an entry of a lookup by prefix is the table it points to.\<close>

record qtables =
  L2I_MASK_LOOKUP :: "u64 list list"
  L2I_SUBMASK_LOOKUP :: "u8 list list"
  L2M_MASK_LOOKUP :: "u64 list list"
  IMMD_MASK_LEN_TABLE :: "u8 list"
  IMMD_SUBMASK_LEN_TABLE :: "u8 list"
  MOD_DLEN_LOOKUP :: "u8 list"
  LEG_PREF_LOOKUP :: "u8 list"
  LEG_PREF_EXT_LOOKUP :: "bool list"

definition qtables_init :: qtables where
  "qtables_init =
    \<lparr>L2I_MASK_LOOKUP = replicate 8 (replicate 8 0), L2I_SUBMASK_LOOKUP = replicate 8 (replicate 8 0),
     L2M_MASK_LOOKUP = replicate 8 (replicate 8 0),
     IMMD_MASK_LEN_TABLE = replicate 4 0, IMMD_SUBMASK_LEN_TABLE = replicate 4 0,
     MOD_DLEN_LOOKUP = replicate 4 0, LEG_PREF_LOOKUP = replicate 0xff 0, LEG_PREF_EXT_LOOKUP = replicate 0xff False\<rparr>"

definition i64_load_qtables :: "qtables \<Rightarrow> qtables" where
  "i64_load_qtables q =
    (let i = IMMD_TABLES; m = MODRM_TABLES in
     q\<lparr>L2I_MASK_LOOKUP := (L2I_MASK_LOOKUP q)
         [7 := immd_l2_0f_mask i, 6 := immd_l2_66_mask i, 1 := immd_l2_0f_mask i, 2 := immd_l2_0f_mask i],
       L2I_SUBMASK_LOOKUP := (L2I_SUBMASK_LOOKUP q)
         [7 := immd_l2_0f_submask i, 6 := immd_l2_66_submask i, 1 := immd_l2_0f_submask i, 2 := immd_l2_0f_submask i],
       L2M_MASK_LOOKUP := (L2M_MASK_LOOKUP q)
         [7 := modrm_l2_0f_mask m, 6 := modrm_l2_66_mask m, 1 := modrm_l2_0f_mask m, 2 := modrm_l2_0f_mask m],
       IMMD_MASK_LEN_TABLE := (IMMD_MASK_LEN_TABLE q)[0 := 0, 1 := 1, 2 := 4, 3 := 0],
       IMMD_SUBMASK_LEN_TABLE := (IMMD_SUBMASK_LEN_TABLE q)[0 := 0, 1 := 2, 2 := 4, 3 := 8],
       MOD_DLEN_LOOKUP := (MOD_DLEN_LOOKUP q)[0 := 4, 1 := 1, 2 := 4, 3 := 0],
       LEG_PREF_LOOKUP := (LEG_PREF_LOOKUP q)
         [0xf0 := 0xf0, 0xf2 := 0xf2, 0xf3 := 0xf3, 0x2e := 0x2e, 0x36 := 0x36, 0x3e := 0x3e, 0x26 := 0x26,
          0x64 := 0x64, 0x65 := 0x65, 0x66 := 0x66, 0x67 := 0x67],
       LEG_PREF_EXT_LOOKUP := (LEG_PREF_EXT_LOOKUP q)[0x66 := True, 0xf2 := True, 0xf3 := True]\<rparr>)"

definition MASK_TO_LEN :: "qtables \<Rightarrow> u64 \<Rightarrow> u8" where
  "MASK_TO_LEN q m = IMMD_MASK_LEN_TABLE q ! unat (m AND 3)"

definition SUBMASK_TO_LEN :: "qtables \<Rightarrow> u8 \<Rightarrow> u8" where
  "SUBMASK_TO_LEN q sm = (if sm AND 1 \<noteq> 0 then 1 else IMMD_SUBMASK_LEN_TABLE q ! unat (drop_bit 1 sm AND 3))"

lemma LEG_PREF_LOOKUP_nth:
  "b < 255 \<Longrightarrow> LEG_PREF_LOOKUP (i64_load_qtables qtables_init) ! b =
    (if b \<in> set [0xf0, 0xf2, 0xf3, 0x2e, 0x36, 0x3e, 0x26, 0x64, 0x65, 0x66, 0x67] then of_nat b else 0)"
  by (simp add: i64_load_qtables_def qtables_init_def Let_def nth_list_update)

lemma i64_load_qtables_idem: "i64_load_qtables (i64_load_qtables q) = i64_load_qtables q"
  by (simp add: i64_load_qtables_def Let_def list_update_swap)

section \<open>The one-byte opcode map\<close>

text \<open>
  The reference, after the architecture manual (64-bit mode), in rows of sixteen opcodes: the code of the
  immediate (1 for one byte, 2 for four, 3 when the size depends on more than the opcode), and whether a
  ModRM byte follows.
\<close>

definition IMMD_MAP :: "nat list list" where
  "IMMD_MAP =
    [[0, 0, 0, 0, 1, 2, 0, 0, 0, 0, 0, 0, 1, 2, 0, 0],
     [0, 0, 0, 0, 1, 2, 0, 0, 0, 0, 0, 0, 1, 2, 0, 0],
     [0, 0, 0, 0, 1, 2, 0, 0, 0, 0, 0, 0, 1, 2, 0, 0],
     [0, 0, 0, 0, 1, 2, 0, 0, 0, 0, 0, 0, 1, 2, 0, 0],
     [0, 0, 0, 0, 0, 0, 0, 0, 0, 0, 0, 0, 0, 0, 0, 0],
     [0, 0, 0, 0, 0, 0, 0, 0, 0, 0, 0, 0, 0, 0, 0, 0],
     [0, 0, 0, 0, 0, 0, 0, 0, 2, 2, 1, 1, 0, 0, 0, 0],
     [0, 0, 0, 0, 0, 0, 0, 0, 0, 0, 0, 0, 0, 0, 0, 0],
     [1, 2, 0, 1, 0, 0, 0, 0, 0, 0, 0, 0, 0, 0, 0, 0],
     [0, 0, 0, 0, 0, 0, 0, 0, 0, 0, 0, 0, 0, 0, 0, 0],
     [0, 0, 0, 0, 0, 0, 0, 0, 1, 2, 0, 0, 0, 0, 0, 0],
     [1, 1, 1, 1, 1, 1, 1, 1, 3, 3, 3, 3, 3, 3, 3, 3],
     [1, 1, 3, 0, 0, 0, 1, 2, 3, 0, 3, 0, 0, 1, 0, 0],
     [0, 0, 0, 0, 0, 0, 0, 0, 0, 0, 0, 0, 0, 0, 0, 0],
     [0, 0, 0, 0, 1, 1, 1, 1, 0, 0, 0, 0, 0, 0, 0, 0],
     [0, 0, 0, 0, 0, 0, 3, 3, 0, 0, 0, 0, 0, 0, 0, 0]]"

definition MODRM_MAP :: "nat list list" where
  "MODRM_MAP =
    [[1, 1, 1, 1, 0, 0, 0, 0, 1, 1, 1, 1, 0, 0, 0, 0],
     [1, 1, 1, 1, 0, 0, 0, 0, 1, 1, 1, 1, 0, 0, 0, 0],
     [1, 1, 1, 1, 0, 0, 0, 0, 1, 1, 1, 1, 0, 0, 0, 0],
     [1, 1, 1, 1, 0, 0, 0, 0, 1, 1, 1, 1, 0, 0, 0, 0],
     [0, 0, 0, 0, 0, 0, 0, 0, 0, 0, 0, 0, 0, 0, 0, 0],
     [0, 0, 0, 0, 0, 0, 0, 0, 0, 0, 0, 0, 0, 0, 0, 0],
     [0, 0, 0, 1, 0, 0, 0, 0, 0, 1, 0, 1, 0, 0, 0, 0],
     [0, 0, 0, 0, 0, 0, 0, 0, 0, 0, 0, 0, 0, 0, 0, 0],
     [1, 1, 1, 1, 1, 1, 1, 1, 1, 1, 1, 1, 1, 1, 1, 1],
     [0, 0, 0, 0, 0, 0, 0, 0, 0, 0, 0, 0, 0, 0, 0, 0],
     [0, 0, 0, 0, 0, 0, 0, 0, 0, 0, 0, 0, 0, 0, 0, 0],
     [0, 0, 0, 0, 0, 0, 0, 0, 0, 0, 0, 0, 0, 0, 0, 0],
     [1, 1, 0, 0, 0, 0, 1, 1, 0, 0, 0, 0, 0, 0, 0, 0],
     [1, 1, 1, 1, 0, 0, 0, 0, 1, 1, 1, 1, 1, 1, 1, 1],
     [0, 0, 0, 0, 0, 0, 0, 0, 0, 0, 0, 0, 0, 0, 0, 0],
     [0, 0, 0, 0, 0, 0, 1, 1, 0, 0, 0, 0, 0, 0, 1, 1]]"

text \<open>
  A mask word is read as the list of its digits, which turns a comparison over all opcodes into a
  comparison of two lists.
\<close>

fun digits :: "nat \<Rightarrow> nat \<Rightarrow> nat \<Rightarrow> nat list" where
  "digits b 0 x = []"
| "digits b (Suc n) x = x mod b # digits b n (x div b)"

lemma length_digits [simp]: "length (digits b n x) = n"
  by (induction b n x rule: digits.induct) simp_all

lemma nth_digits: "j < n \<Longrightarrow> digits b n x ! j = x div b ^ j mod b"
proof (induction b n x arbitrary: j rule: digits.induct)
  case (2 b n x)
  then show ?case by (cases j) (simp_all add: div_mult2_eq)
qed simp

lemma nth_concat_equal:
  "\<forall>xs \<in> set xss. length xs = n \<Longrightarrow> v < n * length xss \<Longrightarrow> concat xss ! v = xss ! (v div n) ! (v mod n)"
proof (induction xss arbitrary: v)
  case (Cons xs xss)
  show ?case
  proof (cases "v < n")
    case True
    with Cons.prems show ?thesis by (simp add: nth_append)
  next
    case False
    then have "0 < n" using Cons.prems(2) by (cases n) simp_all
    then have v: "v div n = Suc ((v - n) div n)" "v mod n = (v - n) mod n"
      using False by (simp_all add: le_div_geq le_mod_geq)
    from Cons.prems False have "concat xss ! (v - n) = xss ! ((v - n) div n) ! ((v - n) mod n)"
      by (intro Cons.IH) simp_all
    with False Cons.prems(1) v show ?thesis by (simp add: nth_append)
  qed
qed simp

lemma unat_field: "unat (drop_bit k w AND mask n) = unat w div 2 ^ k mod 2 ^ n" for w :: u64
proof -
  have "unat (take_bit n (drop_bit k w)) = take_bit n (drop_bit k (unat w))"
    by (rule bit_eqI) (simp add: bit_simps)
  then show ?thesis by (simp add: take_bit_eq_mask [symmetric] take_bit_eq_mod drop_bit_eq_div)
qed

lemma length_concat_equal: "\<forall>xs \<in> set xss. length xs = n \<Longrightarrow> length (concat xss) = n * length xss"
  by (induction xss) simp_all

lemma immd_digits:
  assumes "length m = 8"
  shows "map (\<lambda>v. unat (I64_IMMD_VTB m v)) [0..<256] = concat (map (\<lambda>w. digits 4 32 (unat w)) m)"
proof (rule nth_equalityI)
  show len: "length (map (\<lambda>v. unat (I64_IMMD_VTB m v)) [0..<256]) = length (concat (map (\<lambda>w. digits 4 32 (unat w)) m))"
    using assms by (subst length_concat_equal [where n = 32]) simp_all
  fix v assume "v < length (map (\<lambda>v. unat (I64_IMMD_VTB m v)) [0..<256])"
  then have v: "v < 256" by simp
  have "concat (map (\<lambda>w. digits 4 32 (unat w)) m) ! v = map (\<lambda>w. digits 4 32 (unat w)) m ! (v div 32) ! (v mod 32)"
    using v assms by (intro nth_concat_equal) auto
  also have "\<dots> = unat (m ! (v div 32)) div 4 ^ (v mod 32) mod 4"
    using v assms by (simp add: nth_digits less_mult_imp_div_less)
  also have "(4 :: nat) ^ (v mod 32) = 2 ^ (v * 2 mod 64)"
    using power_mult [of "2 :: nat" 2 "v mod 32"] mult_mod_left [of v 32 2] by (simp add: mult.commute)
  finally show "map (\<lambda>v. unat (I64_IMMD_VTB m v)) [0..<256] ! v = concat (map (\<lambda>w. digits 4 32 (unat w)) m) ! v"
    using v unat_field [of "v * 2 mod 64" "m ! (v div 32)" 2] by (simp add: I64_IMMD_VTB_def mask_eq_exp_minus_1)
qed

lemma modrm_digits:
  assumes "length t = 4"
  shows "map (\<lambda>v. unat (I64_MODRM_VTB t v)) [0..<256] = concat (map (\<lambda>w. digits 2 64 (unat w)) t)"
proof (rule nth_equalityI)
  show len: "length (map (\<lambda>v. unat (I64_MODRM_VTB t v)) [0..<256]) = length (concat (map (\<lambda>w. digits 2 64 (unat w)) t))"
    using assms by (subst length_concat_equal [where n = 64]) simp_all
  fix v assume "v < length (map (\<lambda>v. unat (I64_MODRM_VTB t v)) [0..<256])"
  then have v: "v < 256" by simp
  have "concat (map (\<lambda>w. digits 2 64 (unat w)) t) ! v = map (\<lambda>w. digits 2 64 (unat w)) t ! (v div 64) ! (v mod 64)"
    using v assms by (intro nth_concat_equal) auto
  also have "\<dots> = unat (t ! (v div 64)) div 2 ^ (v mod 64) mod 2"
    using v assms by (simp add: nth_digits less_mult_imp_div_less)
  finally show "map (\<lambda>v. unat (I64_MODRM_VTB t v)) [0..<256] ! v = concat (map (\<lambda>w. digits 2 64 (unat w)) t) ! v"
    using v unat_field [of "v mod 64" "t ! (v div 64)" 1] by (simp add: I64_MODRM_VTB_def mask_eq_exp_minus_1)
qed

text \<open>Digit lists are checked in the other direction, from the digits to the word.\<close>

fun undigits :: "nat \<Rightarrow> nat list \<Rightarrow> nat" where
  "undigits b [] = 0"
| "undigits b (d # ds) = d + b * undigits b ds"

lemma digits_undigits:
  "list_all (\<lambda>d. d < b) ds \<Longrightarrow> x = undigits b ds \<Longrightarrow> n = length ds \<Longrightarrow> digits b n x = ds"
  by (induction ds arbitrary: x n) auto

text \<open>The positions where two lists differ.\<close>

fun diffs :: "nat \<Rightarrow> 'a list \<Rightarrow> 'a list \<Rightarrow> nat list" where
  "diffs i (x # xs) (y # ys) = (if x = y then diffs (i + 1) xs ys else i # diffs (i + 1) xs ys)"
| "diffs i xs ys = []"

lemma filter_diffs: "filter (\<lambda>v. f v \<noteq> g v) [i..<i + n] = diffs i (map f [i..<i + n]) (map g [i..<i + n])"
proof (induction n arbitrary: i)
  case (Suc n)
  have "[i..<i + Suc n] = i # [Suc i..<Suc i + n]" by (simp add: upt_conv_Cons)
  with Suc [of "Suc i"] show ?case by simp
qed simp

lemma filter_diffs_list:
  assumes "length ys = n"
  shows "filter (\<lambda>v. f v \<noteq> ys ! v) [0..<n] = diffs 0 (map f [0..<n]) ys"
proof -
  have "map ((!) ys) [0..<n] = ys" using map_nth [of ys] assms by simp
  with filter_diffs [of f "(!) ys" 0 n] show ?thesis by simp
qed

lemma IMMD_masks:
  "immd_l0_mask IMMD_TABLES = [0x0900090009000900, 0x0900090009000900, 0x0000000000000000, 0x0000000001680000,
       0x0000000000000049, 0xFFFF555500090000, 0x0000000004339035, 0x0000F00000005500]"
  "modrm_l0_mask MODRM_TABLES = [0x0f0f0f0f0f0f0f0f, 0x0000000000000a0c, 0x000000000000ffff, 0xc3c30f0f0000f3cf]"
  by (simp_all add: IMMD_TABLES_def MODRM_TABLES_def)

lemma immd_l0_digits: "map (\<lambda>w. digits 4 32 (unat w)) (immd_l0_mask IMMD_TABLES) =
    [[0, 0, 0, 0, 1, 2, 0, 0, 0, 0, 0, 0, 1, 2, 0, 0, 0, 0, 0, 0, 1, 2, 0, 0, 0, 0, 0, 0, 1, 2, 0, 0],
     [0, 0, 0, 0, 1, 2, 0, 0, 0, 0, 0, 0, 1, 2, 0, 0, 0, 0, 0, 0, 1, 2, 0, 0, 0, 0, 0, 0, 1, 2, 0, 0],
     [0, 0, 0, 0, 0, 0, 0, 0, 0, 0, 0, 0, 0, 0, 0, 0, 0, 0, 0, 0, 0, 0, 0, 0, 0, 0, 0, 0, 0, 0, 0, 0],
     [0, 0, 0, 0, 0, 0, 0, 0, 0, 2, 2, 1, 1, 0, 0, 0, 0, 0, 0, 0, 0, 0, 0, 0, 0, 0, 0, 0, 0, 0, 0, 0],
     [1, 2, 0, 1, 0, 0, 0, 0, 0, 0, 0, 0, 0, 0, 0, 0, 0, 0, 0, 0, 0, 0, 0, 0, 0, 0, 0, 0, 0, 0, 0, 0],
     [0, 0, 0, 0, 0, 0, 0, 0, 1, 2, 0, 0, 0, 0, 0, 0, 1, 1, 1, 1, 1, 1, 1, 1, 3, 3, 3, 3, 3, 3, 3, 3],
     [1, 1, 3, 0, 0, 0, 1, 2, 3, 0, 3, 0, 0, 1, 0, 0, 0, 0, 0, 0, 0, 0, 0, 0, 0, 0, 0, 0, 0, 0, 0, 0],
     [0, 0, 0, 0, 1, 1, 1, 1, 0, 0, 0, 0, 0, 0, 0, 0, 0, 0, 0, 0, 0, 0, 3, 3, 0, 0, 0, 0, 0, 0, 0, 0]]"
  unfolding IMMD_masks list.map list.inject by (intro conjI digits_undigits refl) simp_all

lemma modrm_l0_digits: "map (\<lambda>w. digits 2 64 (unat w)) (modrm_l0_mask MODRM_TABLES) =
    [[1, 1, 1, 1, 0, 0, 0, 0, 1, 1, 1, 1, 0, 0, 0, 0, 1, 1, 1, 1, 0, 0, 0, 0, 1, 1, 1, 1, 0, 0, 0, 0, 1,
      1, 1, 1, 0, 0, 0, 0, 1, 1, 1, 1, 0, 0, 0, 0, 1, 1, 1, 1, 0, 0, 0, 0, 1, 1, 1, 1, 0, 0, 0, 0],
     [0, 0, 1, 1, 0, 0, 0, 0, 0, 1, 0, 1, 0, 0, 0, 0, 0, 0, 0, 0, 0, 0, 0, 0, 0, 0, 0, 0, 0, 0, 0, 0, 0,
      0, 0, 0, 0, 0, 0, 0, 0, 0, 0, 0, 0, 0, 0, 0, 0, 0, 0, 0, 0, 0, 0, 0, 0, 0, 0, 0, 0, 0, 0, 0],
     [1, 1, 1, 1, 1, 1, 1, 1, 1, 1, 1, 1, 1, 1, 1, 1, 0, 0, 0, 0, 0, 0, 0, 0, 0, 0, 0, 0, 0, 0, 0, 0, 0,
      0, 0, 0, 0, 0, 0, 0, 0, 0, 0, 0, 0, 0, 0, 0, 0, 0, 0, 0, 0, 0, 0, 0, 0, 0, 0, 0, 0, 0, 0, 0],
     [1, 1, 1, 1, 0, 0, 1, 1, 1, 1, 0, 0, 1, 1, 1, 1, 0, 0, 0, 0, 0, 0, 0, 0, 0, 0, 0, 0, 0, 0, 0, 0, 1,
      1, 1, 1, 0, 0, 0, 0, 1, 1, 1, 1, 0, 0, 0, 0, 1, 1, 0, 0, 0, 0, 1, 1, 1, 1, 0, 0, 0, 0, 1, 1]]"
  unfolding IMMD_masks list.map list.inject by (intro conjI digits_undigits refl) simp_all

lemma immd_l0_wrong:
  "filter (\<lambda>v. unat (I64_IMMD_VTB (immd_l0_mask IMMD_TABLES) v) \<noteq> concat IMMD_MAP ! v) [0..<256] = [0x68, 0x6a, 0x6c]"
proof -
  have "map (\<lambda>v. unat (I64_IMMD_VTB (immd_l0_mask IMMD_TABLES) v)) [0..<256] =
      concat (map (\<lambda>w. digits 4 32 (unat w)) (immd_l0_mask IMMD_TABLES))"
    by (rule immd_digits) (simp add: IMMD_masks)
  moreover have "diffs 0 (concat (map (\<lambda>w. digits 4 32 (unat w)) (immd_l0_mask IMMD_TABLES))) (concat IMMD_MAP) =
      [0x68, 0x6a, 0x6c]"
    unfolding immd_l0_digits IMMD_MAP_def by (simp del: One_nat_def)
  moreover have "length (concat IMMD_MAP) = 256" by (simp add: IMMD_MAP_def)
  ultimately show ?thesis by (simp add: filter_diffs_list)
qed

lemma modrm_l0_wrong:
  "filter (\<lambda>v. unat (I64_MODRM_VTB (modrm_l0_mask MODRM_TABLES) v) \<noteq> concat MODRM_MAP ! v) [0..<256] =
    [0x42, 0x43, 0x49, 0x4b, 0x63, 0x69, 0x6b, 0xc2, 0xc3, 0xc8, 0xc9, 0xcc, 0xcd, 0xce, 0xcf, 0xd0, 0xd1, 0xd2,
     0xd3, 0xd8, 0xd9, 0xda, 0xdb, 0xdc, 0xdd, 0xde, 0xdf, 0xe0, 0xe1, 0xe2, 0xe3, 0xe8, 0xe9, 0xea, 0xeb, 0xf0,
     0xf1, 0xf8, 0xf9]"
proof -
  have "map (\<lambda>v. unat (I64_MODRM_VTB (modrm_l0_mask MODRM_TABLES) v)) [0..<256] =
      concat (map (\<lambda>w. digits 2 64 (unat w)) (modrm_l0_mask MODRM_TABLES))"
    by (rule modrm_digits) (simp add: IMMD_masks)
  moreover have "diffs 0 (concat (map (\<lambda>w. digits 2 64 (unat w)) (modrm_l0_mask MODRM_TABLES))) (concat MODRM_MAP) =
    [0x42, 0x43, 0x49, 0x4b, 0x63, 0x69, 0x6b, 0xc2, 0xc3, 0xc8, 0xc9, 0xcc, 0xcd, 0xce, 0xcf, 0xd0, 0xd1, 0xd2,
     0xd3, 0xd8, 0xd9, 0xda, 0xdb, 0xdc, 0xdd, 0xde, 0xdf, 0xe0, 0xe1, 0xe2, 0xe3, 0xe8, 0xe9, 0xea, 0xeb, 0xf0,
     0xf1, 0xf8, 0xf9]"
    unfolding modrm_l0_digits MODRM_MAP_def by (simp del: One_nat_def)
  moreover have "length (concat MODRM_MAP) = 256" by (simp add: MODRM_MAP_def)
  ultimately show ?thesis by (simp add: filter_diffs_list)
qed

section \<open>Properties\<close>

text \<open>
  C38: the tables of one-byte opcodes against the opcode map. The immediate codes are right except for
  three opcodes: \<^verbatim>\<open>push imm32\<close> (68) has none, \<^verbatim>\<open>push imm8\<close> (6a) has four bytes and \<^verbatim>\<open>insb\<close> (6c) has one. Of the
  opcodes that defer to a submask all have the right length but \<^verbatim>\<open>enter\<close> (c8), whose submask is missing. The
  ModRM bits are right below 40 and from 80 to bf, and wrong for 39 opcodes elsewhere.
\<close>

theorem i64_tables_opcode_map:
  "filter (\<lambda>v. unat (I64_IMMD_VTB (immd_l0_mask IMMD_TABLES) v) \<noteq> concat IMMD_MAP ! v) [0..<256] = [0x68, 0x6a, 0x6c] \<and>
   map (\<lambda>v. SUBMASK_TO_LEN (i64_load_qtables qtables_init) (immd_l0_submask IMMD_TABLES ! (v - 0x7f)))
     [0xb8, 0xb9, 0xba, 0xbb, 0xbc, 0xbd, 0xbe, 0xbf, 0xc2, 0xca, 0xf6, 0xf7, 0xc8] = [8, 8, 8, 8, 8, 8, 8, 8, 2, 2, 1, 4, 0] \<and>
   filter (\<lambda>v. unat (I64_MODRM_VTB (modrm_l0_mask MODRM_TABLES) v) \<noteq> concat MODRM_MAP ! v) [0..<256] =
    [0x42, 0x43, 0x49, 0x4b, 0x63, 0x69, 0x6b, 0xc2, 0xc3, 0xc8, 0xc9, 0xcc, 0xcd, 0xce, 0xcf, 0xd0, 0xd1, 0xd2,
     0xd3, 0xd8, 0xd9, 0xda, 0xdb, 0xdc, 0xdd, 0xde, 0xdf, 0xe0, 0xe1, 0xe2, 0xe3, 0xe8, 0xe9, 0xea, 0xeb, 0xf0,
     0xf1, 0xf8, 0xf9]"
proof (intro conjI immd_l0_wrong modrm_l0_wrong)
  let ?q = "i64_load_qtables qtables_init"
  have sub: "IMMD_SUBMASK_LEN_TABLE ?q = [0, 2, 4, 8]"
    by (simp add: i64_load_qtables_def qtables_init_def Let_def eval_nat_numeral)
  have "map ((!) IMMD_L0_SUBMASK) [0x39, 0x3a, 0x3b, 0x3c, 0x3d, 0x3e, 0x3f, 0x40, 0x43, 0x4b, 0x77, 0x78, 0x49] =
      [6, 6, 6, 6, 6, 6, 6, 6, 2, 2, 1, 4, 0]"
    by code_simp
  then show "map (\<lambda>v. SUBMASK_TO_LEN ?q (immd_l0_submask IMMD_TABLES ! (v - 0x7f)))
     [0xb8, 0xb9, 0xba, 0xbb, 0xbc, 0xbd, 0xbe, 0xbf, 0xc2, 0xca, 0xf6, 0xf7, 0xc8] = [8, 8, 8, 8, 8, 8, 8, 8, 2, 2, 1, 4, 0]"
    by (simp add: SUBMASK_TO_LEN_def sub IMMD_TABLES_def)
qed

text \<open>
  What \<^verbatim>\<open>i64_load_qtables\<close> leaves. The table of legacy prefixes maps each of the eleven prefixes to itself
  and every other byte to 0. The lookups by the low three bits of the prefix lead from \<^verbatim>\<open>0f\<close> and \<^verbatim>\<open>66\<close> to their
  tables; \<^verbatim>\<open>f2\<close> leads to those of \<^verbatim>\<open>0f\<close> and not to its own, and \<^verbatim>\<open>f3\<close> to the default tables, because its entry
  is stored under index 1 where its low bits are 3. Loading a second time changes nothing.
\<close>

theorem i64_load_qtables_state:
  "let q = i64_load_qtables qtables_init in
     filter (\<lambda>b. LEG_PREF_LOOKUP q ! b \<noteq> 0) [0..<255] = [0x26, 0x2e, 0x36, 0x3e, 0x64, 0x65, 0x66, 0x67, 0xf0, 0xf2, 0xf3] \<and>
     filter (\<lambda>b. LEG_PREF_LOOKUP q ! b \<noteq> 0 \<and> LEG_PREF_LOOKUP q ! b \<noteq> of_nat b) [0..<255] = [] \<and>
     (L2I_MASK_LOOKUP q ! (0x0f mod 8), L2M_MASK_LOOKUP q ! (0x0f mod 8)) = (immd_l2_0f_mask IMMD_TABLES, modrm_l2_0f_mask MODRM_TABLES) \<and>
     (L2I_MASK_LOOKUP q ! (0x66 mod 8), L2M_MASK_LOOKUP q ! (0x66 mod 8)) = (immd_l2_66_mask IMMD_TABLES, modrm_l2_66_mask MODRM_TABLES) \<and>
     (L2I_MASK_LOOKUP q ! (0xf2 mod 8), L2M_MASK_LOOKUP q ! (0xf2 mod 8)) = (immd_l2_0f_mask IMMD_TABLES, modrm_l2_0f_mask MODRM_TABLES) \<and>
     modrm_l2_f2_mask MODRM_TABLES \<noteq> modrm_l2_0f_mask MODRM_TABLES \<and>
     (L2I_MASK_LOOKUP q ! (0xf3 mod 8), L2M_MASK_LOOKUP q ! (0xf3 mod 8)) = (replicate 8 0, replicate 8 0) \<and>
     i64_load_qtables q = q"
proof -
  let ?q = "i64_load_qtables qtables_init"
  let ?ps = "[0xf0, 0xf2, 0xf3, 0x2e, 0x36, 0x3e, 0x26, 0x64, 0x65, 0x66, 0x67] :: nat list"
  note leg = LEG_PREF_LOOKUP_nth
  have "filter (\<lambda>b. LEG_PREF_LOOKUP ?q ! b \<noteq> 0) [0..<255] = filter (\<lambda>b. b \<in> set ?ps) [0..<255]"
    using leg by (intro filter_cong) auto
  also have "\<dots> = [0x26, 0x2e, 0x36, 0x3e, 0x64, 0x65, 0x66, 0x67, 0xf0, 0xf2, 0xf3]" by code_simp
  finally have 1: "filter (\<lambda>b. LEG_PREF_LOOKUP ?q ! b \<noteq> 0) [0..<255] = \<dots>" .
  have 2: "filter (\<lambda>b. LEG_PREF_LOOKUP ?q ! b \<noteq> 0 \<and> LEG_PREF_LOOKUP ?q ! b \<noteq> of_nat b) [0..<255] = []"
    using leg by (auto simp: filter_empty_conv)
  note 3 = i64_load_qtables_idem [of qtables_init]
  show ?thesis unfolding Let_def
    by (intro conjI 1 2 3) (simp_all add: i64_load_qtables_def qtables_init_def Let_def MODRM_TABLES_def)
qed

end
