(* ===== verification/IR_Create.thy ===== *)
theory IR_Create
  imports IR_Context I64_IR I64_Tables MIPS32
begin

text \<open>
  Building a translation context (\<^verbatim>\<open>mte/ir/ir.c\<close>): the per-architecture register maps and calls,
  and \<^verbatim>\<open>ir_create\<close>.
\<close>

section \<open>Per-architecture tables\<close>

fun arch_to_map :: "mte_arch \<Rightarrow> cpu_reg_map option" where
  "arch_to_map MIPS32 = Some MIPS32_CPU_REG_MAP"
| "arch_to_map INTEL64 = Some I64_CPU_REG_MAP"
| "arch_to_map MTE_ARCH_MIN = None"
| "arch_to_map MTE_ARCH_MAX = None"

text \<open>
  Selecting the Intel 64 map also loads the decoder's tables. \<open>arch_map_tables\<close> is this effect on the
  global tables, \<open>ir_create_tables\<close> the effect of creating a context.
\<close>

definition arch_map_tables :: "mte_arch \<Rightarrow> qtables \<Rightarrow> qtables" where
  "arch_map_tables arch q = (if arch = INTEL64 then i64_load_qtables q else q)"

definition ir_create_tables :: "mte_arch \<Rightarrow> mte_arch \<Rightarrow> qtables \<Rightarrow> qtables" where
  "ir_create_tables g_arch h_arch q = arch_map_tables h_arch (arch_map_tables g_arch q)"

lemma ir_create_tables_once:
  "ir_create_tables g h q = (if g = INTEL64 \<or> h = INTEL64 then i64_load_qtables q else q)"
  by (simp add: ir_create_tables_def arch_map_tables_def i64_load_qtables_idem)

fun arch_guest_to_ir :: "mte_arch \<Rightarrow> guest_to_ir_call option" where
  "arch_guest_to_ir MIPS32 = Some mips32_to_ir"
| "arch_guest_to_ir INTEL64 = None"
| "arch_guest_to_ir MTE_ARCH_MIN = None"
| "arch_guest_to_ir MTE_ARCH_MAX = None"

fun arch_ir_to_host :: "mte_arch \<Rightarrow> ir_to_host_call option" where
  "arch_ir_to_host MIPS32 = None"
| "arch_ir_to_host INTEL64 = Some i64_ir_to_raw"
| "arch_ir_to_host MTE_ARCH_MIN = None"
| "arch_ir_to_host MTE_ARCH_MAX = None"

fun arch_guest_reg_fetch :: "mte_arch \<Rightarrow> guest_reg_fetch_call option" where
  "arch_guest_reg_fetch MIPS32 = Some mips32_reg_fetch"
| "arch_guest_reg_fetch INTEL64 = None"
| "arch_guest_reg_fetch MTE_ARCH_MIN = None"
| "arch_guest_reg_fetch MTE_ARCH_MAX = None"

section \<open>ir_create\<close>

text \<open>A call that is present is made once with a zeroed instruction and null pointers.\<close>

definition prefetch_call :: "'f option \<Rightarrow> ('f \<Rightarrow> 'r res) \<Rightarrow> unit res" where
  "prefetch_call slot call =
    (case slot of None \<Rightarrow> Inr () | Some f \<Rightarrow> and_then (call f) (\<lambda>_. Inr ()))"

text \<open>
  \<open>code_mem\<close> and \<open>gen_mem\<close> are the contents of the two buffers the allocator returned;
  \<open>buf\<close> is the pointer argument, present or not, with what it points to after the call.
\<close>

definition ir_create ::
  "u64 \<Rightarrow> mte_arch \<Rightarrow> mte_arch \<Rightarrow> u64 \<Rightarrow> u64 \<Rightarrow> u8 list \<Rightarrow> u8 list \<Rightarrow> ir_context option option
     \<Rightarrow> (axres \<times> ir_context option option) res" where
  "ir_create ver g_arch h_arch code_size gen_size code_mem gen_mem buf =
    (if buf = None then Inr (AX_INV_BUF, buf)
     else
      (let ir = \<lparr>guest_base = code_mem, guest_capacity = ucast code_size,
                 host_base = gen_mem, host_capacity = ucast gen_size,
                 guest_ptr = 0, host_ptr = 0,
                 guest_map = arch_to_map g_arch, host_map = arch_to_map h_arch,
                 guest_to_ir = arch_guest_to_ir g_arch, ir_to_host = arch_ir_to_host h_arch,
                 guest_reg_fetch = arch_guest_reg_fetch g_arch,
                 guest_arch = g_arch, host_arch = h_arch,
                 version = ver, blocked = False\<rparr>
       in and_then (prefetch_call (guest_to_ir ir) (\<lambda>f. f (Some mte_raw_instr_zero) False None)) (\<lambda>_.
          and_then (prefetch_call (ir_to_host ir) (\<lambda>f. f ir_raw_instr_zero False None)) (\<lambda>_.
          and_then (prefetch_call (guest_reg_fetch ir) (\<lambda>f. f (Some mte_raw_instr_zero) False None)) (\<lambda>_.
            Inr (AX_SUCC, Some (Some ir)))))))"

text \<open>The prefetch calls of both architectures return at their null checks.\<close>

lemma prefetch_ok:
  "prefetch_call (arch_guest_to_ir a) (\<lambda>f. f (Some mte_raw_instr_zero) False None) = Inr ()"
  "prefetch_call (arch_ir_to_host a) (\<lambda>f. f ir_raw_instr_zero False None) = Inr ()"
  "prefetch_call (arch_guest_reg_fetch a) (\<lambda>f. f (Some mte_raw_instr_zero) False None) = Inr ()"
  by (cases a; simp add: prefetch_call_def mips32_to_ir_def i64_ir_to_raw_def mips32_reg_fetch_def)+

lemma ir_create_ok:
  "\<exists>ir. ir_create v g h cs gs cm gm (Some p) = Inr (AX_SUCC, Some (Some ir)) \<and>
     guest_map ir = arch_to_map g \<and> host_map ir = arch_to_map h \<and> guest_to_ir ir = arch_guest_to_ir g \<and>
     ir_to_host ir = arch_ir_to_host h \<and> guest_reg_fetch ir = arch_guest_reg_fetch g \<and>
     guest_arch ir = g \<and> host_arch ir = h \<and> guest_ptr ir = 0 \<and> host_ptr ir = 0 \<and>
     guest_base ir = cm \<and> host_base ir = gm \<and> guest_capacity ir = ucast cs \<and> host_capacity ir = ucast gs"
  by (simp add: ir_create_def Let_def prefetch_ok)

end
