(* ===== verification/Main_Example.thy ===== *)
theory Main_Example
  imports Passes IR_Create
begin

text \<open>
  The program of \<^verbatim>\<open>main.c\<close>: nine MIPS32 instructions over \<^verbatim>\<open>$t1\<close> and \<^verbatim>\<open>$t2\<close>, the context \<^verbatim>\<open>ir_create\<close>
  makes for it, and the host code \<^verbatim>\<open>main\<close> expects.
\<close>

definition main_words :: "u32 list" where
  "main_words = [0x012A4820, 0x01495020, 0x012A4822, 0x01495022, 0x012A4825, 0x01495025,
     0x012A4824, 0x01495024, 0x014A4820]"

definition main_expected :: "u8 list" where
  "main_expected = [0x4d, 0x01, 0xda, 0x4d, 0x01, 0xd3, 0x4d, 0x29, 0xda, 0x4d, 0x29, 0xd3,
     0x4d, 0x09, 0xda, 0x4d, 0x09, 0xd3, 0x4d, 0x21, 0xda, 0x4d, 0x21, 0xd3, 0x4d, 0x89, 0xda,
     0x4d, 0x01, 0xda]"

definition main_block_words :: "u32 list" where
  "main_block_words = main_words @ replicate 119 0"

definition main_ctx :: ir_context where
  "main_ctx = \<lparr>guest_base = concat (map le32_bytes main_block_words) @ replicate 12 0, guest_capacity = 524,
     host_base = replicate 768 0, host_capacity = 768, guest_ptr = 0, host_ptr = 0,
     guest_map = Some MIPS32_CPU_REG_MAP, host_map = Some I64_CPU_REG_MAP,
     guest_to_ir = Some mips32_to_ir, ir_to_host = Some i64_ir_to_raw, guest_reg_fetch = Some mips32_reg_fetch,
     guest_arch = MIPS32, host_arch = INTEL64, version = 0, blocked = False\<rparr>"

definition main_block :: tblock where
  "main_block = tblock_alloc TBLOCK_BIG (replicate 256 ir_raw_instr_zero)"

text \<open>The associations: \<^verbatim>\<open>$t1\<close> in \<^verbatim>\<open>r10\<close> and \<^verbatim>\<open>$t2\<close> in \<^verbatim>\<open>r11\<close>.\<close>

definition main_assoc :: "asm_reg_assoc list" where
  "main_assoc = (replicate IR_REG_LIMIT asm_reg_assoc_zero)
     [9 := \<lparr>a_flags = 2, a_id = 10\<rparr>, 10 := \<lparr>a_flags = 2, a_id = 11\<rparr>]"

lemma main_ctx_created:
  "ir_create 0 MIPS32 INTEL64 524 768 (guest_base main_ctx) (host_base main_ctx) (Some None) =
     Inr (AX_SUCC, Some (Some main_ctx))"
  by (simp add: ir_create_def Let_def prefetch_ok main_ctx_def prefetch_call_def mips32_to_ir_def
      i64_ir_to_raw_def mips32_reg_fetch_def)

lemma main_ctx_mips_i64: "mips_i64 main_ctx"
  by (simp add: mips_i64_def main_ctx_def)

lemma le32_concat:
  "k < length ws \<Longrightarrow> le32 (drop (4 * k) (concat (map le32_bytes ws) @ r)) = ws ! k"
proof (induction ws arbitrary: k)
  case (Cons w ws)
  show ?case
  proof (cases k)
    case 0
    then show ?thesis by (simp add: le32_le32_bytes)
  next
    case (Suc j)
    have "drop (4 * k) (concat (map le32_bytes (w # ws)) @ r) = drop (4 * j) (concat (map le32_bytes ws) @ r)"
    proof -
      have d4: "drop 4 (le32_bytes w @ z) = z" for z by (simp add: le32_bytes_def)
      have "4 * k = 4 * j + 4" using Suc by simp
      then show ?thesis using d4 by (simp only: list.map concat.simps append.assoc drop_drop [symmetric])
    qed
    with Cons Suc show ?thesis by (simp only: nth_Cons_Suc list.size add_Suc_right add_0_right Suc_less_eq)
  qed
qed simp

lemma length_concat_le32: "length (concat (map le32_bytes ws)) = 4 * length ws"
  by (induction ws) (simp_all add: le32_bytes_def)

lemma words_of_concat:
  assumes "length ws = block_words ty" "guest_base c = concat (map le32_bytes ws) @ r" "guest_ptr c = 0"
  shows "words_of c ty = ws"
  using assms(1) by (intro nth_equalityI)
    (simp_all add: words_of_def guest_word_def assms(2,3) le32_concat del: drop_append)

lemma length_main_block_words [simp]: "length main_block_words = 128"
  by (simp add: main_block_words_def main_words_def)

lemma main_words_of: "words_of main_ctx TBLOCK_BIG = main_block_words"
  by (rule words_of_concat [where r = "replicate 12 0"]) (simp_all add: main_ctx_def)

text \<open>
  A context that has the program in its guest buffer, and a block without associations. \<open>main_ctx\<close>
  and \<open>main_block\<close> are such.
\<close>

definition main_guest :: "ir_context \<Rightarrow> bool" where
  "main_guest c \<longleftrightarrow> mips_i64 c \<and> guest_ptr c = 0 \<and> host_ptr c = 0 \<and> 524 \<le> length (guest_base c) \<and>
     768 \<le> length (host_base c) \<and> words_of c TBLOCK_BIG = main_block_words"

definition blank_block :: "tblock \<Rightarrow> bool" where
  "blank_block b \<longleftrightarrow> block_shape b \<and> tb_type b = TBLOCK_BIG \<and> ir_cnt b = 0 \<and> spill_cnt b = 0 \<and>
     assoc b = replicate IR_REG_LIMIT asm_reg_assoc_zero \<and> state b = replicate IR_REG_LIMIT REG_FREE"

lemma main_ctx_guest: "main_guest main_ctx"
proof -
  have "length main_block_words = 128" by (simp add: main_block_words_def main_words_def)
  then have "length (guest_base main_ctx) = 524"
    using length_concat_le32 [of main_block_words] by (simp add: main_ctx_def del: length_concat)
  moreover have "guest_ptr main_ctx = 0" "host_ptr main_ctx = 0" "length (host_base main_ctx) = 768"
    by (simp_all add: main_ctx_def)
  ultimately show ?thesis
    using main_ctx_mips_i64 main_words_of by (simp add: main_guest_def)
qed

lemma tblock_alloc_blank:
  "length mem = 256 \<Longrightarrow> blank_block (tblock_alloc TBLOCK_BIG mem)"
  by (simp add: blank_block_def block_shape_def tblock_alloc_def TBLOCK_IR_BUFFER_SIZE_def SIZEOF_IR_RAW_INSTR_def)

lemma main_block_blank: "blank_block main_block"
  by (simp add: main_block_def tblock_alloc_blank)

lemma main_fill:
  assumes "mips_i64 c"
  shows "asm_fill_assoc (Some c) (Some (mips_instr 0x012A4820)) (Some 0)
     (Some (replicate IR_REG_LIMIT asm_reg_assoc_zero)) (Some (replicate IR_REG_LIMIT REG_FREE)) =
   Inr (Some 0, Some main_assoc, Some ((replicate IR_REG_LIMIT REG_FREE)[10 := REG_OCCUPIED, 11 := REG_OCCUPIED]))"
proof -
  have maps: "guest_map c = guest_map main_ctx" "host_map c = host_map main_ctx"
    using assms main_ctx_mips_i64 by (simp_all add: mips_i64_def)
  have "asm_fill_assoc (Some c) i sp as st = asm_fill_assoc (Some main_ctx) i sp as st" for i sp as st
    by (auto simp: asm_fill_assoc_def maps split: option.splits)
  moreover have "asm_fill_assoc (Some main_ctx) (Some (mips_instr 0x012A4820)) (Some 0)
     (Some (replicate IR_REG_LIMIT asm_reg_assoc_zero)) (Some (replicate IR_REG_LIMIT REG_FREE)) =
   Inr (Some 0, Some main_assoc, Some ((replicate IR_REG_LIMIT REG_FREE)[10 := REG_OCCUPIED, 11 := REG_OCCUPIED]))"
    by code_simp
  ultimately show ?thesis by simp
qed

lemma main_word_ok: "list_all (\<lambda>w. word_ok main_assoc w \<and>
    {unat (mips_rd w), unat (mips_rs w), unat (mips_rt w)} \<subseteq> {9, 10}) main_words"
  by code_simp

lemma main_table: "table_ok 16 main_assoc"
proof -
  have nth: "main_assoc ! g = (if g = 9 then \<lparr>a_flags = 2, a_id = 10\<rparr> else if g = 10 then \<lparr>a_flags = 2, a_id = 11\<rparr>
      else asm_reg_assoc_zero)" if "g < IR_REG_LIMIT" for g
    using that by (simp add: main_assoc_def nth_list_update)
  have "length main_assoc = IR_REG_LIMIT" by (simp add: main_assoc_def)
  then show ?thesis
    unfolding table_ok_def using nth by (auto split: if_splits)
qed

text \<open>The scan marks both registers in the first fragment.\<close>

lemma main_scan:
  assumes "main_guest c" "blank_block b"
  obtains lv where "tblock_liveness_scan (Some c) (Some b) = Inr ((128, AX_SUCC), Some (b\<lparr>liveness := lv\<rparr>))"
    "length lv = IR_REG_LIMIT" "bit (lv ! 9) 0" "bit (lv ! 10) 0"
proof -
  have c: "mips_i64 c" "guest_ptr c = 0" "524 \<le> length (guest_base c)" "words_of c TBLOCK_BIG = main_block_words"
    using assms(1) by (simp_all add: main_guest_def)
  have ty: "tb_type b = TBLOCK_BIG" "length (liveness b) = IR_REG_LIMIT"
    using assms(2) by (simp_all add: blank_block_def block_shape_def)
  have "guest_ptr c + block_bytes (tb_type b) + 12 \<le> length (guest_base c)"
    using c(2,3) by (simp add: ty)
  from mips_scan_spec [OF c(1) this] obtain lv where
    lv: "tblock_liveness_scan (Some c) (Some b) = Inr ((128, AX_SUCC), Some (b\<lparr>liveness := lv\<rparr>))"
      "length lv = IR_REG_LIMIT"
      "\<And>g i. g < IR_REG_LIMIT \<Longrightarrow> (\<exists>j < 128. 4 * j div 32 = i \<and>
          mips_uses (guest_word c (guest_ptr c + 4 * j)) g) \<Longrightarrow> i < 8 \<Longrightarrow> bit (lv ! g) i"
    unfolding ty by auto
  have "guest_word c (guest_ptr c + 4 * 0) = main_words ! 0"
    using arg_cong [OF c(4), of hd]
    by (simp add: words_of_def hd_map upt_rec main_block_words_def main_words_def)
  moreover have "mips_uses (main_words ! 0) 9" "mips_uses (main_words ! 0) 10" by code_simp+
  ultimately have "mips_uses (guest_word c (guest_ptr c + 4 * 0)) g" if "g = 9 \<or> g = 10" for g
    using that by auto
  then have "bit (lv ! g) 0" if "g = 9 \<or> g = 10" for g
    using that by (intro lv(3)) (auto simp: IR_REG_LIMIT_def intro!: exI [of _ 0])
  with that [OF lv(1,2)] show ?thesis by blast
qed

text \<open>The first word gives both registers their associations.\<close>

lemma main_first_word:
  assumes "mips_i64 c" "block_shape b" "ir_cnt b = 0" "spill_cnt b = 0"
    and "assoc b = replicate IR_REG_LIMIT asm_reg_assoc_zero" "state b = replicate IR_REG_LIMIT REG_FREE"
  obtains b1 where "place_instr c (mips_instr 0x012A4820) b = Inr b1" "block_shape b1"
    "unat (ir_cnt b1) \<le> 2" "liveness b1 = liveness b" "assoc b1 = main_assoc"
proof -
  let ?w = "0x012A4820 :: u32"
  have room: "unat (ir_cnt b) + 2 \<le> 256" using assms(3) by simp
  obtain b1 where p: "place_instr c (mips_instr ?w) b = Inr b1" "block_shape b1"
    "unat (ir_cnt b1) \<le> unat (ir_cnt b) + 2" "liveness b1 = liveness b"
    by (rule place_mips_instr [OF assms(1,2) room, of ?w]) (rule that)
  note fields = mips_field_limit [of ?w]
  obtain sp as st where a: "place_instr c (mips_instr ?w) b = Inr (b\<lparr>spill_cnt := sp, assoc := as, state := st,
       ir_buf := take (unat (ir_cnt b)) (ir_buf b) @ r_code (MIPS32_TO_IR_TABLE (mips32_funct ?w)) as (mips_rd ?w) (mips_rs ?w) (mips_rt ?w)
         @ drop (unat (ir_cnt b) + length (r_code (MIPS32_TO_IR_TABLE (mips32_funct ?w)) as (mips_rd ?w) (mips_rs ?w) (mips_rt ?w))) (ir_buf b),
       ir_cnt := ir_cnt b + of_nat (length (r_code (MIPS32_TO_IR_TABLE (mips32_funct ?w)) as (mips_rd ?w) (mips_rs ?w) (mips_rt ?w)))\<rparr>)"
    "asm_fill_assoc (Some c) (Some (mips_instr ?w)) (Some (spill_cnt b)) (Some (assoc b)) (Some (state b)) = Inr (Some sp, Some as, Some st)"
    by (rule place_r_instr [OF assms(1,2) room fields, of "MIPS32_TO_IR_TABLE (mips32_funct ?w)", folded mips_instr_def]) (rule that)
  have "as = main_assoc" using a(2) main_fill [OF assms(1)] assms(4-6) by simp
  moreover have "assoc b1 = as" using p(1) a(1) by auto
  ultimately show ?thesis using that [of b1] p assms(3) by simp
qed

lemma main_conv_ok:
  assumes "mips_i64 c" "block_shape b" "ir_cnt b = 0" "spill_cnt b = 0"
    and "assoc b = replicate IR_REG_LIMIT asm_reg_assoc_zero" "state b = replicate IR_REG_LIMIT REG_FREE"
    and "bit (liveness b ! 9) 0" "bit (liveness b ! 10) 0"
  shows "conv_ok c TBLOCK_BIG main_assoc 0 main_block_words b"
proof -
  let ?w = "0x012A4820 :: u32"
  have words: "main_words = ?w # tl main_words" by (simp add: main_words_def)
  have ok: "word_ok main_assoc w \<and> {unat (mips_rd w), unat (mips_rs w), unat (mips_rt w)} \<subseteq> {9, 10}"
    if "w \<in> set main_words" for w
    using main_word_ok that by (simp add: list_all_iff)
  obtain b1 where p: "place_instr c (mips_instr ?w) b = Inr b1" "block_shape b1"
    "unat (ir_cnt b1) \<le> 2" "liveness b1 = liveness b" "assoc b1 = main_assoc"
    by (rule main_first_word [OF assms(1-6)])
  have alive: "\<forall>g \<in> {9, 10}. \<not> dead_in (BIT 0) (liveness b) g"
    using assms(7,8) unfolding dead_in_def by (auto simp: bit_simps)
  have "conv_ok c TBLOCK_BIG main_assoc 1 (tl main_words) b1"
  proof (rule conv_ok_steady [where R = "{9, 10}"])
    show "\<forall>g \<in> {9, 10}. ir_reg_assoc_used (main_assoc ! g)"
      by (simp add: main_assoc_def IR_REG_LIMIT_def ir_reg_assoc_used_def)
    show "\<forall>w \<in> set (tl main_words). w = 0 \<or> word_ok main_assoc w \<and>
        {unat (mips_rd w), unat (mips_rs w), unat (mips_rt w)} \<subseteq> {9, 10}"
      using ok by (metis list.set_intros(2) words)
    show "\<forall>j < length (tl main_words). 4 * Suc (1 + j) div frag_bytes TBLOCK_BIG \<noteq> 4 * (1 + j) div frag_bytes TBLOCK_BIG \<longrightarrow>
       (\<forall>g \<in> {9, 10}. \<not> dead_in (BIT (4 * (1 + j) div frag_bytes TBLOCK_BIG)) (liveness b1) g)"
    proof (intro allI impI)
      fix j assume "j < length (tl main_words)" "4 * Suc (1 + j) div frag_bytes TBLOCK_BIG \<noteq> 4 * (1 + j) div frag_bytes TBLOCK_BIG"
      moreover have "list_all (\<lambda>j. 4 * Suc (1 + j) div 32 \<noteq> 4 * (1 + j) div 32 \<longrightarrow> j = 6) [0..<8]"
        by code_simp
      ultimately have "j = 6" by (simp only: list_all_iff) (simp add: main_words_def)
      with alive p(4) show "\<forall>g \<in> {9, 10}. \<not> dead_in (BIT (4 * (1 + j) div frag_bytes TBLOCK_BIG)) (liveness b1) g" by simp
    qed
  qed (use p assms(1) in \<open>simp_all add: main_words_def IR_REG_LIMIT_def\<close>)
  moreover have "flush_after c TBLOCK_BIG 0 b1 = Inr b1" by (simp add: flush_after_def)
  moreover have "word_ok main_assoc ?w" using ok words by (metis list.set_intros(1))
  ultimately have "conv_ok c TBLOCK_BIG main_assoc 0 (?w # tl main_words) b"
    using p(1,5) by (simp add: agrees_def)
  then have "conv_ok c TBLOCK_BIG main_assoc 0 main_words b" by (simp add: main_words_def)
  from conv_ok_append_nops [OF assms(1,2) _ this] assms(3) show ?thesis
    by (simp add: main_block_words_def main_words_def)
qed

text \<open>The code of the nine words, through the byte form of register instructions.\<close>

lemma main_irs: "words_irs main_assoc main_words =
   (let i = (\<lambda>opc d t. fix_instr_of (r_instr (ir_opcode_val opc) d d t))
    in [i IR_ADD_I32 10 11, i IR_ADD_I32 11 10, i IR_SUB_I32 10 11, i IR_SUB_I32 11 10,
        i IR_OR_I32 10 11, i IR_OR_I32 11 10, i IR_AND_I32 10 11, i IR_AND_I32 11 10,
        mov_instr_of (r_instr (ir_opcode_val IR_ADD_I32) 10 11 11),
        fix_instr_of (r_instr (ir_opcode_val IR_ADD_I32) 10 11 11)])"
  by code_simp

lemma main_code: "lower_all (words_irs main_assoc main_words) = Some main_expected"
proof -
  let ?b = "\<lambda>alu d t. rr_bytes (rr_opcode alu) True d t"
  have "list_all2 lowers_bytes (words_irs main_assoc main_words)
    [?b X_ADD 10 11, ?b X_ADD 11 10, ?b X_SUB 10 11, ?b X_SUB 11 10, ?b X_OR 10 11, ?b X_OR 11 10,
     ?b X_AND 10 11, ?b X_AND 11 10, rr_bytes MOV_64_R64 True 10 11, ?b X_ADD 10 11]"
    unfolding main_irs Let_def list_all2_Cons list_all2_Nil
    using lowers_bytes_fix [where irop = IR_ADD_I32 and alu = X_ADD and d = 10 and s = 10 and t = 11]
      lowers_bytes_fix [where irop = IR_ADD_I32 and alu = X_ADD and d = 11 and s = 11 and t = 10]
      lowers_bytes_fix [where irop = IR_SUB_I32 and alu = X_SUB and d = 10 and s = 10 and t = 11]
      lowers_bytes_fix [where irop = IR_SUB_I32 and alu = X_SUB and d = 11 and s = 11 and t = 10]
      lowers_bytes_fix [where irop = IR_OR_I32 and alu = X_OR and d = 10 and s = 10 and t = 11]
      lowers_bytes_fix [where irop = IR_OR_I32 and alu = X_OR and d = 11 and s = 11 and t = 10]
      lowers_bytes_fix [where irop = IR_AND_I32 and alu = X_AND and d = 10 and s = 10 and t = 11]
      lowers_bytes_fix [where irop = IR_AND_I32 and alu = X_AND and d = 11 and s = 11 and t = 10]
      lowers_bytes_mov [where irop = IR_ADD_I32 and alu = X_ADD and d = 10 and s = 11 and t = 11]
      lowers_bytes_fix [where irop = IR_ADD_I32 and alu = X_ADD and d = 10 and s = 11 and t = 11]
    by simp
  moreover have "concat [?b X_ADD 10 11, ?b X_ADD 11 10, ?b X_SUB 10 11, ?b X_SUB 11 10, ?b X_OR 10 11, ?b X_OR 11 10,
     ?b X_AND 10 11, ?b X_AND 11 10, rr_bytes MOV_64_R64 True 10 11, ?b X_ADD 10 11] = main_expected"
    by code_simp
  ultimately show ?thesis using lowers_bytes_all by metis
qed

lemma main_lower: "lower_all (words_irs main_assoc main_block_words) = Some main_expected"
  by (simp only: main_block_words_def words_irs_nops main_code)

lemma length_main_expected [simp]: "length main_expected = 30"
  by (simp add: main_expected_def)

text \<open>What the translation theorem asks of a context and a block.\<close>

lemma main_emit_hyps:
  assumes "main_guest c" "blank_block b"
  obtains lv where "mips_i64 c" "block_shape b" "ir_cnt b = 0"
    "guest_ptr c + block_bytes (tb_type b) + 12 \<le> length (guest_base c)"
    "host_ptr c + 6 * block_words (tb_type b) \<le> length (host_base c)"
    "tblock_liveness_scan (Some c) (Some b) = Inr ((128, AX_SUCC), Some (b\<lparr>liveness := lv\<rparr>))"
    "length lv = IR_REG_LIMIT"
    "conv_ok c (tb_type b) main_assoc 0 (words_of c (tb_type b)) (b\<lparr>liveness := lv\<rparr>)"
proof -
  obtain lv where lv: "tblock_liveness_scan (Some c) (Some b) = Inr ((128, AX_SUCC), Some (b\<lparr>liveness := lv\<rparr>))"
    "length lv = IR_REG_LIMIT" "bit (lv ! 9) 0" "bit (lv ! 10) 0" by (rule main_scan [OF assms])
  have "block_shape (b\<lparr>liveness := lv\<rparr>)" using assms(2) lv(2) by (simp add: blank_block_def block_shape_def)
  then have "conv_ok c TBLOCK_BIG main_assoc 0 main_block_words (b\<lparr>liveness := lv\<rparr>)"
    using assms lv(3,4) by (intro main_conv_ok) (simp_all add: main_guest_def blank_block_def)
  with that [OF _ _ _ _ _ lv(1,2)] assms show ?thesis by (simp add: main_guest_def blank_block_def)
qed

theorem tblock_emit_correct_witness:
  "\<exists>c' b'. tblock_emit (Some main_ctx) (Some main_block) = Inr (True, Some c', Some b') \<and>
     take 30 (host_base c') = main_expected \<and>
     (\<forall>H G. sim main_assoc H G \<longrightarrow> (\<exists>H' G'. x86_run main_expected H = Some H' \<and>
        mips_run main_block_words G = Some G' \<and> sim main_assoc H' G'))"
proof -
  have ty: "tb_type main_block = TBLOCK_BIG" and ptr: "host_ptr main_ctx = 0" "length (host_base main_ctx) = 768"
    by (simp_all add: main_block_def tblock_alloc_def main_ctx_def)
  obtain lv where h: "mips_i64 main_ctx" "block_shape main_block" "ir_cnt main_block = 0"
    "guest_ptr main_ctx + block_bytes (tb_type main_block) + 12 \<le> length (guest_base main_ctx)"
    "host_ptr main_ctx + 6 * block_words (tb_type main_block) \<le> length (host_base main_ctx)"
    "tblock_liveness_scan (Some main_ctx) (Some main_block) = Inr ((128, AX_SUCC), Some (main_block\<lparr>liveness := lv\<rparr>))"
    "length lv = IR_REG_LIMIT"
    "conv_ok main_ctx (tb_type main_block) main_assoc 0 (words_of main_ctx (tb_type main_block)) (main_block\<lparr>liveness := lv\<rparr>)"
    by (rule main_emit_hyps [OF main_ctx_guest main_block_blank])
  from tblock_emit_correct [OF h(1-6) main_table h(8)] show ?thesis
    unfolding ty main_words_of main_lower ptr by (auto simp: ptr)
qed

end
