(* ===== verification/Block_Tables.thy ===== *)
theory Block_Tables
  imports Passes
begin

text \<open>
  What a block leaves in its tables. Every block ends with a crossing out of fragment 15, which has
  no bit in the liveness bytes, so the last flush clears every guest register: the conversion of a
  block of register instructions ends with no association and no occupied host register.
\<close>

section \<open>The part of the tables no guest register reaches\<close>

definition tables_tail :: "asm_reg_assoc list \<Rightarrow> asm_reg_state list \<Rightarrow> bool" where
  "tables_tail as st \<longleftrightarrow> length as = IR_REG_LIMIT \<and> length st = IR_REG_LIMIT \<and>
     (\<forall>g. 32 \<le> g \<longrightarrow> g < IR_REG_LIMIT \<longrightarrow> as ! g = asm_reg_assoc_zero \<and> st ! g = REG_FREE)"

lemma associate_tail:
  assumes "tables_tail as st" "unat i < 32"
    and "associate i (alloc_spec I64_CPU_REG_MAP role st) (sp, as, st) = (sp', as', st')"
  shows "tables_tail as' st'"
proof -
  let ?r = "alloc_spec I64_CPU_REG_MAP role st"
  have len: "length as = IR_REG_LIMIT" "length st = IR_REG_LIMIT"
    using assms(1) by (simp_all add: tables_tail_def)
  have st: "st' = snd ?r" and as: "\<exists>x. as' = as[unat i := x]"
    using assms(3) by (auto simp: associate_def Let_def)
  have "snd ?r = st \<or> (\<exists>h < 16. snd ?r = st[h := REG_OCCUPIED])"
    using i64_alloc.alloc_spill [of role st] i64_alloc.alloc_free [of role st] len(2) by blast
  with st as assms(1,2) show ?thesis by (auto simp: tables_tail_def)
qed

lemma fill_loop_tail:
  "tables_tail as st \<Longrightarrow> \<forall>i \<in> set is. i < length xs \<and> unat (op_id (xs ! i)) < 32 \<Longrightarrow>
   fill_loop (Some MIPS32_CPU_REG_MAP) (Some I64_CPU_REG_MAP) xs is (sp, as, st) = Inr (sp', as', st') \<Longrightarrow>
   tables_tail as' st'"
proof (induction "is" arbitrary: sp as st)
  case Nil
  then show ?case by simp
next
  case (Cons i "is")
  let ?g = "op_id (xs ! i)"
  have len: "length as = IR_REG_LIMIT" "length st = IR_REG_LIMIT"
    using Cons.prems(1) by (simp_all add: tables_tail_def)
  let ?r = "alloc_spec I64_CPU_REG_MAP (reg_role (reg_root MIPS32_CPU_REG_MAP ! unat ?g)) st"
  obtain sp1 as1 st1 where t1: "associate ?g ?r (sp, as, st) = (sp1, as1, st1)" by (metis prod_cases3)
  have step: "fill_loop (Some MIPS32_CPU_REG_MAP) (Some I64_CPU_REG_MAP) xs (i # is) (sp, as, st) =
      (if ir_reg_assoc_used (as ! unat ?g) then Inr (sp, as, st)
       else fill_loop (Some MIPS32_CPU_REG_MAP) (Some I64_CPU_REG_MAP) xs is (sp1, as1, st1))"
    using Cons.prems(2) len t1 by (simp add: i64_fill_operand_spec)
  have "tables_tail as1 st1" using Cons.prems(2) by (intro associate_tail [OF Cons.prems(1) _ t1]) simp
  with Cons.IH [of as1 st1 sp1] Cons.prems step show ?case by (auto split: if_splits)
qed

section \<open>The tables along a block\<close>

lemma place_tail:
  assumes "mips_i64 c" "block_shape b" "unat (ir_cnt b) + 2 \<le> 256" "tables_tail (assoc b) (state b)"
    and "place_instr c (mips_instr w) b = Inr b1"
  shows "tables_tail (assoc b1) (state b1)"
proof -
  let ?i = "r_instr (MIPS32_TO_IR_TABLE (mips32_funct w)) (mips_rd w) (mips_rs w) (mips_rt w)"
  obtain sp as st where p: "place_instr c ?i b = Inr (b\<lparr>spill_cnt := sp, assoc := as, state := st,
       ir_buf := take (unat (ir_cnt b)) (ir_buf b) @ r_code (MIPS32_TO_IR_TABLE (mips32_funct w)) as (mips_rd w) (mips_rs w) (mips_rt w)
         @ drop (unat (ir_cnt b) + length (r_code (MIPS32_TO_IR_TABLE (mips32_funct w)) as (mips_rd w) (mips_rs w) (mips_rt w))) (ir_buf b),
       ir_cnt := ir_cnt b + of_nat (length (r_code (MIPS32_TO_IR_TABLE (mips32_funct w)) as (mips_rd w) (mips_rs w) (mips_rt w)))\<rparr>)"
    "asm_fill_assoc (Some c) (Some ?i) (Some (spill_cnt b)) (Some (assoc b)) (Some (state b)) = Inr (Some sp, Some as, Some st)"
    by (rule place_r_instr [OF assms(1-3) mips_field_limit(1) [of w] mips_field_limit(2) [of w] mips_field_limit(3) [of w],
          of "MIPS32_TO_IR_TABLE (mips32_funct w)"]) (rule that)
  let ?xs = "ops (opset ?i)"
  let ?is = "[if mips_rd w = mips_rs w then 1 else 0..<3]"
  have "fill_loop (Some MIPS32_CPU_REG_MAP) (Some I64_CPU_REG_MAP) ?xs ?is (spill_cnt b, assoc b, state b) = Inr (sp, as, st)"
    using p(2) assms(1) by (auto simp: asm_fill_assoc_def mips_i64_def r_instr_def and_then_Inr_iff)
  moreover have "\<forall>i \<in> set ?is. i < length ?xs \<and> unat (op_id (?xs ! i)) < 32"
    using mips_field_limit [of w] by (auto simp: r_instr_def nth_Cons' upt_rec)
  ultimately have "tables_tail as st" using fill_loop_tail [OF assms(4)] by blast
  with p(1) assms(5) show ?thesis by (auto simp: mips_instr_def)
qed

lemma flush_after_tables:
  assumes "mips_i64 c" "block_shape b" "flush_after c ty k b = Inr b'" "k < block_words ty"
  shows "assoc b' = map (\<lambda>g. if (4 * Suc k div frag_bytes ty \<noteq> 4 * k div frag_bytes ty) \<and> g < 32 \<and>
             dead_in (BIT (4 * k div frag_bytes ty)) (liveness b) g then asm_reg_assoc_zero else assoc b ! g) [0..<IR_REG_LIMIT]"
    and "state b' = map (\<lambda>g. if (4 * Suc k div frag_bytes ty \<noteq> 4 * k div frag_bytes ty) \<and> g < 32 \<and>
             dead_in (BIT (4 * k div frag_bytes ty)) (liveness b) g then REG_FREE else state b ! g) [0..<IR_REG_LIMIT]"
proof -
  have len: "length (assoc b) = IR_REG_LIMIT" "length (state b) = IR_REG_LIMIT"
    using assms(2) by (simp_all add: block_shape_def)
  have "guest_map c = Some MIPS32_CPU_REG_MAP" using assms(1) by (simp add: mips_i64_def)
  from asm_flush_by_liveness_spec [OF mips_reg_ids_wf this, of "of_nat (4 * k div frag_bytes ty)" "liveness b" "assoc b" "state b"]
  obtain as st where f: "asm_flush_by_liveness (Some c) (of_nat (4 * k div frag_bytes ty)) (Some (liveness b))
        (Some (assoc b)) (Some (state b)) = Inr (Some as, Some st)"
    "length as = length (assoc b)" "length st = length (state b)"
    "\<forall>g < length (assoc b). as ! g = (if g < 32 \<and> dead_in (BIT (unat (of_nat (4 * k div frag_bytes ty) :: u8))) (liveness b) g
        then asm_reg_assoc_zero else assoc b ! g)"
    "\<forall>g < length (state b). st ! g = (if g < 32 \<and> dead_in (BIT (unat (of_nat (4 * k div frag_bytes ty) :: u8))) (liveness b) g
        then REG_FREE else state b ! g)" by auto
  have "4 * k \<le> block_bytes ty" using assms(4) block_words_bytes [of ty] by simp
  from frag_index(2) [OF this] have "unat (of_nat (4 * k div frag_bytes ty) :: u8) = 4 * k div frag_bytes ty"
    by (simp add: unat_of_nat)
  note f = f [unfolded this]
  show "assoc b' = map (\<lambda>g. if (4 * Suc k div frag_bytes ty \<noteq> 4 * k div frag_bytes ty) \<and> g < 32 \<and>
      dead_in (BIT (4 * k div frag_bytes ty)) (liveness b) g then asm_reg_assoc_zero else assoc b ! g) [0..<IR_REG_LIMIT]"
    using assms(3) f len by (intro nth_equalityI) (auto simp: flush_after_def split: if_splits)
  show "state b' = map (\<lambda>g. if (4 * Suc k div frag_bytes ty \<noteq> 4 * k div frag_bytes ty) \<and> g < 32 \<and>
      dead_in (BIT (4 * k div frag_bytes ty)) (liveness b) g then REG_FREE else state b ! g) [0..<IR_REG_LIMIT]"
    using assms(3) f len by (intro nth_equalityI) (auto simp: flush_after_def split: if_splits)
qed

lemma flush_after_tail:
  assumes "mips_i64 c" "block_shape b" "flush_after c ty k b = Inr b'" "k < block_words ty"
    and "tables_tail (assoc b) (state b)"
  shows "tables_tail (assoc b') (state b')"
  using assms(5) by (simp add: flush_after_tables [OF assms(1-4)] tables_tail_def)

lemma conv_all_tail:
  assumes "mips_i64 c"
  shows "block_shape b \<Longrightarrow> unat (ir_cnt b) + 2 * length ws \<le> 256 \<Longrightarrow>
    list_all (\<lambda>w. mips32_get_instr_type w = MIPS_R) ws \<Longrightarrow> k + length ws \<le> block_words ty \<Longrightarrow>
    tables_tail (assoc b) (state b) \<Longrightarrow> conv_all c ty k ws b = Inr b' \<Longrightarrow>
    block_shape b' \<and> tables_tail (assoc b') (state b')"
proof (induction ws arbitrary: b k)
  case Nil
  then show ?case by simp
next
  case (Cons w ws)
  have room: "unat (ir_cnt b) + 2 \<le> 256" using Cons.prems(2) by simp
  obtain b1 where b1: "(if MIPS32_TO_IR_TABLE (mips32_funct w) = ir_opcode_val IR_INVALID_OPCODE then Inr b
        else place_instr c (mips_instr w) b) = Inr b1" "block_shape b1"
      "unat (ir_cnt b1) \<le> unat (ir_cnt b) + 2" "tables_tail (assoc b1) (state b1)"
  proof (cases "MIPS32_TO_IR_TABLE (mips32_funct w) = ir_opcode_val IR_INVALID_OPCODE")
    case True
    with that [of b] Cons.prems show ?thesis by simp
  next
    case False
    obtain b1 where p: "place_instr c (mips_instr w) b = Inr b1" "block_shape b1"
      "unat (ir_cnt b1) \<le> unat (ir_cnt b) + 2"
      using place_mips_instr [OF assms Cons.prems(1) room, of w] by metis
    from place_tail [OF assms Cons.prems(1) room Cons.prems(5) p(1)] that [of b1] False p show ?thesis by simp
  qed
  obtain as st where fl: "flush_after c ty k b1 = Inr (b1\<lparr>assoc := as, state := st\<rparr>)"
    "length as = IR_REG_LIMIT" "length st = IR_REG_LIMIT"
    using flush_after_ok [OF assms b1(2)] by metis
  let ?b2 = "b1\<lparr>assoc := as, state := st\<rparr>"
  have k: "k < block_words ty" using Cons.prems(4) by simp
  have "tables_tail (assoc ?b2) (state ?b2)" by (rule flush_after_tail [OF assms b1(2) fl(1) k b1(4)])
  moreover have "block_shape ?b2" using b1(2) fl(2,3) by (simp add: block_shape_def)
  moreover have "conv_all c ty (Suc k) ws ?b2 = Inr b'"
    using Cons.prems(3,6) b1(1) fl(1) by (simp add: word_conv_def)
  ultimately show ?case using Cons.IH [of ?b2 "Suc k"] Cons.prems(2-4) b1(3) by simp
qed

text \<open>The last crossing leaves a fragment without liveness bits.\<close>

lemma last_fragment:
  assumes "Suc k = block_words ty"
  shows "4 * Suc k div frag_bytes ty \<noteq> 4 * k div frag_bytes ty" "4 * k div frag_bytes ty = 15"
  using assms by (cases ty; simp)+

lemma last_flush_clears:
  assumes "mips_i64 c" "block_shape b" "flush_after c ty k b = Inr b'" "Suc k = block_words ty"
    and "tables_tail (assoc b) (state b)"
  shows "assoc b' = replicate IR_REG_LIMIT asm_reg_assoc_zero \<and> state b' = replicate IR_REG_LIMIT REG_FREE"
proof -
  have k: "k < block_words ty" using assms(4) by simp
  have dead: "dead_in (BIT (4 * k div frag_bytes ty)) (liveness b) g" for g
    unfolding last_fragment(2) [OF assms(4)] by (rule dead_in_upper) simp
  show ?thesis
    unfolding flush_after_tables [OF assms(1-3) k]
    using assms(5) dead last_fragment(1) [OF assms(4)]
    by (intro conjI nth_equalityI) (auto simp: tables_tail_def)
qed

lemma conv_all_clears:
  assumes "mips_i64 c" "block_shape b" "unat (ir_cnt b) + 2 * length ws \<le> 256"
    and "list_all (\<lambda>w. mips32_get_instr_type w = MIPS_R) ws" "length ws = block_words ty"
    and "tables_tail (assoc b) (state b)" "conv_all c ty 0 ws b = Inr b'"
  shows "assoc b' = replicate IR_REG_LIMIT asm_reg_assoc_zero \<and> state b' = replicate IR_REG_LIMIT REG_FREE"
proof -
  have "0 < block_words ty" by (cases ty) simp_all
  then have ne: "ws \<noteq> []" using assms(5) by auto
  define us w where "us = butlast ws" and "w = last ws"
  have ws: "ws = us @ [w]" using ne by (simp add: us_def w_def)
  note p = assms(3-5) [unfolded ws]
  obtain b1 where b1: "conv_all c ty 0 us b = Inr b1" and w: "word_conv c ty (length us) w b1 = Inr b'"
    using assms(7) unfolding ws conv_all_append by (auto simp: and_then_Inr_iff)
  obtain b1' where "conv_all c ty 0 us b = Inr b1'" and cnt: "unat (ir_cnt b1') \<le> unat (ir_cnt b) + 2 * length us"
    using conv_all_total [OF assms(1,2), of us ty 0] p(1,2) by auto
  with b1 have cnt: "unat (ir_cnt b1) + 2 \<le> 256" using p(1) by simp
  have s1: "block_shape b1" "tables_tail (assoc b1) (state b1)"
    using conv_all_tail [OF assms(1,2) _ _ _ assms(6) b1] p by simp_all
  obtain b2 where b2: "flush_after c ty (length us) b2 = Inr b'" "block_shape b2" "tables_tail (assoc b2) (state b2)"
  proof (cases "MIPS32_TO_IR_TABLE (mips32_funct w) = ir_opcode_val IR_INVALID_OPCODE")
    case True
    with that [of b1] w s1 p(2) show ?thesis by (simp add: word_conv_def)
  next
    case False
    obtain b2 where pl: "place_instr c (mips_instr w) b1 = Inr b2" "block_shape b2"
      using place_mips_instr [OF assms(1) s1(1) cnt, of w] by metis
    from that [of b2] pl place_tail [OF assms(1) s1(1) cnt s1(2) pl(1)] w False p(2)
    show ?thesis by (simp add: word_conv_def)
  qed
  show ?thesis by (rule last_flush_clears [OF assms(1) b2(2,1) _ b2(3)]) (use p(3) in simp)
qed

end
