(* ===== verification/Main_Program.thy ===== *)
theory Main_Program
  imports Main_Example Block_Tables
begin

text \<open>
  The program \<^verbatim>\<open>main.c\<close>: it creates a context, writes nine MIPS32 instructions to the guest buffer,
  emits the same block 10000 times, and compares the first 200 bytes of the host buffer with the code it
  expects. Memory from the allocator, the result check \<^verbatim>\<open>axcheck\<close> and the comparison
  \<^verbatim>\<open>_sfmemcmp_fast\<close> belong to the utility library and are parameters.
\<close>

section \<open>The program\<close>

text \<open>\<^verbatim>\<open>((u32*)base)[i] = w\<close>, for the words from index \<open>i\<close> on.\<close>

fun store_words :: "u32 list \<Rightarrow> nat \<Rightarrow> u8 list \<Rightarrow> u8 list res" where
  "store_words [] i base = Inr base"
| "store_words (w # ws) i base = and_then (buf_write base (4 * i) (le32_bytes w)) (store_words ws (Suc i))"

text \<open>The loop; \<open>None\<close> is the early return when a block is not emitted.\<close>

fun main_loop :: "nat \<Rightarrow> ir_context \<Rightarrow> tblock \<Rightarrow> (ir_context \<times> tblock) option res" where
  "main_loop 0 ir block = Inr (Some (ir, block))"
| "main_loop (Suc n) ir block =
    and_then (tblock_emit (Some ir) (Some block)) (\<lambda>(emit, ir', block').
      if \<not> emit then Inr None
      else and_then (deref ir') (\<lambda>ir'. and_then (deref block') (\<lambda>block'.
        main_loop n ir' (block'\<lparr>ir_cnt := 0\<rparr>))))"

text \<open>What the program prints: the bytes, the size of the code, and the verdict.\<close>

datatype main_result = Main_Returned | Main_Printed "u8 list" nat bool

definition GIB_1 :: u64 where "GIB_1 = 2 ^ 30"

definition main_program ::
  "(axres \<Rightarrow> unit res) \<Rightarrow> (u8 list \<Rightarrow> u8 list \<Rightarrow> nat \<Rightarrow> int) \<Rightarrow> u64 \<Rightarrow> u8 list \<Rightarrow> u8 list \<Rightarrow> ir_raw_instr list
    \<Rightarrow> main_result res" where
  "main_program axcheck sfmemcmp ver code_mem gen_mem ir_mem =
    and_then (ir_create ver MIPS32 INTEL64 GIB_1 GIB_1 code_mem gen_mem (Some None)) (\<lambda>(r, ir).
    and_then (axcheck r) (\<lambda>_. and_then (deref ir) (\<lambda>ir. and_then (deref ir) (\<lambda>ir.
    and_then (store_words main_words 0 (guest_base ir)) (\<lambda>base.
    and_then (main_loop 10000 (ir\<lparr>guest_base := base\<rparr>) (tblock_alloc TBLOCK_BIG ir_mem)) (\<lambda>result.
      case result of None \<Rightarrow> Inr Main_Returned
      | Some (ir, block) \<Rightarrow>
          and_then (buf_read (host_base ir) 0 200) (\<lambda>bytes.
            Inr (Main_Printed bytes (host_ptr ir)
              (sfmemcmp (host_base ir) (main_expected @ replicate 170 0) 200 = 0)))))))))"

section \<open>One block after another\<close>

text \<open>
  The conversion of a block ends with empty tables, so every round of the loop starts as the first
  one did and emits the same code to the same place.
\<close>

lemma main_emit_round:
  assumes "main_guest c" "blank_block b"
  obtains b' where "tblock_emit (Some c) (Some b) =
      Inr (True, Some (c\<lparr>host_base := main_expected @ drop 30 (host_base c)\<rparr>), Some b')"
    "blank_block (b'\<lparr>ir_cnt := 0\<rparr>)"
proof -
  have c: "words_of c TBLOCK_BIG = main_block_words" "host_ptr c = 0" and b: "tb_type b = TBLOCK_BIG"
    using assms by (simp_all add: main_guest_def blank_block_def)
  obtain lv where h: "mips_i64 c" "block_shape b" "ir_cnt b = 0"
    "guest_ptr c + block_bytes (tb_type b) + 12 \<le> length (guest_base c)"
    "host_ptr c + 6 * block_words (tb_type b) \<le> length (host_base c)"
    "tblock_liveness_scan (Some c) (Some b) = Inr ((128, AX_SUCC), Some (b\<lparr>liveness := lv\<rparr>))"
    "length lv = IR_REG_LIMIT"
    "conv_ok c (tb_type b) main_assoc 0 (words_of c (tb_type b)) (b\<lparr>liveness := lv\<rparr>)"
    by (rule main_emit_hyps [OF assms])
  obtain b2 bss where e: "conv_all c TBLOCK_BIG 0 main_block_words (b\<lparr>liveness := lv\<rparr>) = Inr b2" "block_shape b2"
    "tblock_emit (Some c) (Some b) = Inr (True,
       Some (c\<lparr>host_base := concat bss @ drop (length (concat bss)) (host_base c)\<rparr>), Some (b2\<lparr>spill_cnt := 0\<rparr>))"
    "code_ok main_assoc (words_irs main_assoc main_block_words) bss main_block_words"
    by (rule tblock_emit_converts [OF h(1-6) main_table h(8), unfolded b c]) simp
  have code: "concat bss = main_expected" using code_ok_all(1) [OF e(4)] main_lower by simp
  let ?b1 = "b\<lparr>liveness := lv\<rparr>"
  have b1: "block_shape ?b1" "unat (ir_cnt ?b1) + 2 * length main_block_words \<le> 256"
    "tables_tail (assoc ?b1) (state ?b1)"
    using assms(2) h(7) by (simp_all add: blank_block_def block_shape_def tables_tail_def)
  have R: "list_all (\<lambda>w. mips32_get_instr_type w = MIPS_R) main_block_words"
    using main_word_ok by (auto simp: main_block_words_def list_all_iff nop_word word_ok_def)
  have "assoc b2 = replicate IR_REG_LIMIT asm_reg_assoc_zero \<and> state b2 = replicate IR_REG_LIMIT REG_FREE"
    by (rule conv_all_clears [OF h(1) b1(1,2) R _ b1(3) e(1)]) simp
  moreover have "tb_type b2 = TBLOCK_BIG"
    using conv_all_total [OF h(1) b1(1,2) R, of TBLOCK_BIG 0] e(1) b by auto
  ultimately have "blank_block (b2\<lparr>spill_cnt := 0, ir_cnt := 0\<rparr>)"
    using e(2) by (simp add: blank_block_def block_shape_def)
  with that [of "b2\<lparr>spill_cnt := 0\<rparr>"] e(3) show ?thesis unfolding code by simp
qed

lemma main_guest_emitted:
  "main_guest c \<Longrightarrow> main_guest (c\<lparr>host_base := main_expected @ drop 30 (host_base c)\<rparr>)"
  by (auto simp: main_guest_def mips_i64_def words_of_def guest_word_def)

lemma main_loop_emits:
  "main_guest c \<Longrightarrow> blank_block b \<Longrightarrow>
   \<exists>b'. main_loop (Suc n) c b = Inr (Some (c\<lparr>host_base := main_expected @ drop 30 (host_base c)\<rparr>, b')) \<and> blank_block b'"
proof (induction n arbitrary: c b)
  case 0
  obtain b1 where "tblock_emit (Some c) (Some b) =
      Inr (True, Some (c\<lparr>host_base := main_expected @ drop 30 (host_base c)\<rparr>), Some b1)" "blank_block (b1\<lparr>ir_cnt := 0\<rparr>)"
    by (rule main_emit_round [OF 0])
  then show ?case by simp
next
  case (Suc n)
  let ?c = "c\<lparr>host_base := main_expected @ drop 30 (host_base c)\<rparr>"
  obtain b1 where b1: "tblock_emit (Some c) (Some b) = Inr (True, Some ?c, Some b1)" "blank_block (b1\<lparr>ir_cnt := 0\<rparr>)"
    by (rule main_emit_round [OF Suc.prems])
  from Suc.IH [OF main_guest_emitted [OF Suc.prems(1)] b1(2)] obtain b' where
    "main_loop (Suc n) ?c (b1\<lparr>ir_cnt := 0\<rparr>) = Inr (Some (?c, b'))" "blank_block b'" by auto
  then show ?case unfolding main_loop.simps(2) [of "Suc n" c b] by (simp add: b1(1) del: main_loop.simps)
qed

text \<open>The state before any round, and what the round does to a host buffer of any contents.\<close>

lemma main_loop_rounds:
  assumes "main_guest c" "blank_block b"
  shows "\<exists>c' b'. main_loop n c b = Inr (Some (c', b')) \<and>
    (\<forall>hb. 768 \<le> length hb \<longrightarrow> (\<exists>b''. tblock_emit (Some (c'\<lparr>host_base := hb\<rparr>)) (Some b') =
      Inr (True, Some (c'\<lparr>host_base := main_expected @ drop 30 hb\<rparr>), Some b'')))"
proof -
  obtain c' b' where run: "main_loop n c b = Inr (Some (c', b'))" and inv: "main_guest c'" "blank_block b'"
  proof (cases n)
    case 0
    with assms that show ?thesis by simp
  next
    case (Suc m)
    obtain b' where b': "main_loop (Suc m) c b = Inr (Some (c\<lparr>host_base := main_expected @ drop 30 (host_base c)\<rparr>, b'))"
      "blank_block b'" using main_loop_emits [OF assms, of m] by blast
    from that [OF _ main_guest_emitted [OF assms(1)] b'(2)] b'(1) Suc show ?thesis by simp
  qed
  have "\<exists>b''. tblock_emit (Some (c'\<lparr>host_base := hb\<rparr>)) (Some b') =
      Inr (True, Some (c'\<lparr>host_base := main_expected @ drop 30 hb\<rparr>), Some b'')" if "768 \<le> length hb" for hb
  proof -
    have "main_guest (c'\<lparr>host_base := hb\<rparr>)"
      using inv(1) that by (auto simp: main_guest_def mips_i64_def words_of_def guest_word_def)
    from main_emit_round [OF this inv(2)] show ?thesis by auto
  qed
  with run show ?thesis by blast
qed

section \<open>The guest buffer\<close>

lemma store_words_result:
  "4 * i + 4 * length ws \<le> length base \<Longrightarrow>
   store_words ws i base = Inr (take (4 * i) base @ concat (map le32_bytes ws) @ drop (4 * i + 4 * length ws) base)"
proof (induction ws arbitrary: i base)
  case (Cons w ws)
  have len: "length (le32_bytes w) = 4" by (simp add: le32_bytes_def)
  let ?base = "take (4 * i) base @ le32_bytes w @ drop (4 * i + 4) base"
  have "buf_write base (4 * i) (le32_bytes w) = Inr ?base"
    using Cons.prems len by (simp add: buf_write_def)
  moreover have "take (4 * Suc i) ?base = take (4 * i) base @ le32_bytes w"
    using Cons.prems len by simp
  moreover have "drop (4 * Suc i + 4 * length ws) ?base = drop (4 * i + 4 * length (w # ws)) base"
    using Cons.prems len by (simp add: algebra_simps)
  ultimately show ?case using Cons.IH [of "Suc i" ?base] Cons.prems len by simp
qed simp

lemma concat_le32_zeros: "concat (map le32_bytes (replicate n 0)) = replicate (4 * n) 0"
proof (induction n)
  case (Suc n)
  have "le32_bytes 0 = replicate 4 0" by (simp add: le32_bytes_def eval_nat_numeral)
  moreover have "4 * Suc n = 4 + 4 * n" by simp
  ultimately show ?case using Suc by (simp only: replicate_Suc list.map concat.simps replicate_add)
qed simp

text \<open>The nine instructions and the 119 words that follow, which are zero when the buffer is.\<close>

lemma main_guest_created:
  assumes "524 \<le> length code_mem" "take 476 (drop 36 code_mem) = replicate 476 0" "768 \<le> length gen_mem"
    and "mips_i64 c" "guest_base c = concat (map le32_bytes main_words) @ drop 36 code_mem"
    and "host_base c = gen_mem" "guest_ptr c = 0" "host_ptr c = 0"
  shows "main_guest c"
proof -
  have "drop 36 code_mem = replicate 476 0 @ drop 476 (drop 36 code_mem)"
    using assms(2) by (metis append_take_drop_id)
  also have "replicate 476 0 = concat (map le32_bytes (replicate 119 0))"
    by (simp only: concat_le32_zeros) simp
  finally have "guest_base c = concat (map le32_bytes main_block_words) @ drop 476 (drop 36 code_mem)"
    using assms(5) by (simp only: main_block_words_def map_append concat_append append_assoc)
  from words_of_concat [OF _ this assms(7), of TBLOCK_BIG] have "words_of c TBLOCK_BIG = main_block_words" by simp
  moreover have "length (guest_base c) = length code_mem"
    using assms(1) length_concat_le32 [of main_words] by (simp add: assms(5) main_words_def del: length_concat)
  ultimately show ?thesis using assms by (simp add: main_guest_def)
qed

text \<open>
  C2: what \<^verbatim>\<open>main\<close> prints. Its hypotheses: the result check passes \<^verbatim>\<open>AX_SUCC\<close>, the comparison returns 0 exactly
  for equal first 200 bytes, the allocator gives the buffers their sizes, and the bytes 36 to 511 of the
  fresh guest memory (the part of the block behind the nine instructions, which the program never writes)
  are zero. Then each of the 10000 rounds of the loop succeeds and writes the 30 bytes of the expected code
  at the start of the host buffer, whatever the buffer held; the program prints these 30 bytes and the next
  170 of the fresh host memory, with a code size of 0, since \<^verbatim>\<open>host_ptr\<close> does not move; and the verdict is
  \<^verbatim>\<open>Expected output\<close> exactly if those 170 bytes, which the program never wrote, were zero.
\<close>

theorem main_program_output:
  assumes "axcheck AX_SUCC = Inr ()" "\<And>a b. sfmemcmp a b 200 = 0 \<longleftrightarrow> take 200 a = take 200 b"
    and "length code_mem = unat GIB_1" "length gen_mem = unat GIB_1" "length ir_mem = 256"
    and "take 476 (drop 36 code_mem) = replicate 476 0"
  shows "main_program axcheck sfmemcmp ver code_mem gen_mem ir_mem =
      Inr (Main_Printed (main_expected @ take 170 (drop 30 gen_mem)) 0 (take 170 (drop 30 gen_mem) = replicate 170 0)) \<and>
    (\<exists>ir base. ir_create ver MIPS32 INTEL64 GIB_1 GIB_1 code_mem gen_mem (Some None) = Inr (AX_SUCC, Some (Some ir)) \<and>
      store_words main_words 0 (guest_base ir) = Inr base \<and>
      (\<forall>n < 10000. \<exists>c b. main_loop n (ir\<lparr>guest_base := base\<rparr>) (tblock_alloc TBLOCK_BIG ir_mem) = Inr (Some (c, b)) \<and>
        (\<forall>host. length host = unat GIB_1 \<longrightarrow> (\<exists>b'. tblock_emit (Some (c\<lparr>host_base := host\<rparr>)) (Some b) =
          Inr (True, Some (c\<lparr>host_base := main_expected @ drop 30 host\<rparr>), Some b')))))"
proof -
  obtain ir where ir: "ir_create ver MIPS32 INTEL64 GIB_1 GIB_1 code_mem gen_mem (Some None) = Inr (AX_SUCC, Some (Some ir))"
    "guest_map ir = arch_to_map MIPS32" "host_map ir = arch_to_map INTEL64"
    "guest_to_ir ir = arch_guest_to_ir MIPS32" "ir_to_host ir = arch_ir_to_host INTEL64"
    "guest_reg_fetch ir = arch_guest_reg_fetch MIPS32" "guest_arch ir = MIPS32" "host_arch ir = INTEL64"
    "guest_ptr ir = 0" "host_ptr ir = 0" "guest_base ir = code_mem" "host_base ir = gen_mem"
    using ir_create_ok by blast
  have size: "unat GIB_1 = 2 ^ 30" by (simp add: GIB_1_def)
  define base where "base = concat (map le32_bytes main_words) @ drop 36 code_mem"
  have st: "store_words main_words 0 code_mem = Inr base"
    using store_words_result [of 0 main_words code_mem] assms(3) size by (simp add: base_def main_words_def)
  let ?c = "ir\<lparr>guest_base := base\<rparr>"
  have guest: "main_guest ?c" unfolding base_def
    using ir assms(3,4,6) size by (intro main_guest_created [of code_mem gen_mem]) (simp_all add: mips_i64_def)
  from main_loop_emits [OF guest tblock_alloc_blank [OF assms(5)], of 9999] ir(12) obtain b' where
    "main_loop 10000 ?c (tblock_alloc TBLOCK_BIG ir_mem) = Inr (Some (?c\<lparr>host_base := main_expected @ drop 30 gen_mem\<rparr>, b'))"
    by (auto simp del: main_loop.simps)
  moreover have "sfmemcmp (main_expected @ drop 30 gen_mem) (main_expected @ replicate 170 0) 200 = 0 \<longleftrightarrow>
      take 170 (drop 30 gen_mem) = replicate 170 0"
    by (simp add: assms(2))
  ultimately have "main_program axcheck sfmemcmp ver code_mem gen_mem ir_mem =
      Inr (Main_Printed (main_expected @ take 170 (drop 30 gen_mem)) 0 (take 170 (drop 30 gen_mem) = replicate 170 0))"
    using ir(1,10,11) st assms(1,4) size by (simp add: main_program_def buf_read_def del: main_loop.simps)
  moreover have "\<exists>c b. main_loop n ?c (tblock_alloc TBLOCK_BIG ir_mem) = Inr (Some (c, b)) \<and>
      (\<forall>host. length host = unat GIB_1 \<longrightarrow> (\<exists>b'. tblock_emit (Some (c\<lparr>host_base := host\<rparr>)) (Some b) =
        Inr (True, Some (c\<lparr>host_base := main_expected @ drop 30 host\<rparr>), Some b')))" for n
  proof -
    have "768 \<le> length host" if "length host = unat GIB_1" for host :: "u8 list" using that size by simp
    with main_loop_rounds [OF guest tblock_alloc_blank [OF assms(5)], of n] show ?thesis by blast
  qed
  ultimately show ?thesis using ir(1,11) st by blast
qed

theorem main_program_output_witness:
  "main_program (\<lambda>_. Inr ()) (\<lambda>a b n. if take n a = take n b then 0 else 1) 0
      (replicate (2 ^ 30) 0) (replicate (2 ^ 30) 0) (replicate 256 ir_raw_instr_zero) =
    Inr (Main_Printed (main_expected @ replicate 170 0) 0 True)"
proof -
  have size: "unat GIB_1 = 2 ^ 30" by (simp add: GIB_1_def)
  have t: "take n (drop m (replicate (2 ^ 30) (0 :: u8))) = replicate n 0" if "m + n \<le> 2 ^ 30" for m n
    using that by (simp)
  show ?thesis
    by (subst main_program_output [THEN conjunct1]) (simp_all add: size t)
qed

end
