(* ===== verification/Asm_Props.thy ===== *)
theory Asm_Props
  imports Reg_Maps
begin

text \<open>
  The properties of register association on the two machines: the allocator against its
  specification, the association invariant under filling and flushing, and the consistency of the
  register maps. The lemmas are those of \<open>Asm_Alloc\<close>, \<open>Asm_Fix\<close> and \<open>Reg_Maps\<close>.
\<close>

section \<open>Register maps and allocation\<close>

text \<open>
  C33: the Intel 64 register map is consistent: entry \<open>i\<close> has identifier \<open>i\<close> and every role mask marks
  exactly the registers with that role. The MIPS32 map is consistent except for the mask of the
  temporaries, which leaves out \<^verbatim>\<open>$t0\<close>.
\<close>

theorem reg_maps_consistent:
  "reg_map_wf I64_CPU_REG_MAP \<and> reg_ids_wf MIPS32_CPU_REG_MAP \<and>
   (\<forall>r. role_mask_wf MIPS32_CPU_REG_MAP r \<longleftrightarrow> r \<noteq> REG_TEMP) \<and>
   reg_role (reg_root MIPS32_CPU_REG_MAP ! 8) = REG_TEMP \<and> \<not> bit (role_map MIPS32_CPU_REG_MAP REG_TEMP ! 0) 8"
  by (simp add: i64_reg_map_wf mips_reg_ids_wf mips_role_masks)
    (simp add: MIPS32_CPU_REG_MAP_def mips32_reg_def)

text \<open>
  C29: on a consistent map of at most 16 registers \<^verbatim>\<open>asm_alloc_space\<close> returns the first register of the
  role that is free and marks it occupied; it reports a spill, and touches nothing, exactly when
  the role has no free register.
\<close>

theorem asm_alloc_space_first_free:
  assumes "reg_map_wf m" "length (reg_root m) \<le> 16" "length (reg_root m) \<le> length st"
  shows "asm_alloc_space (Some m) role (Some st) =
    Inr (case find (\<lambda>i. reg_role (reg_root m ! i) = role \<and> st ! i = REG_FREE) [0..<length (reg_root m)] of
           None \<Rightarrow> (0x100, Some st)
         | Some i \<Rightarrow> (of_nat i, Some (st[i := REG_OCCUPIED])))"
  using asm_alloc_space_spec [OF assms]
  by (simp add: alloc_spec_def free_of_role_def [abs_def] split: option.splits)

theorem asm_alloc_space_first_free_witness:
  "asm_alloc_space (Some I64_CPU_REG_MAP) REG_TEMP (Some ((replicate IR_REG_LIMIT REG_FREE)[10 := REG_OCCUPIED])) =
     Inr (11, Some ((replicate IR_REG_LIMIT REG_FREE)[10 := REG_OCCUPIED, 11 := REG_OCCUPIED]))"
proof -
  let ?st = "(replicate IR_REG_LIMIT REG_FREE)[10 := REG_OCCUPIED]"
  have "find (\<lambda>i. reg_role (reg_root I64_CPU_REG_MAP ! i) = REG_TEMP \<and> ?st ! i = REG_FREE) [0..<16] = Some 11"
    by code_simp
  then show ?thesis
    using asm_alloc_space_first_free [OF i64_reg_map_wf, of ?st REG_TEMP] by (simp add: IR_REG_LIMIT_def)
qed

section \<open>Filling\<close>

lemma fill_assoc_i64:
  assumes "guest_map c = Some gm" "host_map c = Some I64_CPU_REG_MAP" "ir_operand_set_wf (opset ins)"
    and "\<forall>i < unat (ops_count (opset ins)). unat (op_id (ops (opset ins) ! i)) < length (reg_root gm)"
    and "length as = IR_REG_LIMIT" "length st = IR_REG_LIMIT"
  defines "is \<equiv> [if op_id (ops (opset ins) ! 0) = op_id (ops (opset ins) ! 1) then 1 else 0..<unat (ops_count (opset ins))]"
  obtains sp' as' st' where
    "asm_fill_assoc (Some c) (Some ins) (Some sp) (Some as) (Some st) = Inr (Some sp', Some as', Some st')"
    "fill_loop (Some gm) (Some I64_CPU_REG_MAP) (ops (opset ins)) is (sp, as, st) = Inr (sp', as', st')"
    "\<And>g. ir_reg_assoc_used (as ! g) \<Longrightarrow> as' ! g = as ! g"
    "\<And>g. \<forall>i < unat (ops_count (opset ins)). unat (op_id (ops (opset ins) ! i)) \<noteq> g \<Longrightarrow> as' ! g = as ! g"
    "assoc_inv 16 as st \<Longrightarrow> assoc_inv 16 as' st'"
proof -
  have ok: "\<forall>i \<in> set is. i < length (ops (opset ins)) \<and> unat (op_id (ops (opset ins) ! i)) < length (reg_root gm)"
    using assms(3,4) by (auto simp: is_def ir_operand_set_wf_def)
  obtain sp' as' st' where *:
    "fill_loop (Some gm) (Some I64_CPU_REG_MAP) (ops (opset ins)) is (sp, as, st) = Inr (sp', as', st')"
    "\<forall>g. ir_reg_assoc_used (as ! g) \<longrightarrow> as' ! g = as ! g"
    "\<forall>g. (\<forall>i \<in> set is. unat (op_id (ops (opset ins) ! i)) \<noteq> g) \<longrightarrow> as' ! g = as ! g"
    "assoc_inv 16 as st \<longrightarrow> assoc_inv 16 as' st'"
    using i64_fill_loop_frame [OF assms(5,6) ok, of sp] by blast
  show ?thesis
  proof (rule that [of sp' as' st'])
    show "asm_fill_assoc (Some c) (Some ins) (Some sp) (Some as) (Some st) = Inr (Some sp', Some as', Some st')"
      using * assms(1,2) by (auto simp: asm_fill_assoc_def Let_def is_def)
    show "as' ! g = as ! g" if "\<forall>i < unat (ops_count (opset ins)). unat (op_id (ops (opset ins) ! i)) \<noteq> g" for g
      using *(3) that by (auto simp: is_def)
  qed (use * in blast)+
qed

text \<open>
  C22: filling keeps the association invariant. For an instruction over registers of the guest,
  \<^verbatim>\<open>asm_fill_assoc\<close> succeeds, leaves the registers that are associated and those that are not operands
  alone, and every guest register held in a host register still has an occupied register of the
  machine to itself.
\<close>

theorem asm_fill_assoc_invariant:
  assumes "guest_map c = Some gm" "host_map c = Some I64_CPU_REG_MAP" "ir_operand_set_wf (opset ins)"
    and "\<forall>i < unat (ops_count (opset ins)). unat (op_id (ops (opset ins) ! i)) < length (reg_root gm)"
    and "assoc_inv 16 as st"
  shows "\<exists>sp' as' st'. asm_fill_assoc (Some c) (Some ins) (Some sp) (Some as) (Some st) = Inr (Some sp', Some as', Some st') \<and>
    assoc_inv 16 as' st' \<and> (\<forall>g. ir_reg_assoc_used (as ! g) \<longrightarrow> as' ! g = as ! g) \<and>
    (\<forall>g. (\<forall>i < unat (ops_count (opset ins)). unat (op_id (ops (opset ins) ! i)) \<noteq> g) \<longrightarrow> as' ! g = as ! g)"
proof -
  have len: "length as = IR_REG_LIMIT" "length st = IR_REG_LIMIT"
    using assms(5) by (simp_all add: assoc_inv_def)
  show ?thesis
    by (rule fill_assoc_i64 [OF assms(1-4) len, of sp]) (use assms(5) in blast)
qed

text \<open>Filling is complete for fresh operands: when the operands it visits are different registers
  without an association, all of them have one afterwards.
\<close>

theorem asm_fill_assoc_complete:
  assumes "guest_map c = Some gm" "host_map c = Some I64_CPU_REG_MAP" "ir_operand_set_wf (opset ins)"
    and "\<forall>i < unat (ops_count (opset ins)). unat (op_id (ops (opset ins) ! i)) < length (reg_root gm)"
    and "length as = IR_REG_LIMIT" "length st = IR_REG_LIMIT"
    and "distinct (tl (map op_id (take (unat (ops_count (opset ins))) (ops (opset ins)))))"
    and "op_id (ops (opset ins) ! 0) \<noteq> op_id (ops (opset ins) ! 1) \<longrightarrow>
      distinct (map op_id (take (unat (ops_count (opset ins))) (ops (opset ins))))"
    and "\<forall>i < unat (ops_count (opset ins)). \<not> ir_reg_assoc_used (as ! unat (op_id (ops (opset ins) ! i)))"
    and "1 < unat (ops_count (opset ins))"
  shows "\<exists>sp' as' st'. asm_fill_assoc (Some c) (Some ins) (Some sp) (Some as) (Some st) = Inr (Some sp', Some as', Some st') \<and>
    (\<forall>i < unat (ops_count (opset ins)). ir_reg_assoc_used (as' ! unat (op_id (ops (opset ins) ! i))))"
proof -
  let ?n = "unat (ops_count (opset ins))" and ?xs = "ops (opset ins)"
  define lo where "lo = (if op_id (?xs ! 0) = op_id (?xs ! 1) then 1 else 0 :: nat)"
  obtain sp' as' st' where fill: "asm_fill_assoc (Some c) (Some ins) (Some sp) (Some as) (Some st) = Inr (Some sp', Some as', Some st')"
    "fill_loop (Some gm) (Some I64_CPU_REG_MAP) ?xs [lo..<?n] (sp, as, st) = Inr (sp', as', st')"
    by (rule fill_assoc_i64 [OF assms(1-6), of sp]) (simp add: lo_def)
  have len: "?n \<le> length ?xs" using assms(3) by (simp add: ir_operand_set_wf_def)
  have eq: "map (\<lambda>i. op_id (?xs ! i)) [lo..<?n] = drop lo (map op_id (take ?n ?xs))"
    using len by (intro nth_equalityI) auto
  have "distinct (map (\<lambda>i. op_id (?xs ! i)) [lo..<?n])"
    unfolding eq using assms(7,8) by (auto simp: lo_def drop_Suc)
  then have dist: "distinct (map (\<lambda>i. op_id (?xs ! i)) (butlast [lo..<?n]))"
    by (metis distinct_butlast map_butlast)
  have "\<forall>i \<in> set [lo..<?n]. ir_reg_assoc_used (as' ! unat (op_id (?xs ! i)))"
    by (rule i64_fill_loop_complete [OF assms(5,6) _ fill(2) dist])
      (use assms(4,9) len in \<open>auto dest: in_set_butlastD\<close>)
  note all = this
  have "ir_reg_assoc_used (as' ! unat (op_id (?xs ! i)))" if "i < ?n" for i
  proof (cases "lo \<le> i")
    case True
    with all that show ?thesis by simp
  next
    case False
    then have "i = 0" "lo = 1" by (auto simp: lo_def split: if_splits)
    have "op_id (?xs ! 0) = op_id (?xs ! 1)"
      by (rule ccontr) (use \<open>lo = 1\<close> in \<open>simp add: lo_def\<close>)
    with \<open>i = 0\<close> have eq01: "op_id (?xs ! i) = op_id (?xs ! 1)" by (simp only:)
    have "1 \<in> set [lo..<?n]" using assms(10) \<open>lo = 1\<close> by simp
    with all have "ir_reg_assoc_used (as' ! unat (op_id (?xs ! 1)))" by (rule bspec)
    then show ?thesis by (simp only: eq01)
  qed
  with fill(1) show ?thesis by blast
qed

text \<open>A concrete context and instruction for the witnesses: \<^verbatim>\<open>add $t1, $t2, $t3\<close>.\<close>

definition wit_ctx :: ir_context where
  "wit_ctx = \<lparr>guest_base = [], guest_capacity = 0, host_base = [], host_capacity = 0, guest_ptr = 0, host_ptr = 0,
     guest_map = Some MIPS32_CPU_REG_MAP, host_map = Some I64_CPU_REG_MAP,
     guest_to_ir = None, ir_to_host = None, guest_reg_fetch = None,
     guest_arch = MIPS32, host_arch = INTEL64, version = 0, blocked = False\<rparr>"

definition regs_instr :: "u8 \<Rightarrow> u8 \<Rightarrow> u8 \<Rightarrow> ir_raw_instr" where
  "regs_instr d s t =
    \<lparr>opcode = ir_opcode_val IR_ADD_I32,
     opset = \<lparr>ops = [\<lparr>kind = IR_OP_REG, op_id = d\<rparr>, \<lparr>kind = IR_OP_REG, op_id = s\<rparr>,
        \<lparr>kind = IR_OP_REG, op_id = t\<rparr>, ir_operand_zero, ir_operand_zero, ir_operand_zero], ops_count = 3\<rparr>\<rparr>"

lemma regs_instr_simps [simp]:
  "opcode (regs_instr d s t) = ir_opcode_val IR_ADD_I32"
  "ops (opset (regs_instr d s t)) = [\<lparr>kind = IR_OP_REG, op_id = d\<rparr>, \<lparr>kind = IR_OP_REG, op_id = s\<rparr>,
        \<lparr>kind = IR_OP_REG, op_id = t\<rparr>, ir_operand_zero, ir_operand_zero, ir_operand_zero]"
  "ops_count (opset (regs_instr d s t)) = 3"
  "ir_operand_set_wf (opset (regs_instr d s t))"
  by (simp_all add: regs_instr_def ir_operand_set_wf_def)

lemma all_less_3: "(\<forall>i < 3. P i) \<longleftrightarrow> P 0 \<and> P 1 \<and> P (2 :: nat)"
  by (auto simp: less_Suc_eq numeral_3_eq_3 numeral_2_eq_2)

lemma wit_ctx_maps [simp]: "guest_map wit_ctx = Some MIPS32_CPU_REG_MAP" "host_map wit_ctx = Some I64_CPU_REG_MAP"
  by (simp_all add: wit_ctx_def)

abbreviation no_assoc :: "asm_reg_assoc list" where
  "no_assoc \<equiv> replicate IR_REG_LIMIT asm_reg_assoc_zero"

abbreviation all_free :: "asm_reg_state list" where
  "all_free \<equiv> replicate IR_REG_LIMIT REG_FREE"

lemma not_used_zero [simp]: "\<not> ir_reg_assoc_used asm_reg_assoc_zero"
  by (simp add: ir_reg_assoc_used_def asm_reg_assoc_zero_def)

lemma no_assoc_inv: "assoc_inv n no_assoc all_free"
  by (simp add: assoc_inv_def)

theorem asm_fill_assoc_invariant_witness:
  "\<exists>sp' as' st'. asm_fill_assoc (Some wit_ctx) (Some (regs_instr 9 10 11)) (Some 0) (Some no_assoc) (Some all_free) =
     Inr (Some sp', Some as', Some st') \<and> assoc_inv 16 as' st' \<and> as' ! 12 = asm_reg_assoc_zero"
proof -
  have "\<exists>sp' as' st'. asm_fill_assoc (Some wit_ctx) (Some (regs_instr 9 10 11)) (Some 0) (Some no_assoc) (Some all_free) =
     Inr (Some sp', Some as', Some st') \<and> assoc_inv 16 as' st' \<and> (\<forall>g. ir_reg_assoc_used (no_assoc ! g) \<longrightarrow> as' ! g = no_assoc ! g) \<and>
    (\<forall>g. (\<forall>i < unat (ops_count (opset (regs_instr 9 10 11))). unat (op_id (ops (opset (regs_instr 9 10 11)) ! i)) \<noteq> g)
       \<longrightarrow> as' ! g = no_assoc ! g)"
    by (rule asm_fill_assoc_invariant [OF _ _ _ _ no_assoc_inv, of _ MIPS32_CPU_REG_MAP])
      (simp_all add: all_less_3)
  moreover have "\<forall>i < unat (ops_count (opset (regs_instr 9 10 11))). unat (op_id (ops (opset (regs_instr 9 10 11)) ! i)) \<noteq> 12"
    by (simp add: all_less_3)
  moreover have "no_assoc ! 12 = asm_reg_assoc_zero" by (simp add: IR_REG_LIMIT_def)
  ultimately show ?thesis by metis
qed

theorem asm_fill_assoc_complete_witness:
  "\<exists>sp' as' st'. asm_fill_assoc (Some wit_ctx) (Some (regs_instr 9 10 11)) (Some 0) (Some no_assoc) (Some all_free) =
     Inr (Some sp', Some as', Some st') \<and>
     (\<forall>i < unat (ops_count (opset (regs_instr 9 10 11))). ir_reg_assoc_used (as' ! unat (op_id (ops (opset (regs_instr 9 10 11)) ! i))))"
  by (rule asm_fill_assoc_complete [of _ MIPS32_CPU_REG_MAP])
    (simp_all add: all_less_3 IR_REG_LIMIT_def)

text \<open>
  C30: an operand that has its association ends the filling. When the first operand visited is
  associated, the function changes nothing, so another operand without an association keeps none,
  and \<^verbatim>\<open>asm_fix_instr\<close> replaces that operand by host register 0.
\<close>

theorem asm_fill_assoc_stops_early:
  assumes "ir_reg_assoc_used (as ! unat (op_id (ops (opset ins) ! (if op_id (ops (opset ins) ! 0) = op_id (ops (opset ins) ! 1) then 1 else 0))))"
    and "ir_operand_set_wf (opset ins)" "1 < unat (ops_count (opset ins))"
    and "k < unat (ops_count (opset ins))" "as ! unat (op_id (ops (opset ins) ! k)) = asm_reg_assoc_zero"
  shows "asm_fill_assoc (Some c) (Some ins) (Some sp) (Some as) (Some st) = Inr (Some sp, Some as, Some st) \<and>
    (\<exists>ins'. asm_fix_instr (Some c) (Some ins) (Some as) = Inr (Some ins') \<and> op_id (ops (opset ins') ! k) = 0)"
proof -
  let ?n = "unat (ops_count (opset ins))" and ?xs = "ops (opset ins)"
  have len: "?n \<le> length ?xs" using assms(2) by (simp add: ir_operand_set_wf_def)
  have "[if op_id (?xs ! 0) = op_id (?xs ! 1) then 1 else 0..<?n] =
      (if op_id (?xs ! 0) = op_id (?xs ! 1) then 1 else 0) # [Suc (if op_id (?xs ! 0) = op_id (?xs ! 1) then 1 else 0)..<?n]"
    using assms(3) by (intro upt_conv_Cons) auto
  moreover have "(if op_id (?xs ! 0) = op_id (?xs ! 1) then 1 else 0) < length ?xs"
    using assms(3) len by auto
  ultimately have "asm_fill_assoc (Some c) (Some ins) (Some sp) (Some as) (Some st) = Inr (Some sp, Some as, Some st)"
    using assms(1) by (simp only: asm_fill_assoc_def Let_def prod.case option.case fill_loop.simps
        arr_in and_then_simps fst_conv snd_conv if_True)
  moreover have "op_id ((map (fix_operand as) (take ?n ?xs) @ drop ?n ?xs) ! k) = 0"
    using assms(4,5) len by (simp add: nth_append fix_operand_def asm_reg_assoc_zero_def)
  ultimately show ?thesis
    using fix_loop_map [OF len, of as] by (simp add: asm_fix_instr_def Let_def)
qed

theorem asm_fill_assoc_stops_early_witness:
  "\<exists>ins'. asm_fix_instr (Some wit_ctx) (Some (regs_instr 9 10 11)) (Some (no_assoc[9 := \<lparr>a_flags = 2, a_id = 10\<rparr>])) = Inr (Some ins') \<and>
     op_id (ops (opset ins') ! 2) = 0"
proof -
  let ?as = "no_assoc[9 := \<lparr>a_flags = 2, a_id = 10\<rparr>]"
  have "?as ! 9 = \<lparr>a_flags = 2, a_id = 10\<rparr>" "?as ! 11 = asm_reg_assoc_zero"
    by (simp_all add: IR_REG_LIMIT_def)
  then show ?thesis
    using asm_fill_assoc_stops_early [of ?as "regs_instr 9 10 11" 2 wit_ctx 0 all_free]
    by (simp add: ir_reg_assoc_used_def BIT_def)
qed

text \<open>\<^verbatim>\<open>asm_fix_instr\<close> replaces each of the counted operands by the host register of its guest register,
  and under a table without conflicts different guest registers get different host registers.
\<close>

theorem asm_fix_instr_hosts:
  assumes "ir_operand_set_wf (opset ins)" "table_ok 16 as"
    and "\<forall>i < unat (ops_count (opset ins)). hosted (as ! unat (op_id (ops (opset ins) ! i)))"
  shows "\<exists>ins'. asm_fix_instr (Some c) (Some ins) (Some as) = Inr (Some ins') \<and> opcode ins' = opcode ins \<and>
    ops_count (opset ins') = ops_count (opset ins) \<and> length (ops (opset ins')) = 6 \<and>
    (\<forall>i < unat (ops_count (opset ins)).
       unat (op_id (ops (opset ins') ! i)) = unat (a_id (as ! unat (op_id (ops (opset ins) ! i)))) \<and>
       (\<forall>j < unat (ops_count (opset ins)). op_id (ops (opset ins') ! i) = op_id (ops (opset ins') ! j) \<longrightarrow>
          op_id (ops (opset ins) ! i) = op_id (ops (opset ins) ! j)))"
proof -
  let ?n = "unat (ops_count (opset ins))" and ?xs = "ops (opset ins)"
  have len: "?n \<le> length ?xs" "length ?xs = 6" using assms(1) by (simp_all add: ir_operand_set_wf_def)
  let ?ys = "map (fix_operand as) (take ?n ?xs) @ drop ?n ?xs"
  have id: "op_id (?ys ! i) = ucast (a_id (as ! unat (op_id (?xs ! i))))" if "i < ?n" for i
    using that len by (simp add: nth_append fix_operand_def)
  have small: "unat (a_id (as ! unat (op_id (?xs ! i)))) < 16" if "i < ?n" for i
    using assms(2,3) that by (simp add: table_ok_def)
  have un: "unat (op_id (?ys ! i)) = unat (a_id (as ! unat (op_id (?xs ! i))))" if "i < ?n" for i
    using order_less_trans [OF small [OF that], of "2 ^ 8"]
    by (simp add: id [OF that] unsigned_ucast_eq take_bit_nat_eq_self)
  have inj: "op_id (?xs ! i) = op_id (?xs ! j)"
    if "i < ?n" "j < ?n" "op_id (?ys ! i) = op_id (?ys ! j)" for i j
  proof -
    have "a_id (as ! unat (op_id (?xs ! i))) = a_id (as ! unat (op_id (?xs ! j)))"
      using un [OF that(1)] un [OF that(2)] that(3) by (simp add: word_unat_eq_iff)
    then have "unat (op_id (?xs ! i)) = unat (op_id (?xs ! j))"
      using assms(2,3) that(1,2) unfolding table_ok_def by (metis u8_in_limit)
    then show ?thesis by (simp add: word_unat_eq_iff)
  qed
  let ?ins' = "ins\<lparr>opset := (opset ins)\<lparr>ops := ?ys\<rparr>\<rparr>"
  have ys: "ops (opset ?ins') = ?ys" by simp
  show ?thesis
  proof (intro exI [of _ ?ins'] conjI allI impI)
    show "asm_fix_instr (Some c) (Some ins) (Some as) = Inr (Some ?ins')"
      by (simp add: asm_fix_instr_def Let_def fix_loop_map [OF len(1)])
    show "length (ops (opset ?ins')) = 6" unfolding ys using len by simp
    fix i assume i: "i < ?n"
    show "unat (op_id (ops (opset ?ins') ! i)) = unat (a_id (as ! unat (op_id (?xs ! i))))"
      unfolding ys by (rule un [OF i])
    fix j assume "j < ?n" "op_id (ops (opset ?ins') ! i) = op_id (ops (opset ?ins') ! j)"
    then show "op_id (?xs ! i) = op_id (?xs ! j)"
      unfolding ys by (intro inj [OF i])
  qed simp_all
qed

theorem asm_fix_instr_hosts_witness:
  "\<exists>ins'. asm_fix_instr (Some wit_ctx) (Some (regs_instr 9 9 9)) (Some (no_assoc[9 := \<lparr>a_flags = 2, a_id = 10\<rparr>])) = Inr (Some ins') \<and>
     unat (op_id (ops (opset ins') ! 0)) = 10"
proof -
  let ?as = "no_assoc[9 := \<lparr>a_flags = 2, a_id = 10\<rparr>]"
  have 9: "?as ! 9 = \<lparr>a_flags = 2, a_id = 10\<rparr>" by (simp add: IR_REG_LIMIT_def)
  have host: "hosted (?as ! g) \<longleftrightarrow> g = 9" if "g < IR_REG_LIMIT" for g
    using that by (cases "g = 9") (simp_all add: hosted_def ir_reg_assoc_used_def ir_reg_assoc_spilled_def BIT_def
        asm_reg_assoc_zero_def)
  then have "table_ok 16 ?as" by (auto simp: table_ok_def 9)
  moreover have "\<forall>i < unat (ops_count (opset (regs_instr 9 9 9))). hosted (?as ! unat (op_id (ops (opset (regs_instr 9 9 9)) ! i)))"
    by (simp add: all_less_3) (simp add: IR_REG_LIMIT_def hosted_def ir_reg_assoc_used_def ir_reg_assoc_spilled_def BIT_def)
  moreover have "ir_operand_set_wf (opset (regs_instr 9 9 9))" by simp
  ultimately obtain ins' where "asm_fix_instr (Some wit_ctx) (Some (regs_instr 9 9 9)) (Some ?as) = Inr (Some ins')"
    "\<forall>i < unat (ops_count (opset (regs_instr 9 9 9))). unat (op_id (ops (opset ins') ! i)) =
       unat (a_id (?as ! unat (op_id (ops (opset (regs_instr 9 9 9)) ! i))))"
    using asm_fix_instr_hosts [of "regs_instr 9 9 9" ?as wit_ctx] by blast
  then show ?thesis
    using 9 by (intro exI [of _ ins']) (simp add: all_less_3)
qed

section \<open>Flushing\<close>

text \<open>
  \<^verbatim>\<open>asm_flush_by_liveness\<close> clears the association and the state entry of exactly the guest registers
  that are dead in the fragment that ends. The liveness of a register has eight bits, so at the end
  of the fragments 8 to 15 every guest register is dead.
\<close>

theorem asm_flush_by_liveness_clears:
  assumes "reg_ids_wf gm" "guest_map c = Some gm" "length as = IR_REG_LIMIT" "length st = IR_REG_LIMIT"
  shows "\<exists>as' st'. asm_flush_by_liveness (Some c) blk (Some lv) (Some as) (Some st) = Inr (Some as', Some st') \<and>
    (\<forall>g < IR_REG_LIMIT. as' ! g =
       (if g < length (reg_root gm) \<and> \<not> (unat blk < 8 \<and> bit (lv ! g) (unat blk)) then asm_reg_assoc_zero else as ! g)) \<and>
    (\<forall>g < IR_REG_LIMIT. st' ! g =
       (if g < length (reg_root gm) \<and> \<not> (unat blk < 8 \<and> bit (lv ! g) (unat blk)) then REG_FREE else st ! g))"
proof -
  have dead: "dead_in (BIT (unat blk)) lv g \<longleftrightarrow> \<not> (unat blk < 8 \<and> bit (lv ! g) (unat blk))" for g
    by (auto simp: dead_in_def bit_simps dest: bit_imp_le_length)
  show ?thesis
    using asm_flush_by_liveness_spec [OF assms(1,2), of blk lv as st] unfolding dead assms(3,4) by blast
qed

theorem asm_flush_by_liveness_clears_witness:
  "\<exists>as' st'. asm_flush_by_liveness (Some wit_ctx) 9 (Some (replicate IR_REG_LIMIT 0xff))
     (Some (no_assoc[9 := \<lparr>a_flags = 2, a_id = 10\<rparr>])) (Some all_free) = Inr (Some as', Some st') \<and> as' ! 9 = asm_reg_assoc_zero"
proof -
  have "(9 :: nat) < IR_REG_LIMIT" by (simp add: IR_REG_LIMIT_def)
  with asm_flush_by_liveness_clears [OF mips_reg_ids_wf wit_ctx_maps(1),
      of "no_assoc[9 := \<lparr>a_flags = 2, a_id = 10\<rparr>]" all_free 9 "replicate IR_REG_LIMIT 0xff"]
  show ?thesis by fastforce
qed

text \<open>
  C26: the states are kept by host register but freed by guest register, so flushing does not keep the
  association invariant: \<^verbatim>\<open>$t1\<close>, alive and held in \<^verbatim>\<open>r10\<close>, loses the mark of \<^verbatim>\<open>r10\<close> when \<^verbatim>\<open>$t2\<close>, the guest
  register with number 10, is dead. The next guest temporary is then given \<^verbatim>\<open>r10\<close> as well.
\<close>

theorem flush_breaks_invariant:
  "\<exists>lv as st as' st'. assoc_inv 16 as st \<and> hosted (as ! 9) \<and> a_id (as ! 9) = 10 \<and> bit (lv ! 9) 0 \<and>
     asm_flush_by_liveness (Some wit_ctx) 0 (Some lv) (Some as) (Some st) = Inr (Some as', Some st') \<and>
     hosted (as' ! 9) \<and> a_id (as' ! 9) = 10 \<and> \<not> assoc_inv 16 as' st' \<and>
     (\<exists>st''. asm_alloc_space (Some I64_CPU_REG_MAP) REG_TEMP (Some st') = Inr (10, Some st''))"
proof -
  let ?as = "no_assoc[9 := \<lparr>a_flags = 2, a_id = 10\<rparr>]" and ?st = "all_free[10 := REG_OCCUPIED]"
  let ?lv = "(replicate IR_REG_LIMIT 0)[9 := 1] :: u8 list"
  have host: "hosted (?as ! g) \<longleftrightarrow> g = 9" if "g < IR_REG_LIMIT" for g
    using that by (cases "g = 9") (simp_all add: hosted_def ir_reg_assoc_used_def ir_reg_assoc_spilled_def BIT_def
        asm_reg_assoc_zero_def)
  have lim: "(9 :: nat) < IR_REG_LIMIT" "(10 :: nat) < IR_REG_LIMIT" "(11 :: nat) < IR_REG_LIMIT"
    by (simp_all add: IR_REG_LIMIT_def)
  have inv: "assoc_inv 16 ?as ?st"
    using host lim by (auto simp: assoc_inv_def)
  obtain as' st' where *: "asm_flush_by_liveness (Some wit_ctx) 0 (Some ?lv) (Some ?as) (Some ?st) = Inr (Some as', Some st')"
    "length st' = IR_REG_LIMIT"
    "\<forall>g < IR_REG_LIMIT. as' ! g = (if g < 32 \<and> dead_in (BIT 0) ?lv g then asm_reg_assoc_zero else ?as ! g)"
    "\<forall>g < IR_REG_LIMIT. st' ! g = (if g < 32 \<and> dead_in (BIT 0) ?lv g then REG_FREE else ?st ! g)"
    using asm_flush_by_liveness_spec [OF mips_reg_ids_wf wit_ctx_maps(1), of 0 ?lv ?as ?st] by auto
  have 9: "as' ! 9 = \<lparr>a_flags = 2, a_id = 10\<rparr>" and 10: "st' ! 10 = REG_FREE"
    using *(3,4) lim by (simp_all add: dead_in_def)
  have h9: "hosted (as' ! 9)"
    by (simp add: 9 hosted_def ir_reg_assoc_used_def ir_reg_assoc_spilled_def BIT_def)
  have "\<not> assoc_inv 16 as' st'"
  proof
    assume "assoc_inv 16 as' st'"
    then have "st' ! unat (a_id (as' ! 9)) = REG_OCCUPIED"
      using h9 lim(1) unfolding assoc_inv_def by blast
    with 9 10 show False by simp
  qed
  moreover have "find (free_of_role I64_CPU_REG_MAP REG_TEMP st') [0..<16] = Some 10"
    unfolding find_upt_Some using 10
    by (auto simp: free_of_role_def I64_CPU_REG_MAP_def i64_reg_def less_Suc_eq eval_nat_numeral)
  then have "asm_alloc_space (Some I64_CPU_REG_MAP) REG_TEMP (Some st') = Inr (10, Some (st'[10 := REG_OCCUPIED]))"
    using asm_alloc_space_spec [OF i64_reg_map_wf, of st' REG_TEMP] *(2)
    by (simp add: alloc_spec_def IR_REG_LIMIT_def)
  moreover have "?as ! 9 = \<lparr>a_flags = 2, a_id = 10\<rparr>" "bit (?lv ! 9) 0"
    using lim by simp_all
  moreover have "hosted (?as ! 9)" using host [OF lim(1)] by (simp only:)
  ultimately show ?thesis
    using inv *(1) h9 9
    by (intro exI [of _ ?lv] exI [of _ ?as] exI [of _ ?st] exI [of _ as'] exI [of _ st']) simp
qed

end
