(* ===== verification/Block_Props.thy ===== *)
theory Block_Props
  imports Main_Example Block_Tables Asm_Props
begin

text \<open>
  The properties of blocks and of their passes for MIPS32 guests and the Intel 64 host, each with an
  instance on the program of \<^verbatim>\<open>main.c\<close>.
\<close>

section \<open>Creation\<close>

text \<open>
  \<^verbatim>\<open>ir_create\<close> rejects a null result pointer, and otherwise succeeds for every pair of
  architectures and leaves a context that has the register maps and calls of the two, both positions
  at the start of their buffers, and the capacities cut to 32 bits.
\<close>

theorem ir_create_context:
  "ir_create v g h cs gs cm gm None = Inr (AX_INV_BUF, None) \<and>
   (\<exists>ir. ir_create v g h cs gs cm gm (Some p) = Inr (AX_SUCC, Some (Some ir)) \<and>
     guest_map ir = arch_to_map g \<and> host_map ir = arch_to_map h \<and> guest_to_ir ir = arch_guest_to_ir g \<and>
     ir_to_host ir = arch_ir_to_host h \<and> guest_reg_fetch ir = arch_guest_reg_fetch g \<and>
     guest_arch ir = g \<and> host_arch ir = h \<and> guest_ptr ir = 0 \<and> host_ptr ir = 0 \<and>
     guest_base ir = cm \<and> host_base ir = gm \<and>
     unat (guest_capacity ir) = unat cs mod 2 ^ 32 \<and> unat (host_capacity ir) = unat gs mod 2 ^ 32 \<and>
     (g = MIPS32 \<and> h = INTEL64 \<longrightarrow> mips_i64 ir))"
proof -
  have cap: "unat (ucast x :: u32) = unat x mod 2 ^ 32" for x :: u64
    by (simp add: unsigned_ucast_eq take_bit_eq_mod)
  obtain ir where "ir_create v g h cs gs cm gm (Some p) = Inr (AX_SUCC, Some (Some ir))"
     "guest_map ir = arch_to_map g" "host_map ir = arch_to_map h" "guest_to_ir ir = arch_guest_to_ir g"
     "ir_to_host ir = arch_ir_to_host h" "guest_reg_fetch ir = arch_guest_reg_fetch g"
     "guest_arch ir = g" "host_arch ir = h" "guest_ptr ir = 0" "host_ptr ir = 0"
     "guest_base ir = cm" "host_base ir = gm" "guest_capacity ir = ucast cs" "host_capacity ir = ucast gs"
    using ir_create_ok by blast
  then show ?thesis
    by (auto simp: ir_create_def cap mips_i64_def)
qed

theorem ir_create_context_witness:
  "\<exists>ir. ir_create 1 MIPS32 INTEL64 0x40000000 0x40000000 [] [] (Some None) = Inr (AX_SUCC, Some (Some ir)) \<and> mips_i64 ir"
  using ir_create_context [of 1 MIPS32 INTEL64 "0x40000000" "0x40000000" "[]" "[]" None] by auto

text \<open>A block \<^verbatim>\<open>tblock_alloc\<close> returns is ready for the passes: its tables and its IR buffer have the
  sizes the passes index them with, it holds no instruction, and no association.
\<close>

theorem tblock_alloc_ready:
  assumes "length mem = TBLOCK_IR_BUFFER_SIZE div SIZEOF_IR_RAW_INSTR"
  shows "block_shape (tblock_alloc ty mem) \<and> ir_cnt (tblock_alloc ty mem) = 0 \<and> tb_type (tblock_alloc ty mem) = ty \<and>
    assoc_inv n (assoc (tblock_alloc ty mem)) (state (tblock_alloc ty mem)) \<and>
    table_ok n (assoc (tblock_alloc ty mem))"
  using assms no_assoc_inv [of n] assoc_inv_table_ok [OF no_assoc_inv, of n]
  by (simp add: block_shape_def tblock_alloc_def TBLOCK_IR_BUFFER_SIZE_def SIZEOF_IR_RAW_INSTR_def)

theorem tblock_alloc_ready_witness:
  "block_shape (tblock_alloc TBLOCK_SMALL (replicate 256 ir_raw_instr_zero))"
  using tblock_alloc_ready [of "replicate 256 ir_raw_instr_zero" TBLOCK_SMALL 16]
  by (simp add: TBLOCK_IR_BUFFER_SIZE_def SIZEOF_IR_RAW_INSTR_def)

section \<open>Expansion\<close>

text \<open>
  The registers a two-operand instruction on \<open>x\<close> and \<open>y\<close> names once it is encoded with the \<open>r/m\<close> field first:
  those asked for when both or neither are among \<^verbatim>\<open>r8\<close> to \<^verbatim>\<open>r15\<close>, otherwise both in the other half.
\<close>

definition named_reg :: "nat \<Rightarrow> nat \<Rightarrow> nat" where
  "named_reg x y = (if (8 \<le> x) = (8 \<le> y) then x else if 8 \<le> x then x - 8 else x + 8)"

definition two_op_effect :: "x86_alu \<Rightarrow> nat \<Rightarrow> nat \<Rightarrow> x86_regs \<Rightarrow> x86_regs" where
  "two_op_effect alu x y H =
    H(named_reg x y := x86_alu_fun alu (H (named_reg x y)) (H (named_reg y x)))"

lemma rr_bytes_run:
  assumes "rr64_opcode opc = Some (alu, True)" "x < 16" "y < 16"
  shows "x86_run (rr_bytes opc True x y @ cs) H = x86_run cs (two_op_effect alu x y H)"
proof -
  have bytes: "rr_bytes opc True x y \<noteq> []" "take 3 (rr_bytes opc True x y) = rr_bytes opc True x y"
    by (simp_all add: rr_bytes_def Let_def)
  have "x86_decode (rr_bytes opc True x y) = Some (\<lparr>x_alu = alu, x_size = 64, x_to_rm = True,
      x_reg = named_reg y x, x_rm = XReg (named_reg x y)\<rparr>, [])"
    using rr_payload_decodes [OF assms bytes(2)] unfolding bytes(2) decodes_to_def named_reg_def
    by (auto split: if_splits)
  from x86_run_step [OF this bytes(1), of H] show ?thesis
    by (simp add: x86_exec_def two_op_effect_def Let_def)
qed

text \<open>The bytes of the expansion, for all host registers.\<close>

lemma expanded_bytes:
  assumes "mips_alu irop = Some alu" "unat d < 16" "unat s < 16" "unat t < 16"
  obtains bss where "list_all2 lowers_bytes (expanded (r_instr (ir_opcode_val irop) d s t)) bss"
    "\<And>H. x86_run (concat bss) H =
       Some (two_op_effect alu (unat d) (unat t) (if d = s then H else two_op_effect X_MOV (unat d) (unat s) H))"
proof -
  note facts = mips_alu_facts [OF assms(1)]
  let ?fb = "rr_bytes (rr_opcode alu) True (unat d) (unat t)" and ?mb = "rr_bytes MOV_64_R64 True (unat d) (unat s)"
  note fb = lowers_bytes_fix [OF assms(1,2,4), of s]
  have fix_run: "x86_run (?fb @ cs) H = x86_run cs (two_op_effect alu (unat d) (unat t) H)" for cs H
    by (rule rr_bytes_run) (simp_all add: rr64_opcode_rr_opcode assms)
  show ?thesis
  proof (cases "d = s")
    case True
    then have "list_all2 lowers_bytes (expanded (r_instr (ir_opcode_val irop) d s t)) [?fb]"
      using fb by (simp add: expanded_def r_instr_def)
    from that [OF this] show ?thesis using fix_run [of "[]"] True by simp
  next
    case False
    have mov_run: "x86_run (?mb @ cs) H = x86_run cs (two_op_effect X_MOV (unat d) (unat s) H)" for cs H
      by (rule rr_bytes_run) (simp_all add: assms)
    have "list_all2 lowers_bytes (expanded (r_instr (ir_opcode_val irop) d s t)) [?mb, ?fb]"
      using fb lowers_bytes_mov [OF assms(1-3) False] False facts(3) by (simp add: expanded_def r_instr_def)
    from that [OF this] show ?thesis using fix_run [of "[]"] mov_run False by simp
  qed
qed

text \<open>
  C9: the code \<^verbatim>\<open>asm_expand_instr\<close> makes of \<open>d = s op t\<close> for a two-operand host, lowered and run, for all host
  registers \<open>d\<close>, \<open>s\<close> and \<open>t\<close>: a copy of \<open>s\<close> into \<open>d\<close> unless they are the same, then \<open>d = d op t\<close>, each on the
  registers its encoding names (\<open>two_op_effect\<close>; they are others than those asked for when exactly one of
  the two is among \<^verbatim>\<open>r8\<close> to \<^verbatim>\<open>r15\<close>). So for three registers of one extension class the code computes the
  operation on the values of \<open>s\<close> and \<open>t\<close> and changes \<open>d\<close> alone, except when \<open>d\<close> is \<open>t\<close> and not \<open>s\<close>: the
  copy then destroys \<open>t\<close>, and the result is \<open>s op s\<close>.
\<close>

theorem asm_expand_semantics:
  assumes "mips_alu irop = Some alu" "unat d < 16" "unat s < 16" "unat t < 16"
    and "mips_i64 c" "1 < n" "2 \<le> length buf"
  shows "\<exists>k buf' code. asm_expand_instr (Some c) (Some (r_instr (ir_opcode_val irop) d s t)) n (Some buf) False = Inr (k, Some buf') \<and>
    lower_all (take (unat k) buf') = Some code \<and>
    (\<forall>H. x86_run code H =
       Some (two_op_effect alu (unat d) (unat t) (if d = s then H else two_op_effect X_MOV (unat d) (unat s) H))) \<and>
    ((8 \<le> unat d \<longleftrightarrow> 8 \<le> unat s) \<and> (8 \<le> unat d \<longleftrightarrow> 8 \<le> unat t) \<longrightarrow>
      (\<forall>H. x86_run code H =
         Some (H(unat d := x86_alu_fun alu (H (unat s)) (if d = t \<and> d \<noteq> s then H (unat s) else H (unat t))))))"
proof -
  let ?i = "r_instr (ir_opcode_val irop) d s t"
  obtain bss where bss: "list_all2 lowers_bytes (expanded ?i) bss"
    "\<And>H. x86_run (concat bss) H =
       Some (two_op_effect alu (unat d) (unat t) (if d = s then H else two_op_effect X_MOV (unat d) (unat s) H))"
    using expanded_bytes [OF assms(1-4)] by metis
  have "asm_expand_instr (Some c) (Some ?i) n (Some buf) False =
      Inr (of_nat (length (expanded ?i)), Some (expanded ?i @ drop (length (expanded ?i)) buf))"
    using assms(5-7) by (intro asm_expand_instr_two_op) (simp_all add: mips_i64_def MTE_ARCH_ISA_FORM_def)
  moreover have "unat (of_nat (length (expanded ?i)) :: u32) = length (expanded ?i)"
    using expanded_length [of ?i] by auto
  moreover note lowers_bytes_all [OF bss(1)] bss(2)
  moreover have "x86_run (concat bss) H =
     Some (H(unat d := x86_alu_fun alu (H (unat s)) (if d = t \<and> d \<noteq> s then H (unat s) else H (unat t))))"
    if "8 \<le> unat d \<longleftrightarrow> 8 \<le> unat s" "8 \<le> unat d \<longleftrightarrow> 8 \<le> unat t" for H
    using that unfolding bss(2) two_op_effect_def named_reg_def
    by (auto simp: word_unat_eq_iff fun_upd_idem_iff)
  ultimately show ?thesis by (intro exI conjI) auto
qed

theorem asm_expand_semantics_witness:
  "(\<exists>k buf' code. asm_expand_instr (Some main_ctx) (Some (r_instr (ir_opcode_val IR_SUB_I32) 10 11 10)) 2
      (Some (replicate 2 ir_raw_instr_zero)) False = Inr (k, Some buf') \<and>
    lower_all (take (unat k) buf') = Some code \<and> (\<forall>H. x86_run code H = Some (H(10 := 0)))) \<and>
   (\<exists>k buf' code. asm_expand_instr (Some main_ctx) (Some (r_instr (ir_opcode_val IR_ADD_I32) 1 1 10)) 2
      (Some (replicate 2 ir_raw_instr_zero)) False = Inr (k, Some buf') \<and>
    lower_all (take (unat k) buf') = Some code \<and> (\<forall>H. x86_run code H = Some (H(9 := H 9 + H 2))))"
proof
  show "\<exists>k buf' code. asm_expand_instr (Some main_ctx) (Some (r_instr (ir_opcode_val IR_SUB_I32) 10 11 10)) 2
      (Some (replicate 2 ir_raw_instr_zero)) False = Inr (k, Some buf') \<and>
    lower_all (take (unat k) buf') = Some code \<and> (\<forall>H. x86_run code H = Some (H(10 := 0)))"
    using asm_expand_semantics [of IR_SUB_I32 X_SUB 10 11 10 main_ctx 2 "replicate 2 ir_raw_instr_zero"]
    by (fastforce simp: main_ctx_mips_i64)
  show "\<exists>k buf' code. asm_expand_instr (Some main_ctx) (Some (r_instr (ir_opcode_val IR_ADD_I32) 1 1 10)) 2
      (Some (replicate 2 ir_raw_instr_zero)) False = Inr (k, Some buf') \<and>
    lower_all (take (unat k) buf') = Some code \<and> (\<forall>H. x86_run code H = Some (H(9 := H 9 + H 2)))"
    using asm_expand_semantics [of IR_ADD_I32 X_ADD 1 1 10 main_ctx 2 "replicate 2 ir_raw_instr_zero"]
    by (fastforce simp: main_ctx_mips_i64 two_op_effect_def named_reg_def)
qed

section \<open>The passes\<close>

lemma main_ctx_sizes:
  "length (guest_base main_ctx) = 524" "length (host_base main_ctx) = 768" "guest_ptr main_ctx = 0" "host_ptr main_ctx = 0"
proof -
  have "length main_block_words = 128" by (simp add: main_block_words_def main_words_def)
  then show "length (guest_base main_ctx) = 524" "length (host_base main_ctx) = 768"
    "guest_ptr main_ctx = 0" "host_ptr main_ctx = 0"
    using length_concat_le32 [of main_block_words] by (simp_all add: main_ctx_def del: length_concat)
qed

lemma main_block_shape: "block_shape main_block" "ir_cnt main_block = 0" "tb_type main_block = TBLOCK_BIG"
  by (simp_all add: block_shape_def main_block_def tblock_alloc_def TBLOCK_IR_BUFFER_SIZE_def SIZEOF_IR_RAW_INSTR_def)

text \<open>
  C25: the liveness scan visits every word of the block once and ends. It adds exactly these marks to the
  liveness of a register: bit \<open>i\<close>, below 8, for each fragment \<open>i\<close> with a register instruction other
  than those with function field 0 that names it. Uses in the fragments 8 to 15 leave no mark.
\<close>

theorem tblock_liveness_scan_marks:
  assumes "mips_i64 c" "guest_ptr c + block_bytes (tb_type b) + 12 \<le> length (guest_base c)"
    and "length (liveness b) = IR_REG_LIMIT"
  shows "\<exists>lv. tblock_liveness_scan (Some c) (Some b) =
      Inr ((of_nat (block_words (tb_type b)), AX_SUCC), Some (b\<lparr>liveness := lv\<rparr>)) \<and>
    length lv = IR_REG_LIMIT \<and>
    (\<forall>g < IR_REG_LIMIT. \<forall>i. bit (lv ! g) i \<longleftrightarrow> bit (liveness b ! g) i \<or>
       i < 8 \<and> (\<exists>j < block_words (tb_type b). 4 * j div frag_bytes (tb_type b) = i \<and>
          mips_uses (guest_word c (guest_ptr c + 4 * j)) g))"
  using mips_scan_spec [OF assms(1,2)] unfolding assms(3) block_words_def by blast

theorem tblock_liveness_scan_marks_witness:
  "\<exists>lv. tblock_liveness_scan (Some main_ctx) (Some main_block) = Inr ((128, AX_SUCC), Some (main_block\<lparr>liveness := lv\<rparr>))"
proof -
  have "length (liveness main_block) = IR_REG_LIMIT" by (simp add: main_block_def tblock_alloc_def)
  with tblock_liveness_scan_marks [OF main_ctx_mips_i64, of main_block] show ?thesis
    by (auto simp: main_ctx_sizes main_block_shape)
qed

text \<open>
  C23: the conversion pass of a block of register instructions (a \<^verbatim>\<open>nop\<close> is one) always ends without a
  fault, whatever the association tables hold. It appends at most two IR instructions per word, so
  the IR buffer of a block is never overrun, and reports their count.
\<close>

theorem tblock_raw_to_ir_total:
  assumes "mips_i64 c" "guest_ptr c + block_bytes (tb_type b) + 12 \<le> length (guest_base c)"
    and "block_shape b" "ir_cnt b = 0"
    and "\<forall>w \<in> set (words_of c (tb_type b)). mips32_get_instr_type w = MIPS_R"
  shows "\<exists>b'. tblock_raw_to_ir (Some c) (Some b) = Inr ((ucast (ir_cnt b'), AX_SUCC), Some b') \<and> block_shape b' \<and>
    unat (ir_cnt b') \<le> 2 * block_words (tb_type b) \<and> 2 * block_words (tb_type b) \<le> length (ir_buf b')"
proof -
  have n: "length (words_of c (tb_type b)) = block_words (tb_type b)" by (simp add: words_of_def)
  have n128: "block_words (tb_type b) \<le> 128" by (cases "tb_type b") simp_all
  have R: "list_all (\<lambda>w. mips32_get_instr_type w = MIPS_R) (words_of c (tb_type b))"
    using assms(5) by (simp add: list_all_iff)
  obtain b' where "conv_all c (tb_type b) 0 (words_of c (tb_type b)) b = Inr b'" "block_shape b'"
    "unat (ir_cnt b') \<le> unat (ir_cnt b) + 2 * length (words_of c (tb_type b))"
    using conv_all_total [OF assms(1,3) _ R, of "tb_type b" 0] assms(4) n n128 by auto
  with raw_to_ir_words [OF assms(1,2)] n n128 assms(4) show ?thesis
    by (auto simp: block_shape_def)
qed

theorem tblock_raw_to_ir_total_witness:
  "\<exists>b'. tblock_raw_to_ir (Some main_ctx) (Some main_block) = Inr ((ucast (ir_cnt b'), AX_SUCC), Some b') \<and> unat (ir_cnt b') \<le> 256"
proof -
  have "\<forall>w \<in> set main_block_words. mips32_get_instr_type w = MIPS_R"
    using main_word_ok by (auto simp: main_block_words_def list_all_iff nop_word word_ok_def)
  with tblock_raw_to_ir_total [OF main_ctx_mips_i64 _ main_block_shape(1,2)] show ?thesis
    by (auto simp: main_ctx_sizes main_block_shape main_words_of)
qed

text \<open>
  C28: a block with an immediate or a jump instruction behind register instructions is not translated:
  the conversion pass, and \<^verbatim>\<open>tblock_emit\<close> with it, stops the program at that word.
\<close>

theorem tblock_emit_aborts:
  assumes "mips_i64 c" "guest_ptr c + block_bytes (tb_type b) + 12 \<le> length (guest_base c)"
    and "block_shape b" "ir_cnt b = 0"
    and "words_of c (tb_type b) = us @ w # vs" "\<forall>u \<in> set us. mips32_get_instr_type u = MIPS_R"
    and "mips32_get_instr_type w \<noteq> MIPS_R"
  shows "tblock_emit (Some c) (Some b) = Inl Assert_Fail"
proof -
  obtain lv where lv: "tblock_liveness_scan (Some c) (Some b) =
      Inr ((of_nat (block_bytes (tb_type b) div 4), AX_SUCC), Some (b\<lparr>liveness := lv\<rparr>))" "length lv = length (liveness b)"
    using mips_scan_spec [OF assms(1,2)] by blast
  have "length us < block_words (tb_type b)"
    using arg_cong [OF assms(5), of length] by (simp add: words_of_def)
  moreover have "block_words (tb_type b) \<le> 128" by (cases "tb_type b") simp_all
  moreover have "list_all (\<lambda>u. mips32_get_instr_type u = MIPS_R) us" using assms(6) by (simp add: list_all_iff)
  moreover have "block_shape (b\<lparr>liveness := lv\<rparr>)" using assms(3) lv(2) by (simp add: block_shape_def)
  ultimately have "conv_all c (tb_type b) 0 (us @ w # vs) (b\<lparr>liveness := lv\<rparr>) = Inl Assert_Fail"
    using assms(4) by (intro conv_all_not_R [OF assms(1) _ assms(7)]) simp_all
  then have "tblock_raw_to_ir (Some c) (Some (b\<lparr>liveness := lv\<rparr>)) = Inl Assert_Fail"
    using raw_to_ir_words [OF assms(1), of "b\<lparr>liveness := lv\<rparr>"] assms(2,5) by simp
  with lv(1) show ?thesis by (simp add: tblock_emit_def)
qed

theorem tblock_emit_aborts_witness:
  "tblock_emit (Some (main_ctx\<lparr>guest_base := concat (map le32_bytes (0x08000000 # replicate 127 0)) @ replicate 12 0\<rparr>))
     (Some main_block) = Inl Assert_Fail"
proof -
  let ?ws = "0x08000000 # replicate 127 0 :: u32 list"
  let ?c = "main_ctx\<lparr>guest_base := concat (map le32_bytes ?ws) @ replicate 12 0\<rparr>"
  have c: "mips_i64 ?c" using main_ctx_mips_i64 by (simp add: mips_i64_def)
  have "words_of ?c TBLOCK_BIG = ?ws" by (rule words_of_concat) (simp_all add: main_ctx_sizes)
  moreover have "length (guest_base ?c) = 524" using length_concat_le32 [of ?ws] by (simp del: length_concat)
  moreover have "mips32_get_instr_type 0x08000000 \<noteq> MIPS_R"
    by (simp add: mips32_get_instr_type_def mips32_opcode_def MIPS32_OPCODE_SHIFT_def)
  ultimately show ?thesis
    using tblock_emit_aborts [OF c, of main_block "[]" "0x08000000" "replicate 127 0"]
    by (simp add: main_block_shape main_ctx_sizes)
qed

text \<open>
  C27: the emission pass lays out the host code of the IR instructions of a block in their order at
  \<^verbatim>\<open>host_ptr\<close>. The rest of the host buffer, and \<^verbatim>\<open>host_ptr\<close> itself, stay as they were. Its result does
  not count allocations for spilled registers, since it clears their count before it reads it.
\<close>

theorem tblock_ir_to_raw_code:
  assumes "ir_to_host c = Some i64_ir_to_raw" "unat (ir_cnt b) \<le> length (ir_buf b)"
    and "list_all2 lowers_bytes (take (unat (ir_cnt b)) (ir_buf b)) bss"
    and "host_ptr c + 3 * unat (ir_cnt b) \<le> length (host_base c)"
  shows "tblock_ir_to_raw (Some c) (Some b) =
    Inr ((ucast (ir_cnt b), AX_SUCC),
      Some (c\<lparr>host_base := take (host_ptr c) (host_base c) @ concat bss
               @ drop (host_ptr c + 3 * unat (ir_cnt b)) (host_base c)\<rparr>),
      Some (b\<lparr>spill_cnt := 0\<rparr>)) \<and>
    lower_all (take (unat (ir_cnt b)) (ir_buf b)) = Some (concat bss)"
proof -
  have "length (concat bss) = 3 * length (take (unat (ir_cnt b)) (ir_buf b))"
    using assms(3) by (induction rule: list_all2_induct) (simp_all add: lowers_bytes_def)
  then have "length (concat bss) = 3 * unat (ir_cnt b)" using assms(2) by simp
  then show ?thesis
    using i64_host.ir_to_raw_emits [OF assms(1-3)] assms(4) lowers_bytes_all [OF assms(3)] by simp
qed

theorem tblock_ir_to_raw_code_witness:
  "\<exists>b'. tblock_ir_to_raw (Some main_ctx)
      (Some (main_block\<lparr>ir_cnt := 1, spill_cnt := 3,
         ir_buf := [fix_instr_of (r_instr (ir_opcode_val IR_ADD_I32) 10 10 11)]\<rparr>)) =
    Inr ((1, AX_SUCC), Some (main_ctx\<lparr>host_base := [0x4d, 0x01, 0xda] @ drop 3 (host_base main_ctx)\<rparr>), Some b')"
proof -
  have "rr_bytes (rr_opcode X_ADD) True 10 11 = [0x4d, 0x01, 0xda]" by code_simp
  then have "lowers_bytes (fix_instr_of (r_instr (ir_opcode_val IR_ADD_I32) 10 10 11)) [0x4d, 0x01, 0xda]"
    using lowers_bytes_fix [where irop = IR_ADD_I32 and alu = X_ADD and d = 10 and s = 10 and t = 11] by simp
  moreover have "ir_to_host main_ctx = Some i64_ir_to_raw" by (simp add: main_ctx_def)
  ultimately show ?thesis
    using tblock_ir_to_raw_code [of main_ctx "main_block\<lparr>ir_cnt := 1, spill_cnt := 3,
         ir_buf := [fix_instr_of (r_instr (ir_opcode_val IR_ADD_I32) 10 10 11)]\<rparr>" "[[0x4d, 0x01, 0xda]]"]
    by (simp add: main_ctx_sizes)
qed

section \<open>Between blocks\<close>

text \<open>
  C24: blocks of register instructions are independent of one another. Whatever the marks of the liveness
  scan are, the conversion of a block that starts with no association beyond the guest registers ends
  with no association and no occupied host register at all, so the next block starts as a new one does.
\<close>

theorem tblock_raw_to_ir_clears:
  assumes "mips_i64 c" "guest_ptr c + block_bytes (tb_type b) + 12 \<le> length (guest_base c)"
    and "block_shape b" "ir_cnt b = 0" "tables_tail (assoc b) (state b)"
    and "\<forall>w \<in> set (words_of c (tb_type b)). mips32_get_instr_type w = MIPS_R"
  shows "\<exists>b'. tblock_raw_to_ir (Some c) (Some b) = Inr ((ucast (ir_cnt b'), AX_SUCC), Some b') \<and>
    assoc b' = replicate IR_REG_LIMIT asm_reg_assoc_zero \<and> state b' = replicate IR_REG_LIMIT REG_FREE"
proof -
  let ?ws = "words_of c (tb_type b)"
  have len: "length ?ws = block_words (tb_type b)" by (simp add: words_of_def)
  moreover have "block_words (tb_type b) \<le> 128" by (cases "tb_type b") simp_all
  ultimately have room: "unat (ir_cnt b) + 2 * length ?ws \<le> 256" using assms(4) by simp
  have R: "list_all (\<lambda>w. mips32_get_instr_type w = MIPS_R) ?ws" using assms(6) by (simp add: list_all_iff)
  obtain b' where "conv_all c (tb_type b) 0 ?ws b = Inr b'"
    using conv_all_total [OF assms(1,3) room R] by blast
  with conv_all_clears [OF assms(1,3) room R len assms(5)] raw_to_ir_words [OF assms(1,2)] show ?thesis by simp
qed

theorem tblock_raw_to_ir_clears_witness:
  "\<exists>b'. tblock_raw_to_ir (Some main_ctx) (Some (main_block\<lparr>assoc := main_assoc\<rparr>)) = Inr ((ucast (ir_cnt b'), AX_SUCC), Some b') \<and>
    assoc b' = replicate IR_REG_LIMIT asm_reg_assoc_zero \<and> state b' = replicate IR_REG_LIMIT REG_FREE"
proof -
  let ?b = "main_block\<lparr>assoc := main_assoc\<rparr>"
  have "\<forall>w \<in> set main_block_words. mips32_get_instr_type w = MIPS_R"
    using main_word_ok by (auto simp: main_block_words_def list_all_iff nop_word word_ok_def)
  moreover have "tables_tail (assoc ?b) (state ?b)"
    by (simp add: tables_tail_def main_block_def tblock_alloc_def main_assoc_def)
  moreover have "block_shape ?b" using main_block_shape(1) by (simp add: block_shape_def main_assoc_def)
  ultimately show ?thesis
    using tblock_raw_to_ir_clears [OF main_ctx_mips_i64, of ?b]
    by (simp add: main_ctx_sizes main_block_shape main_words_of)
qed

end
