(* ===== verification/I64_Memory.thy ===== *)
theory I64_Memory
  imports I64_Encode
begin

text \<open>
  The emitter on memory operands: \<^verbatim>\<open>[base]\<close> with a 64-bit base register and the other operand in a
  register. The ModRM byte has mode 0 and no further byte follows it, which is right unless the low
  bits of the base select a SIB byte or an address relative to the instruction pointer, and unless the
  whole ModRM byte is 0, which the emitter takes for an absent one.
\<close>

section \<open>Operands and their summary\<close>

definition mem_operand :: "nat \<Rightarrow> i64_operand" where
  "mem_operand r =
     \<lparr>desc = \<lparr>od_type = I64_MEM, od_width = W64\<rparr>,
      oid = i64_operand_id_val (I64_REG_TO_OPERAND ! r), val = 0\<rparr>"

lemma mem_operand_simps [simp]:
  "od_type (desc (mem_operand r)) = I64_MEM"
  "od_width (desc (mem_operand r)) = W64"
  "val (mem_operand r) = 0"
  "oid (mem_operand r) = oid (reg_operand r W64)"
  by (simp_all add: mem_operand_def reg_operand_def)

text \<open>The operands in the order of the mnemonic: memory first when \<open>to_rm\<close>.\<close>

definition mem_operands :: "bool \<Rightarrow> nat \<Rightarrow> nat \<Rightarrow> i64_operand list" where
  "mem_operands to_rm r b =
    (if to_rm then [mem_operand b, reg_operand r W64] else [reg_operand r W64, mem_operand b])"

text \<open>
  The operand bits: the swap flag, the memory flag, and the extension bits of both sides. \<open>er\<close> and
  \<open>eb\<close> tell whether the register and the base are extended.
\<close>

definition mem_operand_bits :: "bool \<Rightarrow> bool \<Rightarrow> bool \<Rightarrow> u8" where
  "mem_operand_bits to_rm er eb =
     push_bit 7 (of_bool to_rm) OR BIT 6 OR push_bit 3 (of_bool er) OR of_bool eb"

lemma i64_sum_calc_mem:
  assumes "desc_rr64 d" "r < 16" "b < 16" "od_form d = FORM_RM_R \<longleftrightarrow> to_rm"
  shows "i64_sum_calc d (Some (mem_operands to_rm r b @ rest)) =
    \<lparr>sib_i = 0, sum_width = 8, sum_operand = mem_operand_bits to_rm (8 \<le> r) (8 \<le> b)\<rparr>"
proof -
  note ext = reg_oid_ext [OF assms(2)] reg_oid_ext [OF assms(3)]
  have em: "operand_em (reg_operand r W64) = push_bit 1 (of_bool (8 \<le> r))"
    "operand_em (mem_operand b) = push_bit 1 (of_bool (8 \<le> b)) OR 1"
    using ext by (simp_all add: operand_em_def I64_REG_def I64_MEM_def)
  have step: "sum_step i (reg_operand k W64) \<lparr>w0 = 8, w1 = 0, w2 = 0, o0 = z, acc_sib_i = j\<rparr>
      = \<lparr>w0 = 8, w1 = 0, w2 = 0, o0 = z, acc_sib_i = (if bit z 4 then of_nat i else j)\<rparr>"
    "sum_step i (mem_operand k) \<lparr>w0 = 8, w1 = 0, w2 = 0, o0 = z, acc_sib_i = j\<rparr>
      = \<lparr>w0 = 8, w1 = 0, w2 = 0, o0 = z OR BIT 6, acc_sib_i = (if bit z 4 then of_nat i else j)\<rparr>" for i k z j
    by (simp_all add: sum_step_def i64_eval mask_of_def bit_simps Let_def)
  from assms(1) have "od_form d = FORM_RM_R \<or> od_form d = FORM_R_RM" and "od_count d = 2"
    by (simp_all add: desc_rr64_def)
  with assms(4) show ?thesis
    by (elim disjE; cases "8 \<le> r"; cases "8 \<le> b")
      (simp_all add: i64_sum_calc_def Let_def em step mem_operands_def mem_operand_bits_def I64_FORM_I_def BIT_def)
qed

section \<open>Bytes\<close>

lemma i64_rex_resolve_mem:
  "i64_rex_resolve \<lparr>sib_i = 0, sum_width = 8, sum_operand = mem_operand_bits to_rm er eb\<rparr> =
     (if to_rm then rr_rex eb er else rr_rex er eb)"
  by (cases to_rm; cases er; cases eb)
    (simp_all add: i64_rex_resolve_def mem_operand_bits_def rr_rex_def Let_def BIT_def I64_REX_LABEL_def)

text \<open>The two, three and three bits of a ModRM or SIB byte.\<close>

definition field_byte :: "u8 \<Rightarrow> u8 \<Rightarrow> u8 \<Rightarrow> u8" where
  "field_byte c y z = push_bit 6 c OR push_bit 3 (y AND 7) OR (z AND 7)"

lemma field_byte_fields:
  "modrm_mod (field_byte c y z) = unat (c AND 3)" "modrm_reg (field_byte c y z) = unat (y AND 7)"
  "modrm_rm (field_byte c y z) = unat (z AND 7)"
proof -
  have "drop_bit 6 (field_byte c y z) = c AND 3" "drop_bit 3 (field_byte c y z) AND 7 = y AND 7"
    "field_byte c y z AND 7 = z AND 7"
    unfolding field_byte_def byte_masks by (rule bit_word_eqI; auto simp: bit_simps)+
  then show "modrm_mod (field_byte c y z) = unat (c AND 3)" "modrm_reg (field_byte c y z) = unat (y AND 7)"
    "modrm_rm (field_byte c y z) = unat (z AND 7)"
    by (simp_all add: modrm_mod_def modrm_reg_def modrm_rm_def)
qed

definition mem_modrm :: "nat \<Rightarrow> nat \<Rightarrow> u8" where
  "mem_modrm r b = field_byte 0 (oid (reg_operand r W64)) (oid (reg_operand b W64))"

lemma i64_modrm_resolve_mem:
  "i64_modrm_resolve (oid (mem_operands to_rm r b ! 0)) (oid (mem_operands to_rm r b ! 1))
     \<lparr>sib_i = 0, sum_width = 8, sum_operand = mem_operand_bits to_rm er eb\<rparr> = mem_modrm r b"
  by (cases to_rm; cases er; cases eb)
    (simp_all add: i64_modrm_resolve_def mem_operand_bits_def mem_operands_def mem_modrm_def field_byte_def Let_def BIT_def)

definition mem_bytes :: "i64_opcode \<Rightarrow> bool \<Rightarrow> nat \<Rightarrow> nat \<Rightarrow> u8 list" where
  "mem_bytes opc to_rm r b =
    [if to_rm then rr_rex (8 \<le> b) (8 \<le> r) else rr_rex (8 \<le> r) (8 \<le> b), ucast (i64_opcode_val opc AND 0xff)]
      @ (if mem_modrm r b = 0 then [] else [mem_modrm r b])"

lemma emit_parts_mem:
  assumes "desc_rr64 d" "r < 16" "b < 16" "od_form d = FORM_RM_R \<longleftrightarrow> to_rm"
    and "rr64_opcode opc = Some (alu, to_rm)"
  shows "part_bytes (emit_parts (i64_opcode_val opc) d (mem_operands to_rm r b @ rest)) = mem_bytes opc to_rm r b"
proof -
  let ?s = "\<lparr>sib_i = 0, sum_width = 8, sum_operand = mem_operand_bits to_rm (8 \<le> r) (8 \<le> b)\<rparr>"
  from assms(1) have fl: "od_flags d AND FLAG_REX \<noteq> 0" "od_flags d AND FLAG_MODRM \<noteq> 0"
    by (simp_all add: desc_rr64_def)
  have leg: "i64_leg_resolve ?s = 0"
    by (simp add: i64_leg_resolve_def Let_def BIT_def)
  have sib: "i64_sib_resolve z mm ?s = 0" for z mm
    by (cases to_rm; cases "8 \<le> r"; cases "8 \<le> b")
      (simp_all add: i64_sib_resolve_def mem_operand_bits_def BIT_def)
  have nth: "(mem_operands to_rm r b @ rest) ! k = mem_operands to_rm r b ! k" if "k < 2" for k
    using that by (simp add: mem_operands_def nth_append)
  note byte = rr64_opcode_byte(4,5) [OF assms(5)]
  show ?thesis
    unfolding emit_parts_def i64_sum_calc_mem [OF assms(1-4)] parts_of_sum_def Let_def
    by (simp add: nth [of 0] nth [of 1, simplified] i64_modrm_resolve_mem [simplified] leg sib
        i64_rex_resolve_mem fl byte mem_bytes_def)
qed

section \<open>Decoding\<close>

lemma reg_oid_mod8:
  assumes "k < 16"
  shows "unat (oid (reg_operand k W64) AND 7) = k mod 8"
proof -
  have "k mod 8 = (if 8 \<le> k then k - 8 else k)" using assms by (simp add: le_mod_geq)
  then show ?thesis using reg_oid_low [OF assms, of W64] by (simp split: if_splits)
qed

lemma mem_modrm_fields:
  assumes "r < 16" "b < 16"
  shows "modrm_mod (mem_modrm r b) = 0" "modrm_reg (mem_modrm r b) = r mod 8" "modrm_rm (mem_modrm r b) = b mod 8"
    "mem_modrm r b = 0 \<longleftrightarrow> r mod 8 = 0 \<and> b mod 8 = 0"
proof -
  let ?x = "oid (reg_operand r W64)" and ?y = "oid (reg_operand b W64)"
  show "modrm_mod (mem_modrm r b) = 0" by (simp add: mem_modrm_def field_byte_fields)
  show r: "modrm_reg (mem_modrm r b) = r mod 8" "modrm_rm (mem_modrm r b) = b mod 8"
    using reg_oid_mod8 assms by (simp_all add: mem_modrm_def field_byte_fields)
  show "mem_modrm r b = 0 \<longleftrightarrow> r mod 8 = 0 \<and> b mod 8 = 0"
  proof
    assume "mem_modrm r b = 0"
    with r show "r mod 8 = 0 \<and> b mod 8 = 0" by (simp add: modrm_reg_def modrm_rm_def)
  next
    assume "r mod 8 = 0 \<and> b mod 8 = 0"
    then have "?x AND 7 = 0" "?y AND 7 = 0" using reg_oid_mod8 assms by (metis unat_eq_zero)+
    then show "mem_modrm r b = 0" by (simp add: mem_modrm_def field_byte_def)
  qed
qed

text \<open>The register that has the low bits of \<open>k\<close> and the extension of \<open>j\<close>.\<close>

definition reg_like :: "nat \<Rightarrow> nat \<Rightarrow> nat" where
  "reg_like k j = k mod 8 + (if 8 \<le> j then 8 else 0)"

lemma reg_like_self [simp]: "k < 16 \<Longrightarrow> reg_like k k = k"
  by (simp add: reg_like_def le_mod_geq)

lemma mem_bytes_decode:
  assumes "rr64_opcode opc = Some (alu, to_rm)" "r < 16" "b < 16"
  shows "x86_decode (mem_bytes opc to_rm r b) =
    (if b mod 8 = 4 \<or> b mod 8 = 5 \<or> r mod 8 = 0 \<and> b mod 8 = 0 then None
     else Some (\<lparr>x_alu = alu, x_size = 64, x_to_rm = to_rm, x_reg = reg_like r (if to_rm then b else r),
            x_rm = XMem (Some (reg_like b (if to_rm then r else b))) None 0 False\<rparr>, []))"
proof -
  note byte = rr64_opcode_byte [OF assms(1)]
  define rex where "rex = (if to_rm then rr_rex (8 \<le> b) (8 \<le> r) else rr_rex (8 \<le> r) (8 \<le> b))"
  have rex: "rex AND 0xf0 = 0x40" "rex \<noteq> 0x66" "rex \<noteq> 0x67" "bit rex 3"
    "rex_ext rex 2 = (if 8 \<le> (if to_rm then b else r) then 8 else 0)"
    "rex_ext rex 0 = (if 8 \<le> (if to_rm then r else b) then 8 else 0)"
    unfolding rex_def by (simp_all add: rr_rex_decode)
  have bytes: "mem_bytes opc to_rm r b =
      rex # ucast (i64_opcode_val opc AND 0xff) # (if mem_modrm r b = 0 then [] else [mem_modrm r b])"
    by (simp add: mem_bytes_def rex_def)
  note fields = mem_modrm_fields [OF assms(2,3)]
  show ?thesis
    unfolding bytes using rex byte(1-3) fields
    by (auto simp: x86_decode_def x86_decode_rex_def x86_decode_op_def x86_decode_rm_def take_disp_def reg_like_def)
qed

text \<open>What an emission to a 16-byte buffer leaves, for any operands.\<close>

lemma emitted_parts:
  assumes "i64_lookup_opcode_meta opc = Inr d" "16 \<le> length buf"
  shows "emitted (i64_emit_64 opc (Some oprs) (Some buf) (Some l)) = Some (part_bytes (emit_parts (i64_opcode_val opc) d oprs))"
proof -
  let ?bs = "part_bytes (emit_parts (i64_opcode_val opc) d oprs)"
  have "length ?bs \<le> 16"
    using length_part_bytes [of "emit_parts (i64_opcode_val opc) d oprs"] by (simp add: emit_parts_def parts_of_sum_def Let_def)
  then have "unat (of_nat (length ?bs) :: u8) = length ?bs" by (simp add: unat_of_nat)
  moreover obtain buf' where "i64_emit_64 opc (Some oprs) (Some buf) (Some l) = Inr (AX_SUCC, Some buf', Some (of_nat (length ?bs)))"
    "take (length ?bs) buf' = ?bs"
    using i64_emit_64_bytes [OF assms] by metis
  ultimately show ?thesis by simp
qed

section \<open>Properties\<close>

text \<open>
  C5: the encoding of memory operands. For the ten mnemonics with two 64-bit operands, a register
  and a memory operand addressed by a base register, all emissions succeed. The bytes are no
  instruction when the base is \<^verbatim>\<open>rsp\<close>, \<^verbatim>\<open>rbp\<close>, \<^verbatim>\<open>r12\<close> or \<^verbatim>\<open>r13\<close>, which need a SIB byte or a
  displacement, or when both registers are among \<^verbatim>\<open>rax\<close> and \<^verbatim>\<open>r8\<close>, where the ModRM byte is dropped.
  Otherwise they decode to the operation on the operands asked for, except that with the memory operand in
  first place the extension bits of register and base are exchanged.
\<close>

theorem emit_mem_decode:
  assumes "rr64_opcode opc = Some (alu, to_rm)" "r < 16" "b < 16" "16 \<le> length buf"
  shows "\<exists>bs. emitted (i64_emit_64 opc (Some (mem_operands to_rm r b @ rest)) (Some buf) (Some l)) = Some bs \<and>
    x86_decode bs =
    (if b mod 8 = 4 \<or> b mod 8 = 5 \<or> r mod 8 = 0 \<and> b mod 8 = 0 then None
     else Some (\<lparr>x_alu = alu, x_size = 64, x_to_rm = to_rm, x_reg = reg_like r (if to_rm then b else r),
            x_rm = XMem (Some (reg_like b (if to_rm then r else b))) None 0 False\<rparr>, []))"
proof -
  from assms(1) obtain d where d: "i64_lookup_opcode_meta opc = Inr d" "desc_rr64 d"
    "od_form d = FORM_RM_R \<longleftrightarrow> to_rm" by (rule rr64_opcode_meta)
  have "emitted (i64_emit_64 opc (Some (mem_operands to_rm r b @ rest)) (Some buf) (Some l)) = Some (mem_bytes opc to_rm r b)"
    unfolding emitted_parts [OF d(1) assms(4)] emit_parts_mem [OF d(2) assms(2,3) d(3) assms(1)] ..
  with mem_bytes_decode [OF assms(1-3)] show ?thesis by blast
qed

theorem emit_mem_decode_witness:
  "\<exists>bs. emitted (i64_emit_64 ADD_R64_64 (Some [reg_operand 0 W64, mem_operand 1]) (Some (replicate 16 0)) (Some 0)) = Some bs \<and>
     x86_decode bs = Some (\<lparr>x_alu = X_ADD, x_size = 64, x_to_rm = False, x_reg = 0, x_rm = XMem (Some 1) None 0 False\<rparr>, [])"
  using emit_mem_decode [of ADD_R64_64 X_ADD False 0 1 "replicate 16 0" "[]" 0] by (simp add: mem_operands_def)

section \<open>Scaled operands\<close>

text \<open>\<^verbatim>\<open>*(u64*)&(struct i64_operand_mem){..}\<close>, with a clear padding byte.\<close>

definition mem_value :: "i64_operand_mem \<Rightarrow> u64" where
  "mem_value m = ucast (scale_id m) OR push_bit 8 (ucast (index_id m)) OR push_bit 16 (ucast (index_width m))
     OR push_bit 32 (ucast (disp m))"

lemma mem_value_of: "i64_operand_mem_of (mem_value m) = m"
proof -
  have "scale_id (i64_operand_mem_of (mem_value m)) = scale_id m"
    "index_id (i64_operand_mem_of (mem_value m)) = index_id m"
    "index_width (i64_operand_mem_of (mem_value m)) = index_width m"
    "disp (i64_operand_mem_of (mem_value m)) = disp m"
    by (rule bit_word_eqI; auto simp: i64_operand_mem_of_def mem_value_def bit_simps dest: bit_imp_le_length)+
  then show ?thesis by (cases m) simp
qed

definition sib_scales :: "i64_operand_id list" where
  "sib_scales = [I64_SIB_1, I64_SIB_2, I64_SIB_4, I64_SIB_8]"

text \<open>\<^verbatim>\<open>[base + index * 2^k + disp]\<close>, with 32-bit registers when \<open>a32\<close> and a displacement of 32 bits when \<open>d32\<close>.\<close>

definition sib_operand :: "bool \<Rightarrow> bool \<Rightarrow> nat \<Rightarrow> nat \<Rightarrow> nat \<Rightarrow> u32 \<Rightarrow> i64_operand" where
  "sib_operand a32 d32 b x k dp =
     \<lparr>desc = \<lparr>od_type = I64_SIB OR (if d32 then I64_DISP32 else I64_DISP8), od_width = (if a32 then W32 else W64)\<rparr>,
      oid = i64_operand_id_val (I64_REG_TO_OPERAND ! b),
      val = mem_value \<lparr>scale_id = i64_operand_id_val (sib_scales ! k), index_id = i64_operand_id_val (I64_REG_TO_OPERAND ! x),
        index_width = 0, disp = dp\<rparr>\<rparr>"

lemma sib_operand_oid [simp]: "oid (sib_operand a32 d32 b x k dp) = oid (reg_operand b W64)"
  by (simp add: sib_operand_def reg_operand_def)

definition sib_sum :: "bool \<Rightarrow> bool \<Rightarrow> bool \<Rightarrow> bool \<Rightarrow> i64_operand_sum" where
  "sib_sum a32 d32 er eb =
     \<lparr>sib_i = 0, sum_width = 8 OR (if d32 then 0x40 else 0x20) OR (if a32 then 0x10 else 0),
      sum_operand = 0xd0 OR (if eb then 0x21 else 0) OR (if er then 0x08 else 0)\<rparr>"

lemma i64_sum_calc_sib:
  assumes "desc_rr64 d" "r < 16" "b < 16" "od_form d = FORM_RM_R"
  shows "i64_sum_calc d (Some (sib_operand a32 d32 b x k dp # reg_operand r W64 # rest)) = sib_sum a32 d32 (8 \<le> r) (8 \<le> b)"
proof -
  note ext = reg_oid_ext [OF assms(2)] reg_oid_ext [OF assms(3)]
  let ?m = "sib_operand a32 d32 b x k dp"
  have em: "operand_em (reg_operand r W64) = push_bit 1 (of_bool (8 \<le> r))"
    "operand_em (sib_operand A D b x k dp) = push_bit 1 (of_bool (8 \<le> b)) OR 1" for A D
    using ext by (simp_all add: operand_em_def sib_operand_def reg_operand_def i64_eval)
  have e: "oid (reg_operand b W64) AND I64_OP_EXT = I64_OP_EXT \<longleftrightarrow> 8 \<le> b"
    by (rule reg_oid_ext' [OF assms(3)])
  have step0: "sum_step 0 ?m \<lparr>w0 = 8, w1 = 0, w2 = 0, o0 = 128, acc_sib_i = 0\<rparr> =
      \<lparr>w0 = 8 OR (if d32 then 0x40 else 0x20), w1 = 0, w2 = (if a32 then 0x10 else 0), o0 = 0xd0 OR (if 8 \<le> b then 0x20 else 0), acc_sib_i = 0\<rparr>"
    using e by (cases a32; cases d32; cases "8 \<le> b")
      (simp_all add: sum_step_def sib_operand_def reg_operand_def i64_eval mask_of_def Let_def BIT_def)
  have step1: "sum_step 1 (reg_operand r W64)
      \<lparr>w0 = 8 OR (if d32 then 0x40 else 0x20), w1 = 0, w2 = (if a32 then 0x10 else 0), o0 = 0xd0 OR (if 8 \<le> b then 0x20 else 0), acc_sib_i = 0\<rparr> =
      \<lparr>w0 = 8 OR (if d32 then 0x40 else 0x20), w1 = 0, w2 = (if a32 then 0x10 else 0), o0 = 0xd0 OR (if 8 \<le> b then 0x20 else 0), acc_sib_i = 1\<rparr>"
    by (cases a32; cases d32; cases "8 \<le> b") (simp_all add: sum_step_def i64_eval mask_of_def Let_def BIT_def)
  have "od_count d = 2" using assms(1) by (simp add: desc_rr64_def)
  then show ?thesis
    using step0 step1 by (cases a32; cases d32; cases "8 \<le> b"; cases "8 \<le> r")
      (simp_all add: i64_sum_calc_def Let_def em assms(4) sib_sum_def I64_FORM_I_def BIT_def)
qed

lemma sib_operand_mem [simp]:
  "i64_operand_mem_of (val (sib_operand a32 d32 b x k dp)) =
     \<lparr>scale_id = i64_operand_id_val (sib_scales ! k), index_id = oid (reg_operand x W64), index_width = 0, disp = dp\<rparr>"
  by (simp add: sib_operand_def mem_value_of reg_operand_def)

definition sib_rex :: "bool \<Rightarrow> bool \<Rightarrow> u8" where
  "sib_rex er eb = 0x48 OR (if eb then 6 else 0) OR of_bool er"

definition sib_modrm :: "bool \<Rightarrow> nat \<Rightarrow> u8" where
  "sib_modrm d32 r = field_byte (if d32 then 2 else 1) (oid (reg_operand r W64)) 4"

definition sib_byte :: "nat \<Rightarrow> nat \<Rightarrow> nat \<Rightarrow> u8" where
  "sib_byte k x b = field_byte (of_nat k) (oid (reg_operand x W64)) (oid (reg_operand b W64))"

definition disp_bytes :: "bool \<Rightarrow> u32 \<Rightarrow> u8 list" where
  "disp_bytes d32 dp = ucast (dp AND 0xff) #
     (if d32 then [ucast (drop_bit 8 dp AND 0xff), ucast (drop_bit 16 dp AND 0xff), ucast (drop_bit 24 dp AND 0xff)] else [])"

lemma i64_resolve_sib:
  "i64_leg_resolve (sib_sum a32 d32 er eb) = (if a32 then 0x67 else 0)"
  "i64_rex_resolve (sib_sum a32 d32 er eb) = sib_rex er eb"
  "i64_modrm_resolve z (oid (reg_operand r W64)) (sib_sum a32 d32 er eb) = sib_modrm d32 r"
  "drop_bit 5 (sum_width (sib_sum a32 d32 er eb)) AND 3 = (if d32 then 2 else 1)"
  by (cases a32; cases d32; cases er; cases eb;
      simp add: sib_sum_def i64_leg_resolve_def i64_rex_resolve_def i64_modrm_resolve_def sib_modrm_def field_byte_def sib_rex_def
        Let_def BIT_def I64_REX_LABEL_def; fail)+

lemma i64_sib_resolve_sib:
  assumes "k < 4"
  shows "i64_sib_resolve (oid (reg_operand b W64))
    \<lparr>scale_id = i64_operand_id_val (sib_scales ! k), index_id = oid (reg_operand x W64), index_width = 0, disp = dp\<rparr>
    (sib_sum a32 d32 er eb) = sib_byte k x b"
proof -
  have "bit (sum_operand (sib_sum a32 d32 er eb)) 4" by (cases er; cases eb) (simp_all add: sib_sum_def)
  moreover have "push_bit 6 (drop_bit (unat (push_bit 1 (i64_operand_id_val (sib_scales ! k) AND 3))) (0xe4 :: u8))
      = push_bit 6 (of_nat k)"
  proof -
    from assms have "k = 0 \<or> k = 1 \<or> k = 2 \<or> k = 3" by auto
    then show ?thesis by (elim disjE) (simp_all add: sib_scales_def i64_eval BIT_def)
  qed
  ultimately show ?thesis
    unfolding i64_sib_resolve_def sib_byte_def field_byte_def Let_def by (simp add: or.commute)
qed

definition sib_bytes :: "i64_opcode \<Rightarrow> bool \<Rightarrow> bool \<Rightarrow> nat \<Rightarrow> nat \<Rightarrow> nat \<Rightarrow> nat \<Rightarrow> u32 \<Rightarrow> u8 list" where
  "sib_bytes opc a32 d32 r b x k dp = (if a32 then [0x67] else []) @
     [sib_rex (8 \<le> r) (8 \<le> b), ucast (i64_opcode_val opc AND 0xff), sib_modrm d32 r, sib_byte k x b] @ disp_bytes d32 dp"

lemma sib_nonzero: "sib_rex er eb \<noteq> 0" "sib_modrm d32 r \<noteq> 0"
proof -
  show "sib_rex er eb \<noteq> 0" by (cases er; cases eb) (simp_all add: sib_rex_def)
  have "modrm_rm (sib_modrm d32 r) = 4" by (simp add: sib_modrm_def field_byte_fields)
  then show "sib_modrm d32 r \<noteq> 0" by (auto simp: modrm_rm_def)
qed

lemma emit_parts_sib:
  assumes "desc_rr64 d" "r < 16" "b < 16" "k < 4" "od_form d = FORM_RM_R"
    and "rr64_opcode opc = Some (alu, True)" "sib_byte k x b \<noteq> 0"
  shows "part_bytes (emit_parts (i64_opcode_val opc) d (sib_operand a32 d32 b x k dp # reg_operand r W64 # rest)) =
    sib_bytes opc (a32 \<and> od_flags d AND FLAG_LEGACY \<noteq> 0) d32 r b x k dp"
proof -
  let ?s = "sib_sum a32 d32 (8 \<le> r) (8 \<le> b)"
  from assms(1) have fl: "od_flags d AND FLAG_REX \<noteq> 0" "od_flags d AND FLAG_MODRM \<noteq> 0"
    by (simp_all add: desc_rr64_def)
  have si: "sib_i ?s = 0" by (simp add: sib_sum_def)
  note byte = rr64_opcode_byte(4,5) [OF assms(6)]
  show ?thesis
    unfolding emit_parts_def i64_sum_calc_sib [OF assms(1-3,5)] parts_of_sum_def Let_def i64_resolve_sib(4)
    by (simp add: si i64_resolve_sib(1-3) i64_sib_resolve_sib [OF assms(4)] fl byte assms(7) sib_nonzero sib_bytes_def
        disp_bytes_def mask_of_def)
qed

lemma sib_rex_decode:
  "sib_rex er eb AND 0xf0 = 0x40" "sib_rex er eb \<noteq> 0x66" "sib_rex er eb \<noteq> 0x67" "bit (sib_rex er eb) 3"
  "rex_ext (sib_rex er eb) 2 = (if eb then 8 else 0)" "rex_ext (sib_rex er eb) 1 = (if eb then 8 else 0)"
  "rex_ext (sib_rex er eb) 0 = (if er then 8 else 0)"
  by (cases er; cases eb; simp add: sib_rex_def rex_ext_def)+

lemma sib_modrm_fields:
  assumes "r < 16"
  shows "modrm_mod (sib_modrm d32 r) = (if d32 then 2 else 1)" "modrm_reg (sib_modrm d32 r) = r mod 8"
    "modrm_rm (sib_modrm d32 r) = 4"
  using reg_oid_mod8 [OF assms] by (simp_all add: sib_modrm_def field_byte_fields)

lemma sib_byte_fields:
  assumes "x < 16" "b < 16" "k < 4"
  shows "modrm_mod (sib_byte k x b) = k" "modrm_reg (sib_byte k x b) = x mod 8" "modrm_rm (sib_byte k x b) = b mod 8"
proof -
  from assms(3) have "k = 0 \<or> k = 1 \<or> k = 2 \<or> k = 3" by auto
  then have "unat (of_nat k AND 3 :: u8) = k" by (elim disjE) simp_all
  then show "modrm_mod (sib_byte k x b) = k" "modrm_reg (sib_byte k x b) = x mod 8" "modrm_rm (sib_byte k x b) = b mod 8"
    using reg_oid_mod8 assms by (simp_all add: sib_byte_def field_byte_fields)
qed

text \<open>The displacement an instruction with these bytes has: the low byte is sign-extended.\<close>

definition disp_of :: "bool \<Rightarrow> u32 \<Rightarrow> u32" where
  "disp_of d32 dp = (if d32 then dp else scast (ucast dp :: u8))"

lemma low_byte: "(ucast (w AND 0xff :: u32) :: u8) = ucast w"
proof -
  have mask: "(0xff :: u32) = mask 8" by (simp add: mask_eq_exp_minus_1)
  show ?thesis unfolding mask by (rule bit_word_eqI) (auto simp: bit_simps)
qed

lemma take_disp_bytes: "take_disp (if d32 then 2 else 1) (disp_bytes d32 dp) = Some (disp_of d32 dp, [])"
proof (cases d32)
  case True
  have "disp_bytes True dp = le32_bytes dp"
    by (simp add: disp_bytes_def le32_bytes_def low_byte)
  with True show ?thesis
    using le32_le32_bytes [of dp "[]"] by (simp add: take_disp_def take_disp32_def disp_of_def le32_bytes_def)
next
  case False
  then show ?thesis by (simp add: low_byte take_disp_def take_disp8_def disp_of_def disp_bytes_def)
qed

lemma sib_bytes_decode:
  assumes "rr64_opcode opc = Some (alu, True)" "r < 16" "b < 16" "x < 16" "k < 4"
  shows "x86_decode (sib_bytes opc a32 d32 r b x k dp) =
    Some (\<lparr>x_alu = alu, x_size = 64, x_to_rm = True, x_reg = reg_like r b,
       x_rm = XMem (Some (reg_like b r)) (if reg_like x b = 4 then None else Some (reg_like x b, k)) (disp_of d32 dp) a32\<rparr>, [])"
proof -
  note byte = rr64_opcode_byte [OF assms(1)]
  have rest: "x86_decode_rex False A
      (sib_rex (8 \<le> r) (8 \<le> b) # ucast (i64_opcode_val opc AND 0xff) # sib_modrm d32 r # sib_byte k x b # disp_bytes d32 dp) =
    Some (\<lparr>x_alu = alu, x_size = 64, x_to_rm = True, x_reg = reg_like r b,
       x_rm = XMem (Some (reg_like b r)) (if reg_like x b = 4 then None else Some (reg_like x b, k)) (disp_of d32 dp) A\<rparr>, [])" for A
    using byte(1-3)
    by (simp add: x86_decode_rex_def x86_decode_op_def x86_decode_rm_def Let_def sib_rex_decode sib_rex_decode(6) [simplified] sib_modrm_fields [OF assms(2)]
        sib_byte_fields [OF assms(4,3,5)] take_disp_bytes [of True, simplified] take_disp_bytes [of False, simplified] reg_like_def)
  show ?thesis
    by (cases a32) (simp_all add: sib_bytes_def x86_decode_def sib_rex_decode rest)
qed



end
