(* ===== verification/Emit_Suite.thy ===== *)
theory Emit_Suite
  imports I64_Memory
begin

text \<open>
  The emitter's test suite (\<^verbatim>\<open>emitter/test_suite.c\<close>): thirty additions over registers and memory
  operands. Its entries carry no expected bytes, only the assembly they stand for; the reference decoder
  supplies the judgement.
\<close>

section \<open>The cases (init_suite)\<close>

definition reg_op :: "u8 \<Rightarrow> i64_operand_id \<Rightarrow> i64_operand" where
  "reg_op w r = \<lparr>desc = \<lparr>od_type = I64_REG, od_width = w\<rparr>, oid = i64_operand_id_val r, val = 0\<rparr>"

definition mem_op :: "u8 \<Rightarrow> i64_operand_id \<Rightarrow> i64_operand" where
  "mem_op w r = \<lparr>desc = \<lparr>od_type = I64_MEM, od_width = w\<rparr>, oid = i64_operand_id_val r, val = 0\<rparr>"

definition sib_op :: "u8 \<Rightarrow> u8 \<Rightarrow> i64_operand_id \<Rightarrow> i64_operand_mem \<Rightarrow> i64_operand" where
  "sib_op d w r m = \<lparr>desc = \<lparr>od_type = I64_SIB OR d, od_width = w\<rparr>, oid = i64_operand_id_val r, val = mem_value m\<rparr>"

definition add_suite_r64_rm :: "(i64_opcode \<times> i64_operand list) list" where
  "add_suite_r64_rm =
    [(ADD_R64_64, [reg_op W64 I64_rAX,
       reg_op W64 I64_rCX]),
     (ADD_R64_64, [reg_op W64 I64_rAX,
       reg_op W64 I64_rBX]),
     (ADD_R64_64, [reg_op W64 I64_r10,
       reg_op W64 I64_rBX]),
     (ADD_R64_64, [reg_op W64 I64_rAX,
       reg_op W64 I64_r10]),
     (ADD_R64_64, [reg_op W64 I64_r8,
       reg_op W64 I64_r9]),
     (ADD_R64_64, [reg_op W64 I64_rAX,
       mem_op W64 I64_rCX]),
     (ADD_R64_64, [reg_op W64 I64_rAX,
       sib_op I64_DISP32 W64 I64_r10 \<lparr>scale_id = i64_operand_id_val I64_SIB_8, index_id = i64_operand_id_val I64_r9, index_width = 0, disp = 0x1000\<rparr>]),
     (ADD_R64_64, [reg_op W64 I64_r10,
       sib_op I64_DISP32 W64 I64_rBX \<lparr>scale_id = i64_operand_id_val I64_SIB_2, index_id = i64_operand_id_val I64_rAX, index_width = 0, disp = 0xff\<rparr>]),
     (ADD_R64_64, [reg_op W64 I64_rAX,
       mem_op W32 I64_rCX]),
     (ADD_R64_64, [reg_op W64 I64_rAX,
       sib_op I64_DISP32 W32 I64_r10 \<lparr>scale_id = i64_operand_id_val I64_SIB_8, index_id = i64_operand_id_val I64_r9, index_width = 0, disp = 0x1000\<rparr>]),
     (ADD_R64_64, [reg_op W64 I64_r10,
       sib_op I64_DISP32 W32 I64_rBX \<lparr>scale_id = i64_operand_id_val I64_SIB_2, index_id = i64_operand_id_val I64_rAX, index_width = 0, disp = 0xff\<rparr>])]"

definition add_suite_rm_r64 :: "(i64_opcode \<times> i64_operand list) list" where
  "add_suite_rm_r64 =
    [(ADD_64_R64, [mem_op W64 I64_rAX,
       reg_op W64 I64_rCX]),
     (ADD_64_R64, [mem_op W64 I64_rDX,
       reg_op W64 I64_r15]),
     (ADD_64_R64, [sib_op I64_DISP32 W64 I64_r10 \<lparr>scale_id = i64_operand_id_val I64_SIB_8, index_id = i64_operand_id_val I64_r9, index_width = 0, disp = 0x1000\<rparr>,
       reg_op W64 I64_rAX]),
     (ADD_64_R64, [sib_op I64_DISP32 W64 I64_rBX \<lparr>scale_id = i64_operand_id_val I64_SIB_2, index_id = i64_operand_id_val I64_rAX, index_width = 0, disp = 0xff\<rparr>,
       reg_op W64 I64_r10]),
     (ADD_64_R64, [mem_op W32 I64_rCX,
       reg_op W64 I64_rDX]),
     (ADD_64_R64, [sib_op I64_DISP32 W32 I64_r10 \<lparr>scale_id = i64_operand_id_val I64_SIB_8, index_id = i64_operand_id_val I64_r9, index_width = 0, disp = 0x1000\<rparr>,
       reg_op W64 I64_rAX]),
     (ADD_64_R64, [sib_op I64_DISP32 W32 I64_rBX \<lparr>scale_id = i64_operand_id_val I64_SIB_2, index_id = i64_operand_id_val I64_rAX, index_width = W32, disp = 0xff\<rparr>,
       reg_op W64 I64_r10])]"

definition add_suite_r8_rm :: "(i64_opcode \<times> i64_operand list) list" where
  "add_suite_r8_rm =
    [(ADD_R8_8, [reg_op W8 I64_rAX,
       reg_op W8 I64_rCX]),
     (ADD_R8_8, [reg_op W8 I64_rAX,
       reg_op W8 I64_rBX]),
     (ADD_R8_8, [reg_op W8 I64_rCX,
       mem_op W64 I64_rAX]),
     (ADD_R8_8, [reg_op W8 I64_rCX,
       sib_op I64_DISP8 W64 I64_rBX \<lparr>scale_id = i64_operand_id_val I64_SIB_2, index_id = i64_operand_id_val I64_rAX, index_width = 0, disp = 0x10\<rparr>]),
     (ADD_R8_8, [reg_op W8 I64_rCX,
       mem_op W32 I64_rCX]),
     (ADD_R8_8, [reg_op W8 I64_rCX,
       sib_op I64_DISP8 W32 I64_rBX \<lparr>scale_id = i64_operand_id_val I64_SIB_4, index_id = i64_operand_id_val I64_rAX, index_width = 0, disp = 0x20\<rparr>])]"

definition add_suite_rm_r8 :: "(i64_opcode \<times> i64_operand list) list" where
  "add_suite_rm_r8 =
    [(ADD_8_R8, [mem_op W64 I64_rAX,
       reg_op W8 I64_rCX]),
     (ADD_8_R8, [mem_op W64 I64_rDX,
       reg_op W8 I64_rBX]),
     (ADD_8_R8, [reg_op W8 I64_rBX,
       reg_op W8 I64_rCX]),
     (ADD_8_R8, [sib_op I64_DISP8 W64 I64_rBX \<lparr>scale_id = i64_operand_id_val I64_SIB_4, index_id = i64_operand_id_val I64_rCX, index_width = 0, disp = 0x08\<rparr>,
       reg_op W8 I64_rAX]),
     (ADD_8_R8, [mem_op W32 I64_rCX,
       reg_op W8 I64_rBX]),
     (ADD_8_R8, [sib_op I64_DISP8 W32 I64_rBX \<lparr>scale_id = i64_operand_id_val I64_SIB_4, index_id = i64_operand_id_val I64_rCX, index_width = 0, disp = 0x08\<rparr>,
       reg_op W8 I64_rAX])]"

text \<open>The two arrays; operands that are not named are zero.\<close>

definition add_suite :: "(i64_opcode \<times> i64_operand list) list" where
  "add_suite = add_suite_r64_rm @ add_suite_rm_r64 @ add_suite_r8_rm @ add_suite_rm_r8"

definition add_opcodes :: "i64_opcode list" where
  "add_opcodes = map fst add_suite"

definition add_cases :: "i64_operand list list" where
  "add_cases = map (\<lambda>(opc, xs). xs @ replicate (I64_MAX_OP_COUNT - 2) i64_operand_zero) add_suite"

section \<open>What the cases stand for\<close>

definition add_intent :: "nat \<Rightarrow> bool \<Rightarrow> nat \<Rightarrow> x86_rm \<Rightarrow> x86_instr" where
  "add_intent sz to_rm reg rm = \<lparr>x_alu = X_ADD, x_size = sz, x_to_rm = to_rm, x_reg = reg, x_rm = rm\<rparr>"

definition add_suite_intents :: "x86_instr list" where
  "add_suite_intents =
    [add_intent 64 False 0 (XReg 1),
     add_intent 64 False 0 (XReg 3),
     add_intent 64 False 10 (XReg 3),
     add_intent 64 False 0 (XReg 10),
     add_intent 64 False 8 (XReg 9),
     add_intent 64 False 0 (XMem (Some 1) None 0 False),
     add_intent 64 False 0 (XMem (Some 10) (Some (9, 3)) 0x1000 False),
     add_intent 64 False 10 (XMem (Some 3) (Some (0, 1)) 0xff False),
     add_intent 64 False 0 (XMem (Some 1) None 0 True),
     add_intent 64 False 0 (XMem (Some 10) (Some (9, 3)) 0x1000 True),
     add_intent 64 False 10 (XMem (Some 3) (Some (0, 1)) 0xff True),
     add_intent 64 True 1 (XMem (Some 0) None 0 False),
     add_intent 64 True 15 (XMem (Some 2) None 0 False),
     add_intent 64 True 0 (XMem (Some 10) (Some (9, 3)) 0x1000 False),
     add_intent 64 True 10 (XMem (Some 3) (Some (0, 1)) 0xff False),
     add_intent 64 True 2 (XMem (Some 1) None 0 True),
     add_intent 64 True 0 (XMem (Some 10) (Some (9, 3)) 0x1000 True),
     add_intent 64 True 10 (XMem (Some 3) (Some (0, 1)) 0xff True),
     add_intent 8 False 0 (XReg 1),
     add_intent 8 False 0 (XReg 3),
     add_intent 8 False 1 (XMem (Some 0) None 0 False),
     add_intent 8 False 1 (XMem (Some 3) (Some (0, 1)) 0x10 False),
     add_intent 8 False 1 (XMem (Some 1) None 0 True),
     add_intent 8 False 1 (XMem (Some 3) (Some (0, 2)) 0x20 True),
     add_intent 8 True 1 (XMem (Some 0) None 0 False),
     add_intent 8 True 3 (XMem (Some 2) None 0 False),
     add_intent 8 True 1 (XReg 3),
     add_intent 8 True 0 (XMem (Some 3) (Some (1, 2)) 0x08 False),
     add_intent 8 True 3 (XMem (Some 1) None 0 True),
     add_intent 8 True 0 (XMem (Some 3) (Some (1, 2)) 0x08 True)]"

text \<open>The bytes of case \<open>i\<close>, and whether they are the instruction it stands for and nothing else.\<close>

definition suite_bytes :: "nat \<Rightarrow> u8 list option" where
  "suite_bytes i = emitted (i64_emit_64 (add_opcodes ! i) (Some (add_cases ! i)) (Some (replicate 16 0)) (Some 0))"

definition suite_decodes :: "nat \<Rightarrow> bool" where
  "suite_decodes i \<longleftrightarrow> (case suite_bytes i of None \<Rightarrow> False
     | Some bs \<Rightarrow> x86_decode bs = Some (add_suite_intents ! i, []))"

section \<open>The bytes of the cases\<close>

definition case_parts :: "i64_opcode_desc \<Rightarrow> i64_opcode \<times> i64_operand list \<Rightarrow> u8 list" where
  "case_parts d c = part_bytes (emit_parts (i64_opcode_val (fst c)) d
     (snd c @ replicate (I64_MAX_OP_COUNT - 2) i64_operand_zero))"

definition suite_case :: "i64_opcode \<times> i64_operand list \<Rightarrow> u8 list option" where
  "suite_case c = emitted (i64_emit_64 (fst c) (Some (snd c @ replicate (I64_MAX_OP_COUNT - 2) i64_operand_zero))
     (Some (replicate 16 0)) (Some 0))"

lemma suite_group:
  assumes "i64_lookup_opcode_meta opc = Inr d" "\<forall>c \<in> set xs. fst c = opc"
  shows "map suite_case xs = map Some (map (case_parts d) xs)"
  using assms by (auto simp: suite_case_def case_parts_def emitted_parts)

lemmas case_eval = case_parts_def emit_parts_def parts_of_sum_def i64_sum_calc_def sum_step_def operand_em_def mask_of_def
  i64_leg_resolve_def i64_rex_resolve_def i64_modrm_resolve_def i64_sib_resolve_def Let_def BIT_def I64_REX_LABEL_def
  mem_value_def reg_op_def mem_op_def sib_op_def meta2_def i64_eval I64_FORM_I_def I64_MAX_OP_COUNT_def

definition emitted_r64_rm :: "u8 list list" where
  "emitted_r64_rm =
    [[0x48, 0x03, 0xc1], [0x48, 0x03, 0xc3], [0x4c, 0x03, 0xd3], [0x49, 0x03, 0xc2], [0x4d, 0x03, 0xc1],
     [0x48, 0x03, 0x01], [0x4b, 0x03, 0x84, 0x00, 0x00, 0x00, 0x00],
     [0x4c, 0x03, 0x94, 0x02, 0x00, 0x00, 0x00, 0x00], [0x48, 0x03, 0x01],
     [0x4b, 0x03, 0x84, 0x00, 0x00, 0x00, 0x00], [0x4c, 0x03, 0x94, 0x02, 0x00, 0x00, 0x00, 0x00]]"

definition emitted_rm_r64 :: "u8 list list" where
  "emitted_rm_r64 =
    [[0x48, 0x01, 0x08], [0x49, 0x01, 0x3a], [0x4e, 0x01, 0x84, 0xca, 0x00, 0x10, 0x00, 0x00],
     [0x49, 0x01, 0x94, 0x43, 0xff, 0x00, 0x00, 0x00], [0x67, 0x48, 0x01, 0x11],
     [0x67, 0x4e, 0x01, 0x84, 0xca, 0x00, 0x10, 0x00, 0x00],
     [0x67, 0x49, 0x01, 0x94, 0x43, 0xff, 0x00, 0x00, 0x00]]"

definition emitted_r8_rm :: "u8 list list" where
  "emitted_r8_rm =
    [[0x02, 0xc1], [0x02, 0xc3], [0x02, 0x08], [0x02, 0x4c, 0x01, 0x00], [0x02, 0x09],
     [0x02, 0x4c, 0x01, 0x00]]"

definition emitted_rm_r8 :: "u8 list list" where
  "emitted_rm_r8 =
    [[0x00, 0x08], [0x00, 0x1a], [0x00, 0xcb], [0x00, 0x44, 0x8b, 0x08], [0x67, 0x00, 0x19],
     [0x67, 0x00, 0x44, 0x8b, 0x08]]"

lemma suite_group_r64_rm: "map suite_case add_suite_r64_rm = map Some emitted_r64_rm"
proof -
  let ?d = "meta2 I64_REG W64 (I64_REG OR I64_MEM) W64 (FLAG_REX OR FLAG_MODRM) I64_NO_PREF FORM_R_RM"
  have "i64_lookup_opcode_meta ADD_R64_64 = Inr ?d"
    by (rule i64_lookup_opcode_meta_entry) (simp add: L1_OPCODE_META_ENTRIES_eval)
  moreover have "\<forall>c \<in> set add_suite_r64_rm. fst c = ADD_R64_64" by (simp add: add_suite_r64_rm_def)
  moreover have "map (case_parts ?d) add_suite_r64_rm = emitted_r64_rm"
    by (simp add: add_suite_r64_rm_def emitted_r64_rm_def case_eval)
  ultimately show ?thesis by (metis suite_group)
qed

lemma suite_group_rm_r64: "map suite_case add_suite_rm_r64 = map Some emitted_rm_r64"
proof -
  let ?d = "meta2 (I64_REG OR I64_MEM) W64 I64_REG W64 (FLAG_REX OR FLAG_MODRM OR FLAG_LEGACY) I64_LOCK_PREF FORM_RM_R"
  have "i64_lookup_opcode_meta ADD_64_R64 = Inr ?d"
    by (rule i64_lookup_opcode_meta_entry) (simp add: L1_OPCODE_META_ENTRIES_eval)
  moreover have "\<forall>c \<in> set add_suite_rm_r64. fst c = ADD_64_R64" by (simp add: add_suite_rm_r64_def)
  moreover have "map (case_parts ?d) add_suite_rm_r64 = emitted_rm_r64"
    by (simp add: add_suite_rm_r64_def emitted_rm_r64_def case_eval)
  ultimately show ?thesis by (metis suite_group)
qed

lemma suite_group_r8_rm: "map suite_case add_suite_r8_rm = map Some emitted_r8_rm"
proof -
  let ?d = "meta2 I64_REG W8 (I64_REG OR I64_MEM) W8 FLAG_MODRM I64_NO_PREF FORM_R_RM"
  have "i64_lookup_opcode_meta ADD_R8_8 = Inr ?d"
    by (rule i64_lookup_opcode_meta_entry) (simp add: L1_OPCODE_META_ENTRIES_eval)
  moreover have "\<forall>c \<in> set add_suite_r8_rm. fst c = ADD_R8_8" by (simp add: add_suite_r8_rm_def)
  moreover have "map (case_parts ?d) add_suite_r8_rm = emitted_r8_rm"
    by (simp add: add_suite_r8_rm_def emitted_r8_rm_def case_eval)
  ultimately show ?thesis by (metis suite_group)
qed

lemma suite_group_rm_r8: "map suite_case add_suite_rm_r8 = map Some emitted_rm_r8"
proof -
  let ?d = "meta2 (I64_REG OR I64_MEM) W8 I64_REG W8 (FLAG_MODRM OR FLAG_LEGACY) I64_LOCK_PREF FORM_RM_R"
  have "i64_lookup_opcode_meta ADD_8_R8 = Inr ?d"
    by (rule i64_lookup_opcode_meta_entry) (simp add: L1_OPCODE_META_ENTRIES_eval)
  moreover have "\<forall>c \<in> set add_suite_rm_r8. fst c = ADD_8_R8" by (simp add: add_suite_rm_r8_def)
  moreover have "map (case_parts ?d) add_suite_rm_r8 = emitted_rm_r8"
    by (simp add: add_suite_rm_r8_def emitted_rm_r8_def case_eval)
  ultimately show ?thesis by (metis suite_group)
qed

definition add_suite_emitted :: "u8 list list" where
  "add_suite_emitted = emitted_r64_rm @ emitted_rm_r64 @ emitted_r8_rm @ emitted_rm_r8"

lemma length_add_suite [simp]: "length add_suite = 30"
  by (simp add: add_suite_def add_suite_r64_rm_def add_suite_rm_r64_def add_suite_r8_rm_def add_suite_rm_r8_def)

lemma suite_bytes_case: "i < 30 \<Longrightarrow> suite_bytes i = suite_case (add_suite ! i)"
  by (simp add: suite_bytes_def suite_case_def add_opcodes_def add_cases_def case_prod_beta)

lemma suite_bytes_emitted: "map suite_bytes [0..<30] = map Some add_suite_emitted"
proof -
  have "map suite_bytes [0..<30] = map suite_case (map ((!) add_suite) [0..<30])"
    using suite_bytes_case by simp
  also have "map ((!) add_suite) [0..<30] = add_suite"
    using map_nth [of add_suite] by simp
  also have "map suite_case add_suite = map Some add_suite_emitted"
    by (simp add: add_suite_def add_suite_emitted_def suite_group_r64_rm suite_group_rm_r64 suite_group_r8_rm suite_group_rm_r8)
  finally show ?thesis .
qed

section \<open>The verdict\<close>

definition is_instr :: "u8 list \<Rightarrow> x86_instr \<Rightarrow> bool" where
  "is_instr bs i \<longleftrightarrow> x86_decode bs = Some (i, [])"

definition suite_verdicts :: "bool list" where
  "suite_verdicts = map2 is_instr add_suite_emitted add_suite_intents"

lemmas decode_eval = is_instr_def x86_decode_def x86_decode_rex_def x86_decode_op_def x86_decode_rm_def x86_alu_of_def
  modrm_mod_def modrm_reg_def modrm_rm_def rex_ext_def take_disp_def take_disp8_def take_disp32_def le32_def Let_def

text \<open>
  C7: the emitter on its test suite. All thirty cases are emitted, as the bytes
  \<open>add_suite_emitted\<close>. Seventeen of them are the instruction the comment of the case names. The others are
  those with a scaled index in second place (6, 7, 9, 10, 21, 23), whose index, scale and displacement are
  lost, those with a 32-bit base in second place (8, 22), which miss the address size prefix, and those with the memory
  operand in first place and exactly one of register and base extended (12, 13, 14, 16, 17).
\<close>

theorem add_suite_outcome:
  "map suite_bytes [0..<30] = map Some add_suite_emitted \<and>
   filter suite_decodes [0..<30] = [0, 1, 2, 3, 4, 5, 11, 15, 18, 19, 20, 24, 25, 26, 27, 28, 29]"
proof
  show b: "map suite_bytes [0..<30] = map Some add_suite_emitted" by (rule suite_bytes_emitted)
  have len: "length add_suite_emitted = 30" "length add_suite_intents = 30"
    using arg_cong [OF b, of length] by (simp_all add: add_suite_intents_def)
  have "suite_decodes i \<longleftrightarrow> suite_verdicts ! i" if "i \<in> set [0..<30]" for i
    using that arg_cong [OF b, of "\<lambda>xs. xs ! i"] len
    by (simp add: suite_decodes_def suite_verdicts_def is_instr_def)
  then have "filter suite_decodes [0..<30] = filter (\<lambda>i. suite_verdicts ! i) [0..<30]"
    by (metis (mono_tags, lifting) filter_cong)
  also have "suite_verdicts =
    [True, True, True, True, True, True, False, False, False, False, False, True, False, False, False,
     True, False, False, True, True, True, False, False, False, True, True, True, True, True, True]"
    by (simp add: suite_verdicts_def add_suite_emitted_def emitted_r64_rm_def emitted_rm_r64_def emitted_r8_rm_def emitted_rm_r8_def
        add_suite_intents_def add_intent_def decode_eval)
  also have "filter (\<lambda>i. [True, True, True, True, True, True, False, False, False, False, False, True, False, False, False,
     True, False, False, True, True, True, False, False, False, True, True, True, True, True, True] ! i) [0..<30] = [0, 1, 2, 3, 4, 5, 11, 15, 18, 19, 20, 24, 25, 26, 27, 28, 29]" by code_simp
  finally show "filter suite_decodes [0..<30] = [0, 1, 2, 3, 4, 5, 11, 15, 18, 19, 20, 24, 25, 26, 27, 28, 29]" .
qed

end
