(* ===== verification/Slots.thy ===== *)
theory Slots
  imports Prelude
begin

text \<open>
  The contract of a provider that hands out numbered slots: a claim takes a free slot and fails
  only when none is free, a release gives one back. \<open>Sync_Map\<close> and \<open>Bitpool\<close> provide it; their
  clients rest on the lemmas proved here once. \<open>claims\<close> is the client that claims \<open>n\<close> times.
\<close>

lemma unat_of_nat_small: "n < 2 ^ LENGTH('a) \<Longrightarrow> unat (of_nat n :: 'a::len word) = n"
  by (simp add: unat_of_nat)

fun claims :: "('s \<Rightarrow> (nat \<times> 's) option) \<Rightarrow> nat \<Rightarrow> 's \<Rightarrow> nat list \<times> 's" where
  "claims claim 0 s = ([], s)"
| "claims claim (Suc n) s =
    (case claim s of None \<Rightarrow> ([], s)
     | Some (i, s') \<Rightarrow> (let (ks, t) = claims claim n s' in (i # ks, t)))"

locale slot_pool =
  fixes ok :: "'s \<Rightarrow> bool"
    and free :: "'s \<Rightarrow> nat set"
    and claim :: "'s \<Rightarrow> (nat \<times> 's) option"
  assumes finite_free: "ok s \<Longrightarrow> finite (free s)"
    and claim_Some: "ok s \<Longrightarrow> claim s = Some (i, s') \<Longrightarrow> ok s' \<and> i \<in> free s \<and> free s' = free s - {i}"
    and claim_None: "ok s \<Longrightarrow> claim s = None \<Longrightarrow> free s = {}"
begin

lemma claim_succeeds_iff: "ok s \<Longrightarrow> claim s = None \<longleftrightarrow> free s = {}"
  using claim_None claim_Some by (cases "claim s") fastforce+

text \<open>Repeated claims give distinct slots, as many as there are free ones.\<close>

lemma claims_distinct:
  assumes "ok s" "claims claim n s = (ks, t)"
  shows "ok t \<and> distinct ks \<and> set ks \<subseteq> free s \<and> free t = free s - set ks"
  using assms
proof (induction n arbitrary: s ks)
  case (Suc n)
  show ?case
  proof (cases "claim s")
    case (Some p)
    obtain i s' where p: "p = (i, s')" by force
    note step = claim_Some [OF Suc.prems(1) Some [unfolded p]]
    obtain js where "claims claim n s' = (js, t)" "ks = i # js"
      using Suc.prems(2) Some p by (auto split: prod.splits)
    with Suc.IH [of s' js] step show ?thesis by auto
  qed (use Suc.prems in auto)
qed simp

lemma claims_length:
  assumes "ok s" "claims claim n s = (ks, t)"
  shows "length ks = min n (card (free s))"
  using assms
proof (induction n arbitrary: s ks)
  case (Suc n)
  show ?case
  proof (cases "claim s")
    case None
    with claim_None [OF Suc.prems(1)] Suc.prems(2) show ?thesis by simp
  next
    case (Some p)
    obtain i s' where p: "p = (i, s')" by force
    note step = claim_Some [OF Suc.prems(1) Some [unfolded p]]
    obtain js where js: "claims claim n s' = (js, t)" "ks = i # js"
      using Suc.prems(2) Some p by (auto split: prod.splits)
    have "card (free s) = Suc (card (free s'))"
      using step card.remove [OF finite_free [OF Suc.prems(1)], of i] by metis
    moreover have "length js = min n (card (free s'))" using Suc.IH [of s' js] step js(1) by blast
    ultimately show ?thesis using js(2) by simp
  qed
qed simp

end

locale slot_pool_release = slot_pool ok free claim
  for ok :: "'s \<Rightarrow> bool" and free :: "'s \<Rightarrow> nat set" and claim :: "'s \<Rightarrow> (nat \<times> 's) option" +
  fixes slots :: "'s \<Rightarrow> nat set"
    and release :: "nat \<Rightarrow> 's \<Rightarrow> 's"
  assumes slots_claim: "ok s \<Longrightarrow> claim s = Some (i, s') \<Longrightarrow> slots s' = slots s"
    and free_slots: "ok s \<Longrightarrow> free s \<subseteq> slots s"
    and release_free: "ok s \<Longrightarrow> i \<in> slots s \<Longrightarrow>
      ok (release i s) \<and> free (release i s) = insert i (free s) \<and> slots (release i s) = slots s"
begin

text \<open>A slot that was claimed and released is free again, and nothing else changed.\<close>

lemma claim_release:
  assumes "ok s" "claim s = Some (i, s')"
  shows "ok (release i s') \<and> free (release i s') = free s"
  using claim_Some [OF assms] slots_claim [OF assms] free_slots [OF assms(1)] release_free [of s' i] by auto

lemma fold_release:
  assumes "ok s" "set ks \<subseteq> slots s"
  shows "ok (fold release ks s) \<and> free (fold release ks s) = free s \<union> set ks \<and> slots (fold release ks s) = slots s"
  using assms
proof (induction ks arbitrary: s)
  case (Cons i ks)
  then show ?case using release_free [of s i] by auto
qed simp

lemma claims_slots:
  assumes "ok s" "claims claim n s = (ks, t)"
  shows "slots t = slots s"
  using assms
proof (induction n arbitrary: s ks)
  case (Suc n)
  then show ?case
    using claim_Some [of s] slots_claim [of s] by (fastforce split: option.splits prod.splits)
qed simp

text \<open>Releasing every claimed slot, in any order, gives back the free slots of the start.\<close>

lemma claims_release_all:
  assumes "ok s" "claims claim n s = (ks, t)" "set js = set ks"
  shows "free (fold release js t) = free s"
  using claims_distinct [OF assms(1,2)] claims_slots [OF assms(1,2)] free_slots [OF assms(1)]
    fold_release [of t js] assms(3) by auto

end

end
