(* ===== verification/Sync_Map.thy ===== *)
theory Sync_Map
  imports Arch Slots
begin

text \<open>
  Lock-free bitmaps (\<^verbatim>\<open>pipe/sync_map.h\<close>, \<^verbatim>\<open>sync_map.c\<close>). A bitmap is an array of 64-bit quads on the
  heap; descriptors and references hold its address, so that several of them share one bitmap.
  This theory has the operations as they run when no other thread interferes, and their
  specification on sets of indices; \<open>Sync_Race\<close> has their atomic steps.
\<close>

section \<open>Bitmaps, descriptors and references (sync_map.h)\<close>

type_synonym map_heap = "nat \<Rightarrow> u64 list option"

record sync_map_desc =
  smap_map :: "nat option"
  smap_size :: u32

definition sync_map_desc_zero :: sync_map_desc where
  "sync_map_desc_zero = \<lparr>smap_map = None, smap_size = 0\<rparr>"

record sync_map_ref =
  ref_map :: "nat option"
  quad_index :: u32
  byte_index :: u32
  bit_index :: u32
  ref_size :: u32

definition sync_map_ind2bit :: "u32 \<Rightarrow> u32" where "sync_map_ind2bit i = i mod 64"
definition sync_map_ind2byte :: "u32 \<Rightarrow> u32" where "sync_map_ind2byte i = i div 8"
definition sync_map_ind2quad :: "u32 \<Rightarrow> u32" where "sync_map_ind2quad i = i div 64"

text \<open>The atomic accesses to a quad: load, fetch-or and fetch-and.\<close>

definition load_quad :: "map_heap \<Rightarrow> nat option \<Rightarrow> nat \<Rightarrow> u64 res" where
  "load_quad h m q = and_then (deref m) (\<lambda>p. and_then (deref (h p)) (\<lambda>qs. arr qs q))"

definition update_quad :: "map_heap \<Rightarrow> nat option \<Rightarrow> nat \<Rightarrow> (u64 \<Rightarrow> u64) \<Rightarrow> map_heap res" where
  "update_quad h m q f =
    and_then (deref m) (\<lambda>p. and_then (deref (h p)) (\<lambda>qs.
      and_then (arr qs q) (\<lambda>v. and_then (arr_set qs q (f v)) (\<lambda>qs'. Inr (h(p \<mapsto> qs'))))))"

definition fetch_or :: "map_heap \<Rightarrow> nat option \<Rightarrow> nat \<Rightarrow> u64 \<Rightarrow> map_heap res" where
  "fetch_or h m q x = update_quad h m q (\<lambda>v. v OR x)"

definition fetch_and :: "map_heap \<Rightarrow> nat option \<Rightarrow> nat \<Rightarrow> u64 \<Rightarrow> map_heap res" where
  "fetch_and h m q x = update_quad h m q (\<lambda>v. v AND x)"

text \<open>\<^verbatim>\<open>1ULL << i\<close>\<close>

definition quad_bit :: "nat \<Rightarrow> u64" where "quad_bit i = push_bit i 1"

definition sync_map_sigoff :: "sync_map_desc \<Rightarrow> u32 \<Rightarrow> map_heap \<Rightarrow> map_heap res" where
  "sync_map_sigoff m i h =
    fetch_and h (smap_map m) (unat (sync_map_ind2quad i)) (NOT (quad_bit (unat (sync_map_ind2bit i))))"

definition sync_map_sigon :: "sync_map_desc \<Rightarrow> u32 \<Rightarrow> map_heap \<Rightarrow> map_heap res" where
  "sync_map_sigon m i h =
    fetch_or h (smap_map m) (unat (sync_map_ind2quad i)) (quad_bit (unat (sync_map_ind2bit i)))"

definition sync_map_issig :: "sync_map_desc \<Rightarrow> u32 \<Rightarrow> map_heap \<Rightarrow> u64 res" where
  "sync_map_issig m i h =
    and_then (load_quad h (smap_map m) (unat (sync_map_ind2quad i)))
      (\<lambda>v. Inr (v AND quad_bit (unat (sync_map_ind2bit i))))"

definition sync_map_ref_sigoff :: "sync_map_ref \<Rightarrow> map_heap \<Rightarrow> map_heap res" where
  "sync_map_ref_sigoff r h = fetch_and h (ref_map r) (unat (quad_index r)) (NOT (quad_bit (unat (bit_index r))))"

definition sync_map_ref_sigon :: "sync_map_ref \<Rightarrow> map_heap \<Rightarrow> map_heap res" where
  "sync_map_ref_sigon r h = fetch_or h (ref_map r) (unat (quad_index r)) (quad_bit (unat (bit_index r)))"

definition sync_map_ref_issig :: "sync_map_ref \<Rightarrow> map_heap \<Rightarrow> u64 res" where
  "sync_map_ref_issig r h =
    and_then (load_quad h (ref_map r) (unat (quad_index r))) (\<lambda>v. Inr (v AND quad_bit (unat (bit_index r))))"

section \<open>Creation (sync_map.c)\<close>

text \<open>
  \<open>p\<close> and \<open>mem\<close> are the address, if any, and the content of the memory the allocator returns;
  nothing clears it.
\<close>

definition sync_map_init ::
  "u32 \<Rightarrow> sync_map_desc option \<Rightarrow> nat option \<Rightarrow> u64 list \<Rightarrow> map_heap \<Rightarrow> axres \<times> sync_map_desc option \<times> map_heap" where
  "sync_map_init sz buf p mem h =
    (if sz mod 64 \<noteq> 0 then (AX_INV_ARG, buf, h)
     else if buf = None then (AX_INV_BUF, buf, h)
     else (AX_SUCC, Some \<lparr>smap_map = p, smap_size = sz div 64\<rparr>,
       (case p of None \<Rightarrow> h | Some a \<Rightarrow> h(a \<mapsto> mem))))"

definition sync_map_disp :: "sync_map_desc option \<Rightarrow> map_heap \<Rightarrow> sync_map_desc option \<times> map_heap" where
  "sync_map_disp smap h =
    (case smap of None \<Rightarrow> (None, h)
     | Some s \<Rightarrow> (Some sync_map_desc_zero, (case smap_map s of None \<Rightarrow> h | Some p \<Rightarrow> h(p := None))))"

definition sync_map_ref_init ::
  "sync_map_desc option \<Rightarrow> u32 \<Rightarrow> sync_map_ref option \<Rightarrow> axres \<times> sync_map_ref option" where
  "sync_map_ref_init smap index buf =
    (case smap of None \<Rightarrow> (AX_INV_ARG, buf)
     | Some s \<Rightarrow>
       (case buf of None \<Rightarrow> (AX_INV_BUF, buf)
        | Some _ \<Rightarrow> (AX_SUCC, Some \<lparr>ref_map = smap_map s, quad_index = sync_map_ind2quad index,
            byte_index = sync_map_ind2byte index, bit_index = sync_map_ind2bit index, ref_size = smap_size s\<rparr>)))"

section \<open>Searching (sync_map_sig_first, sync_map_unsig_first)\<close>

text \<open>
  The result of a search is the returned flag, the value behind the index pointer, if there is
  one, and the heap.
\<close>

type_synonym search_result = "bool \<times> u32 option \<times> map_heap"

text \<open>The bounds check and the update once a bit of quad \<open>q\<close> was selected.\<close>

definition sig_claim :: "sync_map_desc \<Rightarrow> u32 \<Rightarrow> u32 option \<Rightarrow> map_heap \<Rightarrow> nat \<Rightarrow> nat \<Rightarrow> search_result res" where
  "sig_claim s to_bit index h q sigi =
    (let desi = of_nat sigi + 64 * of_nat q
     in if to_bit \<le> desi then Inr (False, index, h)
        else and_then (fetch_or h (smap_map s) q (quad_bit sigi))
               (\<lambda>h'. Inr (True, map_option (\<lambda>_. desi) index, h')))"

fun sig_loop :: "sync_map_desc \<Rightarrow> u32 \<Rightarrow> u32 option \<Rightarrow> map_heap \<Rightarrow> nat list \<Rightarrow> search_result res" where
  "sig_loop s to_bit index h [] = Inr (False, index, h)"
| "sig_loop s to_bit index h (q # qs) =
    and_then (load_quad h (smap_map s) q) (\<lambda>v.
      (if NOT v \<noteq> 0 then sig_claim s to_bit index h q (ctz (NOT v)) else sig_loop s to_bit index h qs))"

definition sync_map_sig_first ::
  "u32 \<Rightarrow> u32 \<Rightarrow> sync_map_desc option \<Rightarrow> u32 option \<Rightarrow> map_heap \<Rightarrow> search_result res" where
  "sync_map_sig_first from_bit_index to_bit_index smap index h =
    (case smap of None \<Rightarrow> Inr (False, index, h)
     | Some s \<Rightarrow>
       (let from_bit = sync_map_ind2bit from_bit_index;
            from_quad = sync_map_ind2quad from_bit_index
        in if smap_size s \<le> from_quad then Inr (False, index, h)
           else
            (let from_mask = push_bit (unat from_bit) (- 1)
             in and_then (load_quad h (smap_map s) (unat from_quad)) (\<lambda>q.
                 (let v = q AND from_mask
                  in if v \<noteq> from_mask
                     then sig_claim s to_bit_index index h (unat from_quad) (ctz (NOT v AND from_mask))
                     else sig_loop s to_bit_index index h [Suc (unat from_quad)..<unat (smap_size s)])))))"

definition unsig_claim :: "sync_map_desc \<Rightarrow> u32 \<Rightarrow> u32 option \<Rightarrow> map_heap \<Rightarrow> nat \<Rightarrow> nat \<Rightarrow> search_result res" where
  "unsig_claim s to_bit index h q sigi =
    (let desi = of_nat sigi + 64 * of_nat q
     in if to_bit \<le> desi then Inr (False, index, h)
        else and_then (fetch_and h (smap_map s) q (NOT (quad_bit sigi)))
               (\<lambda>h'. Inr (True, map_option (\<lambda>_. desi) index, h')))"

fun unsig_loop :: "sync_map_desc \<Rightarrow> u32 \<Rightarrow> u32 option \<Rightarrow> map_heap \<Rightarrow> nat list \<Rightarrow> search_result res" where
  "unsig_loop s to_bit index h [] = Inr (False, index, h)"
| "unsig_loop s to_bit index h (q # qs) =
    and_then (load_quad h (smap_map s) q) (\<lambda>v.
      (if v \<noteq> 0 then unsig_claim s to_bit index h q (ctz v) else unsig_loop s to_bit index h qs))"

definition sync_map_unsig_first ::
  "u32 \<Rightarrow> u32 \<Rightarrow> sync_map_desc option \<Rightarrow> u32 option \<Rightarrow> map_heap \<Rightarrow> search_result res" where
  "sync_map_unsig_first from_bit_index to_bit_index smap index h =
    (case smap of None \<Rightarrow> Inr (False, index, h)
     | Some s \<Rightarrow>
       (let from_bit = sync_map_ind2bit from_bit_index;
            from_quad = sync_map_ind2quad from_bit_index
        in if smap_size s \<le> from_quad then Inr (False, index, h)
           else
            (let from_mask = push_bit (unat from_bit) (- 1)
             in and_then (load_quad h (smap_map s) (unat from_quad)) (\<lambda>q.
                 (let v = q AND from_mask
                  in if v \<noteq> from_mask \<and> v \<noteq> 0
                     then unsig_claim s to_bit_index index h (unat from_quad) (ctz v)
                     else unsig_loop s to_bit_index index h [Suc (unat from_quad)..<unat (smap_size s)])))))"

section \<open>Bitmaps as predicates on indices\<close>

definition signaled :: "u64 list \<Rightarrow> nat \<Rightarrow> bool" where
  "signaled qs i \<longleftrightarrow> bit (qs ! (i div 64)) (i mod 64)"

definition set_sig :: "u64 list \<Rightarrow> nat \<Rightarrow> u64 list" where
  "set_sig qs i = qs[i div 64 := qs ! (i div 64) OR quad_bit (i mod 64)]"

definition clear_sig :: "u64 list \<Rightarrow> nat \<Rightarrow> u64 list" where
  "clear_sig qs i = qs[i div 64 := qs ! (i div 64) AND NOT (quad_bit (i mod 64))]"

lemma set_sig_length [simp]: "length (set_sig qs i) = length qs" "length (clear_sig qs i) = length qs"
  by (simp_all add: set_sig_def clear_sig_def)

lemma signaled_set_sig:
  assumes "i < 64 * length qs" "j < 64 * length qs"
  shows "signaled (set_sig qs i) j \<longleftrightarrow> j = i \<or> signaled qs j"
    and "signaled (clear_sig qs i) j \<longleftrightarrow> j \<noteq> i \<and> signaled qs j"
proof -
  have "i div 64 < length qs" using assms(1) by (simp add: less_mult_imp_div_less mult.commute)
  moreover have "j = i \<longleftrightarrow> j div 64 = i div 64 \<and> j mod 64 = i mod 64"
    by (metis div_mult_mod_eq)
  moreover have "j mod 64 < LENGTH(64)" by simp
  ultimately show "signaled (set_sig qs i) j \<longleftrightarrow> j = i \<or> signaled qs j"
    "signaled (clear_sig qs i) j \<longleftrightarrow> j \<noteq> i \<and> signaled qs j"
    by (auto simp: signaled_def set_sig_def clear_sig_def quad_bit_def nth_list_update bit_simps)
qed

text \<open>A descriptor whose bitmap holds the quads \<open>qs\<close>; bit indices fit in 32 bits.\<close>

definition smap_at :: "map_heap \<Rightarrow> sync_map_desc \<Rightarrow> nat \<Rightarrow> u64 list \<Rightarrow> bool" where
  "smap_at h s p qs \<longleftrightarrow> smap_map s = Some p \<and> h p = Some qs \<and> length qs = unat (smap_size s) \<and>
     64 * length qs \<le> 2 ^ 32"

lemma load_quad_at: "smap_at h s p qs \<Longrightarrow> q < length qs \<Longrightarrow> load_quad h (smap_map s) q = Inr (qs ! q)"
  by (simp add: load_quad_def smap_at_def)

lemma update_quad_at:
  "smap_at h s p qs \<Longrightarrow> q < length qs \<Longrightarrow> update_quad h (smap_map s) q f = Inr (h(p \<mapsto> qs[q := f (qs ! q)]))"
  by (simp add: update_quad_def smap_at_def)

lemma smap_at_update: "smap_at h s p qs \<Longrightarrow> length qs' = length qs \<Longrightarrow> smap_at (h(p \<mapsto> qs')) s p qs'"
  by (simp add: smap_at_def)

lemma ind_unat [simp]:
  "unat (sync_map_ind2bit i) = unat i mod 64" "unat (sync_map_ind2quad i) = unat i div 64"
  "unat (sync_map_ind2byte i) = unat i div 8"
  by (simp_all add: sync_map_ind2bit_def sync_map_ind2quad_def sync_map_ind2byte_def unat_mod unat_div)

lemma index_in: "(i :: nat) < 64 * n \<Longrightarrow> i div 64 < n"
  by (simp add: less_mult_imp_div_less mult.commute)

lemma sync_map_signals:
  assumes "smap_at h s p qs" "unat i < 64 * length qs"
  shows "sync_map_sigon s i h = Inr (h(p \<mapsto> set_sig qs (unat i)))"
    and "sync_map_sigoff s i h = Inr (h(p \<mapsto> clear_sig qs (unat i)))"
    and "\<exists>v. sync_map_issig s i h = Inr v \<and> (v \<noteq> 0 \<longleftrightarrow> signaled qs (unat i))"
proof -
  note q = index_in [OF assms(2)]
  show "sync_map_sigon s i h = Inr (h(p \<mapsto> set_sig qs (unat i)))"
    "sync_map_sigoff s i h = Inr (h(p \<mapsto> clear_sig qs (unat i)))"
    using update_quad_at [OF assms(1) q]
    by (simp_all add: sync_map_sigon_def sync_map_sigoff_def fetch_or_def fetch_and_def set_sig_def clear_sig_def)
  have "(v AND quad_bit k \<noteq> 0) \<longleftrightarrow> bit v k" for v k
    using and_BIT_eq_0_iff [of v k] by (simp add: quad_bit_def BIT_def)
  then show "\<exists>v. sync_map_issig s i h = Inr v \<and> (v \<noteq> 0 \<longleftrightarrow> signaled qs (unat i))"
    using load_quad_at [OF assms(1) q] by (simp add: sync_map_issig_def signaled_def)
qed

section \<open>What the searches find\<close>

lemma find_append: "find P (xs @ ys) = (case find P xs of None \<Rightarrow> find P ys | Some x \<Rightarrow> Some x)"
  by (induction xs) auto

lemma find_cong_set: "(\<And>x. x \<in> set xs \<Longrightarrow> P x = Q x) \<Longrightarrow> find P xs = find Q xs"
  by (induction xs) auto

text \<open>Searching the indices of one quad from bit \<open>b\<close> on is a scan of the masked quad.\<close>

lemma find_quad:
  fixes v :: u64
  assumes "b < 64" "\<And>k. k < 64 \<Longrightarrow> P (64 * q + k) \<longleftrightarrow> bit v k"
  shows "find P [64 * q + b..<64 * q + 64] =
    (if v AND push_bit b (-1) = 0 then None else Some (64 * q + ctz (v AND push_bit b (-1))))"
proof -
  let ?w = "v AND push_bit b (-1) :: u64"
  have bit_w: "bit ?w k \<longleftrightarrow> bit v k \<and> b \<le> k \<and> k < 64" for k
    by (auto simp: bit_simps dest: bit_imp_le_length)
  show ?thesis
  proof (cases "?w = 0")
    case True
    have "\<not> P i" if "i \<in> set [64 * q + b..<64 * q + 64]" for i
    proof -
      define k where "k = i - 64 * q"
      from that have k: "i = 64 * q + k" "b \<le> k" "k < 64" by (auto simp: k_def)
      have "\<not> bit ?w k" unfolding True by simp
      with k bit_w [of k] assms(2) [of k] show ?thesis by metis
    qed
    then have "find P [64 * q + b..<64 * q + 64] = None" by (auto simp: find_None_iff)
    with True show ?thesis by simp
  next
    case False
    let ?i = "ctz ?w"
    have i: "bit v ?i" "b \<le> ?i" "?i < 64" using bit_ctz [OF False] unfolding bit_w by simp_all
    have below: "\<not> P (64 * q + k)" if "b \<le> k" "k < ?i" for k
    proof -
      have "k < 64" using that i(3) by simp
      with not_bit_below_ctz [OF False that(2)] that(1) bit_w [of k] assms(2) [of k] show ?thesis by blast
    qed
    have "find P [64 * q + b..<64 * q + 64] = Some (64 * q + ?i)"
      unfolding find_upt_Some
    proof (intro conjI allI impI)
      show "P (64 * q + ?i)" using assms(2) i by simp
      fix j assume j: "64 * q + b \<le> j \<and> j < 64 * q + ?i"
      then have "j = 64 * q + (j - 64 * q)" "b \<le> j - 64 * q" "j - 64 * q < ?i" by auto
      with below show "\<not> P j" by metis
    qed (use i in auto)
    with False show ?thesis by simp
  qed
qed

lemma signaled_quad: "k < 64 \<Longrightarrow> signaled qs (64 * q + k) \<longleftrightarrow> bit (qs ! q) k"
  by (simp add: signaled_def)

lemma not_signaled_quad: "k < 64 \<Longrightarrow> \<not> signaled qs (64 * q + k) \<longleftrightarrow> bit (NOT (qs ! q)) k"
  by (simp add: signaled_quad bit_not_iff)

lemma push_minus_one_0 [simp]: "push_bit 0 (-1) = (-1 :: u64)" by simp

lemma ctz_less_64: "w \<noteq> 0 \<Longrightarrow> ctz (w :: u64) < 64"
  using ctz_less [of w] by simp

text \<open>The outcome of a search that found the index \<open>r\<close>.\<close>

definition claimed :: "(u64 list \<Rightarrow> nat \<Rightarrow> u64 list) \<Rightarrow> u32 \<Rightarrow> u32 option \<Rightarrow> map_heap \<Rightarrow> nat \<Rightarrow> u64 list
    \<Rightarrow> nat option \<Rightarrow> search_result" where
  "claimed upd to_bit index h p qs r =
    (case r of
       Some i \<Rightarrow> if i < unat to_bit then (True, map_option (\<lambda>_. of_nat i) index, h(p \<mapsto> upd qs i))
                 else (False, index, h)
     | None \<Rightarrow> (False, index, h))"

lemma desi_unat:
  assumes "64 * n \<le> 2 ^ 32" "q < n" "k < 64"
  shows "unat (of_nat k + 64 * of_nat q :: u32) = 64 * q + k"
proof -
  have "of_nat k + 64 * of_nat q = (of_nat (64 * q + k) :: u32)" by simp
  moreover have "64 * q + k < 64 * n" using assms(2,3) by simp
  then have "64 * q + k < 2 ^ 32" using assms(1) by linarith
  ultimately show ?thesis by (simp only: unat_of_nat) simp
qed

lemma claim_at:
  assumes "smap_at h s p qs" "q < length qs" "k < 64"
  shows "sig_claim s to_bit index h q k = Inr (claimed set_sig to_bit index h p qs (Some (64 * q + k)))"
    and "unsig_claim s to_bit index h q k = Inr (claimed clear_sig to_bit index h p qs (Some (64 * q + k)))"
proof -
  have "64 * length qs \<le> 2 ^ 32" using assms(1) by (simp add: smap_at_def)
  note d = desi_unat [OF this assms(2,3)]
  have of: "(of_nat k + 64 * of_nat q :: u32) = of_nat (64 * q + k)" by simp
  have le: "to_bit \<le> of_nat (64 * q + k) \<longleftrightarrow> \<not> 64 * q + k < unat to_bit"
    unfolding of [symmetric] word_le_nat_alt d by auto
  have qk: "(64 * q + k) div 64 = q" "(64 * q + k) mod 64 = k" using assms(3) by simp_all
  show "sig_claim s to_bit index h q k = Inr (claimed set_sig to_bit index h p qs (Some (64 * q + k)))"
    using update_quad_at [OF assms(1,2)] unfolding sig_claim_def Let_def of le fetch_or_def
    by (simp add: claimed_def set_sig_def qk assms(3) del: of_nat_add of_nat_mult)
  show "unsig_claim s to_bit index h q k = Inr (claimed clear_sig to_bit index h p qs (Some (64 * q + k)))"
    using update_quad_at [OF assms(1,2)] unfolding unsig_claim_def Let_def of le fetch_and_def
    by (simp add: claimed_def clear_sig_def qk assms(3) del: of_nat_add of_nat_mult)
qed

lemma upt_quads: "k \<le> n \<Longrightarrow> [64 * k..<64 * Suc n] = [64 * k..<64 * n] @ [64 * n..<64 * n + 64]"
  using upt_add_eq_append [of "64 * k" "64 * n" 64] by (simp only: mult_Suc_right add.commute [of 64])

lemma upt_first_quad: "q < n \<Longrightarrow> b \<le> 64 \<Longrightarrow> [64 * q + b..<64 * n] = [64 * q + b..<64 * q + 64] @ [64 * Suc q..<64 * n]"
proof -
  assume "q < n" "b \<le> 64"
  then have "64 * n = (64 * q + 64) + 64 * (n - Suc q)" "64 * Suc q = 64 * q + 64" by auto
  with upt_add_eq_append [of "64 * q + b" "64 * q + 64" "64 * (n - Suc q)"] \<open>b \<le> 64\<close>
  show ?thesis by (simp del: mult_Suc_right)
qed

lemma loop_finds:
  assumes at: "smap_at h s p qs" and "k \<le> length qs"
  shows "sig_loop s to_bit index h [k..<length qs] =
      Inr (claimed set_sig to_bit index h p qs (find (\<lambda>i. \<not> signaled qs i) [64 * k..<64 * length qs])) \<and>
    unsig_loop s to_bit index h [k..<length qs] =
      Inr (claimed clear_sig to_bit index h p qs (find (signaled qs) [64 * k..<64 * length qs]))"
  using assms(2)
proof (induction "length qs - k" arbitrary: k)
  case 0
  then show ?case by (simp add: claimed_def)
next
  case (Suc n)
  then have k: "k < length qs" by simp
  have step: "[k..<length qs] = k # [Suc k..<length qs]"
    "[64 * k..<64 * length qs] = [64 * k + 0..<64 * k + 64] @ [64 * Suc k..<64 * length qs]"
    using k upt_first_quad [of k "length qs" 0] by (simp_all add: upt_conv_Cons)
  note IH = Suc.hyps(1) [of "Suc k"]
  have hyp: "n = length qs - Suc k" "Suc k \<le> length qs" using Suc.hyps(2) k by simp_all
  note free = find_quad [of 0 "\<lambda>i. \<not> signaled qs i" k "NOT (qs ! k)", OF _ not_signaled_quad, simplified]
  note used = find_quad [of 0 "signaled qs" k "qs ! k", OF _ signaled_quad, simplified]
  show ?case
    unfolding step find_append
  proof (rule conjI)
    show "sig_loop s to_bit index h (k # [Suc k..<length qs]) = Inr (claimed set_sig to_bit index h p qs
        (case find (\<lambda>i. \<not> signaled qs i) [64 * k + 0..<64 * k + 64] of
           None \<Rightarrow> find (\<lambda>i. \<not> signaled qs i) [64 * Suc k..<64 * length qs] | Some x \<Rightarrow> Some x))"
      using IH [OF hyp] free load_quad_at [OF at k] claim_at(1) [OF at k ctz_less_64, of "NOT (qs ! k)"]
      by (cases "NOT (qs ! k) = 0") (simp_all del: mult_Suc_right)
    show "unsig_loop s to_bit index h (k # [Suc k..<length qs]) = Inr (claimed clear_sig to_bit index h p qs
        (case find (signaled qs) [64 * k + 0..<64 * k + 64] of
           None \<Rightarrow> find (signaled qs) [64 * Suc k..<64 * length qs] | Some x \<Rightarrow> Some x))"
      using IH [OF hyp] used load_quad_at [OF at k] claim_at(2) [OF at k ctz_less_64, of "qs ! k"]
      by (cases "qs ! k = 0") (simp_all del: mult_Suc_right)
  qed
qed

lemma mask_quad: "b < 64 \<Longrightarrow> (v AND push_bit b (- 1) \<noteq> push_bit b (- 1)) = (NOT v AND push_bit b (- 1 :: u64) \<noteq> 0)"
  by (auto simp: bit_eq_iff bit_simps)

lemma mask_full:
  "(v AND push_bit b (- 1) = push_bit b (- 1 :: u64)) \<longleftrightarrow> (\<forall>k. b \<le> k \<and> k < 64 \<longrightarrow> bit v k)"
  by (auto simp: bit_eq_iff bit_simps)

lemma claimed_alt:
  "claimed upd to_bit index h p qs (find P [a..<n]) =
    (case find P [a..<min (unat to_bit) n] of
       Some i \<Rightarrow> (True, map_option (\<lambda>_. of_nat i) index, h(p \<mapsto> upd qs i))
     | None \<Rightarrow> (False, index, h))"
proof (cases "find P [a..<n]")
  case None
  then have "find P [a..<min (unat to_bit) n] = None" by (auto simp: find_None_iff)
  with None show ?thesis by (simp add: claimed_def)
next
  case (Some i)
  note i = Some [unfolded find_upt_Some]
  show ?thesis
  proof (cases "i < unat to_bit")
    case True
    then have "find P [a..<min (unat to_bit) n] = Some i" unfolding find_upt_Some using i by auto
    with Some True show ?thesis by (simp add: claimed_def)
  next
    case False
    have "find P [a..<min (unat to_bit) n] = None" using i False by (auto simp: find_None_iff)
    with Some False show ?thesis by (simp add: claimed_def)
  qed
qed

lemma from_split:
  fixes i :: u32
  shows "64 * (unat i div 64) + unat i mod 64 = unat i"
  by simp

lemma sig_first_finds:
  assumes at: "smap_at h s p qs"
  shows "sync_map_sig_first from_bit to_bit (Some s) index h =
    Inr (claimed set_sig to_bit index h p qs (find (\<lambda>i. \<not> signaled qs i) [unat from_bit..<64 * length qs]))"
proof -
  define q where "q = unat from_bit div 64"
  define b where "b = unat from_bit mod 64"
  have b: "b < 64" and from_eq: "64 * q + b = unat from_bit" by (simp_all add: q_def b_def)
  have len: "unat (smap_size s) = length qs" using at by (simp add: smap_at_def)
  have le: "smap_size s \<le> sync_map_ind2quad from_bit \<longleftrightarrow> \<not> q < length qs"
    by (simp add: word_le_nat_alt len not_less q_def)
  note ind = ind_unat(1,2) [of from_bit, folded q_def b_def]
  show ?thesis
  proof (cases "q < length qs")
    case False
    then have "find (\<lambda>i. \<not> signaled qs i) [unat from_bit..<64 * length qs] = None"
      unfolding from_eq [symmetric] by (simp add: not_less)
    with False show ?thesis by (simp add: sync_map_sig_first_def le claimed_def)
  next
    case q: True
    have split: "[unat from_bit..<64 * length qs] = [64 * q + b..<64 * q + 64] @ [64 * Suc q..<64 * length qs]"
      using upt_first_quad [OF q, of b] b unfolding from_eq by simp
    have mask: "NOT (v AND m) AND m = NOT v AND m" for v m :: u64
      by (auto simp: bit_eq_iff bit_simps)
    have free: "find (\<lambda>i. \<not> signaled qs i) [64 * q + b..<64 * q + 64] =
        (if NOT (qs ! q) AND push_bit b (- 1) = 0 then None else Some (64 * q + ctz (NOT (qs ! q) AND push_bit b (- 1))))"
      by (rule find_quad [OF b not_signaled_quad])
    note loop = loop_finds [OF at, of "Suc q", THEN conjunct1]
    note claim = claim_at(1) [OF at q ctz_less_64, of "NOT (qs ! q) AND push_bit b (-1)"]
    show ?thesis
      unfolding split find_append free sync_map_sig_first_def option.case le Let_def ind len
        load_quad_at [OF at q] and_then_simps mask mask_quad [OF b]
      using q loop claim
      by (cases "NOT (qs ! q) AND push_bit b (-1) = 0") (simp_all del: mult_Suc_right push_bit_minus_one_eq_not_mask)
  qed
qed

text \<open>
  The search for a signaled bit starts in the next quad when all the bits of the first quad from
  the first index on are signaled.
\<close>

definition unsig_start :: "u64 list \<Rightarrow> nat \<Rightarrow> nat" where
  "unsig_start qs i =
    (if (\<forall>j \<in> set [i..<64 * (i div 64) + 64]. signaled qs j) then 64 * (i div 64) + 64 else i)"

lemma unsig_first_finds:
  assumes at: "smap_at h s p qs"
  shows "sync_map_unsig_first from_bit to_bit (Some s) index h =
    Inr (claimed clear_sig to_bit index h p qs (find (signaled qs) [unsig_start qs (unat from_bit)..<64 * length qs]))"
proof -
  define q where "q = unat from_bit div 64"
  define b where "b = unat from_bit mod 64"
  have b: "b < 64" and from_eq: "64 * q + b = unat from_bit" by (simp_all add: q_def b_def)
  have len: "unat (smap_size s) = length qs" using at by (simp add: smap_at_def)
  have le: "smap_size s \<le> sync_map_ind2quad from_bit \<longleftrightarrow> \<not> q < length qs"
    by (simp add: word_le_nat_alt len not_less q_def)
  note ind = ind_unat(1,2) [of from_bit, folded q_def b_def]
  show ?thesis
  proof (cases "q < length qs")
    case False
    then have "64 * length qs \<le> unsig_start qs (unat from_bit)"
      unfolding from_eq [symmetric] by (auto simp: not_less unsig_start_def)
    then have "find (signaled qs) [unsig_start qs (unat from_bit)..<64 * length qs] = None" by simp
    with False show ?thesis by (simp add: sync_map_unsig_first_def le claimed_def)
  next
    case q: True
    have split: "[unat from_bit..<64 * length qs] = [64 * q + b..<64 * q + 64] @ [64 * Suc q..<64 * length qs]"
      using upt_first_quad [OF q, of b] b unfolding from_eq by simp
    have "(\<forall>j \<in> set [64 * q + b..<64 * q + 64]. signaled qs j) \<longleftrightarrow>
        (\<forall>k. b \<le> k \<and> k < 64 \<longrightarrow> signaled qs (64 * q + k))"
    proof (intro iffI ballI)
      fix j assume j: "\<forall>k. b \<le> k \<and> k < 64 \<longrightarrow> signaled qs (64 * q + k)" "j \<in> set [64 * q + b..<64 * q + 64]"
      from j(2) have "b \<le> j - 64 * q \<and> j - 64 * q < 64" "64 * q + (j - 64 * q) = j" by auto
      with j(1) show "signaled qs j" by metis
    qed auto
    then have start: "unsig_start qs (unat from_bit) =
        (if qs ! q AND push_bit b (-1) = push_bit b (-1) then 64 * Suc q else unat from_bit)"
      unfolding mask_full unsig_start_def q_def [symmetric] from_eq using signaled_quad by auto
    have used: "find (signaled qs) [64 * q + b..<64 * q + 64] =
        (if qs ! q AND push_bit b (- 1) = 0 then None else Some (64 * q + ctz (qs ! q AND push_bit b (- 1))))"
      by (rule find_quad [OF b signaled_quad])
    note loop = loop_finds [OF at, of "Suc q", THEN conjunct2]
    note claim = claim_at(2) [OF at q ctz_less_64, of "qs ! q AND push_bit b (-1)"]
    show ?thesis
    proof (cases "qs ! q AND push_bit b (-1) = push_bit b (-1)")
      case True
      show ?thesis
        unfolding start sync_map_unsig_first_def option.case le Let_def ind len load_quad_at [OF at q] and_then_simps
        using q loop True by (simp del: mult_Suc_right push_bit_minus_one_eq_not_mask)
    next
      case False
      show ?thesis
        unfolding start if_not_P [OF False]
          split find_append used sync_map_unsig_first_def option.case le Let_def ind len
          load_quad_at [OF at q] and_then_simps
        using q loop False claim
        by (cases "qs ! q AND push_bit b (-1) = 0") (simp_all del: mult_Suc_right push_bit_minus_one_eq_not_mask)
    qed
  qed
qed

section \<open>Claiming bits of a range\<close>

text \<open>
  A range of a bitmap hands out its free bits through \<^verbatim>\<open>sync_map_sig_first\<close> and takes them back
  through \<^verbatim>\<open>sync_map_sigoff\<close>.
\<close>

record map_range =
  range_from :: u32
  range_to :: u32
  range_desc :: sync_map_desc
  range_heap :: map_heap

definition range_quads :: "map_range \<Rightarrow> u64 list" where
  "range_quads r = the (range_heap r (the (smap_map (range_desc r))))"

definition range_ok :: "map_range \<Rightarrow> bool" where
  "range_ok r \<longleftrightarrow> smap_at (range_heap r) (range_desc r) (the (smap_map (range_desc r))) (range_quads r)"

definition range_slots :: "map_range \<Rightarrow> nat set" where
  "range_slots r = {unat (range_from r)..<min (unat (range_to r)) (64 * length (range_quads r))}"

definition range_free :: "map_range \<Rightarrow> nat set" where
  "range_free r = {i \<in> range_slots r. \<not> signaled (range_quads r) i}"

definition range_claim :: "map_range \<Rightarrow> (nat \<times> map_range) option" where
  "range_claim r =
    (case sync_map_sig_first (range_from r) (range_to r) (Some (range_desc r)) (Some 0) (range_heap r) of
       Inr (True, Some i, h) \<Rightarrow> Some (unat i, r\<lparr>range_heap := h\<rparr>)
     | _ \<Rightarrow> None)"

definition range_release :: "nat \<Rightarrow> map_range \<Rightarrow> map_range" where
  "range_release i r =
    (case sync_map_sigoff (range_desc r) (of_nat i) (range_heap r) of
       Inr h \<Rightarrow> r\<lparr>range_heap := h\<rparr> | Inl _ \<Rightarrow> r)"

lemma range_updated:
  assumes "range_ok r" "length qs = length (range_quads r)"
  defines "r' \<equiv> r\<lparr>range_heap := (range_heap r)(the (smap_map (range_desc r)) \<mapsto> qs)\<rparr>"
  shows "range_ok r'" "range_quads r' = qs" "range_slots r' = range_slots r"
  using assms by (simp_all add: range_ok_def range_quads_def range_slots_def smap_at_update)

lemma range_claim_find:
  assumes "range_ok r"
  shows "range_claim r =
    map_option (\<lambda>i. (i, r\<lparr>range_heap := (range_heap r)(the (smap_map (range_desc r)) \<mapsto> set_sig (range_quads r) i)\<rparr>))
      (find (\<lambda>i. \<not> signaled (range_quads r) i)
         [unat (range_from r)..<min (unat (range_to r)) (64 * length (range_quads r))])"
proof -
  have "64 * length (range_quads r) \<le> 2 ^ 32" using assms by (simp add: range_ok_def smap_at_def)
  then have un: "unat (of_nat i :: u32) = i" if "i < 64 * length (range_quads r)" for i
    using that by (simp add: unat_of_nat_small)
  note sig = sig_first_finds [OF assms [unfolded range_ok_def], of "range_from r" "range_to r" "Some 0", unfolded claimed_alt]
  show ?thesis
  proof (cases "find (\<lambda>i. \<not> signaled (range_quads r) i)
      [unat (range_from r)..<min (unat (range_to r)) (64 * length (range_quads r))]")
    case None
    then show ?thesis unfolding range_claim_def sig by simp
  next
    case (Some i)
    then have "i < 64 * length (range_quads r)" by (simp add: find_upt_Some)
    then show ?thesis unfolding range_claim_def sig Some using un by simp
  qed
qed

interpretation map_slots: slot_pool_release range_ok range_free range_claim range_slots range_release
proof
  fix r assume ok: "range_ok r"
  show "finite (range_free r)" by (simp add: range_free_def range_slots_def)
  show "range_free r \<subseteq> range_slots r" by (auto simp: range_free_def)
  show "range_free r = {}" if "range_claim r = None"
    using that unfolding range_claim_find [OF ok] by (auto simp: find_None_iff range_free_def range_slots_def)
  { fix i r' assume "range_claim r = Some (i, r')"
    then have i: "i \<in> range_free r" and
      r': "r' = r\<lparr>range_heap := (range_heap r)(the (smap_map (range_desc r)) \<mapsto> set_sig (range_quads r) i)\<rparr>"
      unfolding range_claim_find [OF ok] by (auto simp: find_upt_Some range_free_def range_slots_def)
    note upd = range_updated [OF ok, of "set_sig (range_quads r) i", folded r', simplified]
    show "range_slots r' = range_slots r" by (rule upd)
    moreover have "range_free r' = range_free r - {i}"
      using i upd(2,3) by (auto simp: range_free_def signaled_set_sig range_slots_def)
    ultimately show "range_ok r' \<and> i \<in> range_free r \<and> range_free r' = range_free r - {i}"
      using upd(1) i by simp }
  { fix i assume i: "i \<in> range_slots r"
    then have lt: "i < 64 * length (range_quads r)" by (simp add: range_slots_def)
    have "64 * length (range_quads r) \<le> 2 ^ 32" using ok by (simp add: range_ok_def smap_at_def)
    with lt have un: "unat (of_nat i :: u32) = i" by (simp add: unat_of_nat_small)
    define r' where "r' = r\<lparr>range_heap := (range_heap r)(the (smap_map (range_desc r)) \<mapsto> clear_sig (range_quads r) i)\<rparr>"
    have rel: "range_release i r = r'"
      using sync_map_signals(2) [OF ok [unfolded range_ok_def], of "of_nat i"] lt
      by (simp add: range_release_def un r'_def)
    note upd = range_updated [OF ok, of "clear_sig (range_quads r) i", folded r'_def, simplified]
    have "range_free r' = insert i (range_free r)"
      using i lt upd(2,3) by (auto simp: range_free_def signaled_set_sig range_slots_def)
    then show "range_ok (range_release i r) \<and> range_free (range_release i r) = insert i (range_free r) \<and>
      range_slots (range_release i r) = range_slots r"
      unfolding rel using upd by simp }
qed

section \<open>Properties\<close>

text \<open>C10: \<^verbatim>\<open>sync_map_sig_first\<close> signals the first index of the range that is not signaled, stores it
  and returns true; when every index of the range is signaled it returns false and changes
  nothing. The range is cut off at the end of the bitmap.\<close>

theorem sync_map_sig_first_spec:
  assumes "smap_at h s p qs"
  shows "sync_map_sig_first from_bit to_bit (Some s) index h =
    Inr (case find (\<lambda>i. \<not> signaled qs i) [unat from_bit..<min (unat to_bit) (64 * length qs)] of
           Some i \<Rightarrow> (True, map_option (\<lambda>_. of_nat i) index, h(p \<mapsto> set_sig qs i))
         | None \<Rightarrow> (False, index, h))"
  unfolding sig_first_finds [OF assms] claimed_alt ..

definition wit_smap :: sync_map_desc where "wit_smap = \<lparr>smap_map = Some 7, smap_size = 2\<rparr>"
definition wit_mheap :: "u64 list \<Rightarrow> map_heap" where "wit_mheap qs = (\<lambda>p. if p = 7 then Some qs else None)"

lemma wit_smap_at: "length qs = 2 \<Longrightarrow> smap_at (wit_mheap qs) wit_smap 7 qs"
  by (simp add: smap_at_def wit_smap_def wit_mheap_def)

lemma sync_map_sig_first_spec_witness:
  "sync_map_sig_first 62 128 (Some wit_smap) (Some 0) (wit_mheap [0xC000000000000000, 5]) =
    Inr (True, Some 65, (wit_mheap [0xC000000000000000, 5])(7 \<mapsto> [0xC000000000000000, 7]))"
proof -
  have upt: "[62..<128::nat] = 62 # 63 # 64 # 65 # [66..<128]" by (simp add: upt_conv_Cons)
  have bits: "signaled [0xC000000000000000, 5] 62" "signaled [0xC000000000000000, 5] 63"
    "signaled [0xC000000000000000, 5] 64" "\<not> signaled [0xC000000000000000, 5] 65"
    unfolding signaled_def by code_simp+
  have upd: "set_sig [0xC000000000000000, 5] 65 = [0xC000000000000000, 7]" by code_simp
  show ?thesis
    using sync_map_sig_first_spec [OF wit_smap_at, of "[0xC000000000000000, 5]" 62 128 "Some 0"]
    by (simp add: upt bits upd)
qed

text \<open>C36: \<^verbatim>\<open>sync_map_unsig_first\<close> clears the first signaled index of the range, but it looks at the
  first quad only when some of its bits from the first index on is clear: otherwise the search
  starts in the next quad.\<close>

theorem sync_map_unsig_first_spec:
  assumes "smap_at h s p qs"
  shows "sync_map_unsig_first from_bit to_bit (Some s) index h =
    Inr (case find (signaled qs) [unsig_start qs (unat from_bit)..<min (unat to_bit) (64 * length qs)] of
           Some i \<Rightarrow> (True, map_option (\<lambda>_. of_nat i) index, h(p \<mapsto> clear_sig qs i))
         | None \<Rightarrow> (False, index, h))"
  unfolding unsig_first_finds [OF assms] claimed_alt ..

lemma sync_map_unsig_first_spec_witness:
  "sync_map_unsig_first 62 128 (Some wit_smap) (Some 0) (wit_mheap [0x8000000000000001, 5]) =
    Inr (True, Some 63, (wit_mheap [0x8000000000000001, 5])(7 \<mapsto> [1, 5]))"
proof -
  have upt: "[62..<128::nat] = 62 # 63 # [64..<128]" by (simp add: upt_conv_Cons)
  have bits: "\<not> signaled [0x8000000000000001, 5] 62" "signaled [0x8000000000000001, 5] 63"
    unfolding signaled_def by code_simp+
  have start: "unsig_start [0x8000000000000001, 5] 62 = 62"
    using bits(1) by (auto simp: unsig_start_def)
  have upd: "clear_sig [0x8000000000000001, 5] 63 = [1, 5]" by code_simp
  show ?thesis
    using sync_map_unsig_first_spec [OF wit_smap_at, of "[0x8000000000000001, 5]" 62 128 "Some 0"]
    by (simp add: upt bits upd start)
qed

text \<open>A range that ends within its first quad and whose bits are signaled up to the end of that
  quad is never cleared: \<^verbatim>\<open>sync_map_unsig_first\<close> returns false although every index of the range is
  signaled.\<close>

theorem sync_map_unsig_first_skips_full_quad:
  assumes "smap_at h s p qs"
    and "\<forall>j. unat from_bit \<le> j \<and> j < 64 * (unat from_bit div 64) + 64 \<longrightarrow> signaled qs j"
    and "unat to_bit \<le> 64 * (unat from_bit div 64) + 64"
  shows "sync_map_unsig_first from_bit to_bit (Some s) index h = Inr (False, index, h)"
proof -
  have "unsig_start qs (unat from_bit) = 64 * (unat from_bit div 64) + 64"
    using assms(2) by (simp add: unsig_start_def)
  with assms(3) have "find (signaled qs) [unsig_start qs (unat from_bit)..<min (unat to_bit) (64 * length qs)] = None"
    by simp
  then show ?thesis unfolding unsig_first_finds [OF assms(1)] claimed_alt by simp
qed

lemma sync_map_unsig_first_skips_full_quad_witness:
  "sync_map_unsig_first 58 64 (Some wit_smap) (Some 0) (wit_mheap [0xFC00000000000000, 0]) =
    Inr (False, Some 0, wit_mheap [0xFC00000000000000, 0])"
proof -
  have "list_all (signaled [0xFC00000000000000, 0]) [58..<64]"
    unfolding signaled_def by code_simp
  then have "\<forall>j. 58 \<le> j \<and> j < 64 \<longrightarrow> signaled [0xFC00000000000000, 0] j"
    unfolding list_all_iff by (metis atLeastLessThan_iff set_upt)
  then show ?thesis
    by (intro sync_map_unsig_first_skips_full_quad [OF wit_smap_at]) simp_all
qed

text \<open>\<open>n\<close> calls of \<^verbatim>\<open>sync_map_sig_first\<close> on a range return pairwise distinct indices of the range
  that were free, exactly as many as there are free ones when \<open>n\<close> is larger, and switching the
  returned indices off again in any order restores the free set.\<close>

theorem sync_map_claims_distinct:
  assumes "range_ok r" "claims range_claim n r = (ks, r')"
  shows "distinct ks \<and> set ks \<subseteq> range_free r \<and> length ks = min n (card (range_free r)) \<and>
    range_free r' = range_free r - set ks \<and>
    (\<forall>js. set js = set ks \<longrightarrow> range_free (fold range_release js r') = range_free r)"
  using map_slots.claims_distinct [OF assms] map_slots.claims_length [OF assms]
    map_slots.claims_release_all [OF assms] by blast

definition wit_range :: map_range where
  "wit_range = \<lparr>range_from = 0, range_to = 4, range_desc = wit_smap, range_heap = wit_mheap [5, 0]\<rparr>"

lemma wit_range_ok: "range_ok wit_range"
  by (simp add: range_ok_def wit_range_def range_quads_def smap_at_def wit_smap_def wit_mheap_def)

lemma sync_map_claims_distinct_witness:
  "\<exists>r'. claims range_claim 3 wit_range = ([1, 3], r') \<and> range_free r' = range_free wit_range - {1, 3}"
proof -
  have ks: "fst (claims range_claim 3 wit_range) = [1, 3]" by code_simp
  obtain r' where r': "claims range_claim 3 wit_range = ([1, 3], r')"
    using ks by (cases "claims range_claim 3 wit_range") simp
  with sync_map_claims_distinct [OF wit_range_ok r'] show ?thesis by auto
qed

text \<open>A reference built by \<^verbatim>\<open>sync_map_ref_init\<close> for index \<open>i\<close> acts on the bitmap as the operations
  of the descriptor do at index \<open>i\<close>; it refuses a missing map or buffer.\<close>

theorem sync_map_ref_equiv:
  "sync_map_ref_init None i buf = (AX_INV_ARG, buf) \<and>
   sync_map_ref_init (Some s) i None = (AX_INV_BUF, None) \<and>
   (\<exists>r. sync_map_ref_init (Some s) i (Some old) = (AX_SUCC, Some r) \<and>
     sync_map_ref_sigon r h = sync_map_sigon s i h \<and>
     sync_map_ref_sigoff r h = sync_map_sigoff s i h \<and>
     sync_map_ref_issig r h = sync_map_issig s i h)"
  by (simp add: sync_map_ref_init_def sync_map_ref_sigon_def sync_map_ref_sigoff_def
    sync_map_ref_issig_def sync_map_sigon_def sync_map_sigoff_def sync_map_issig_def)

text \<open>A bitmap created by \<^verbatim>\<open>sync_map_init\<close> holds what its memory held before, and its
  descriptor counts quads; sizes that are no multiple of 64 and a missing buffer are refused.
  After \<^verbatim>\<open>sync_map_disp\<close> the memory is gone and every access through the descriptor faults.\<close>

theorem sync_map_lifecycle:
  assumes "length mem = unat sz div 64" "unat sz mod 64 = 0"
  shows "sync_map_init sz None mp mem h = (AX_INV_BUF, None, h) \<and>
    sync_map_init (sz + 1) buf mp mem h = (AX_INV_ARG, buf, h) \<and>
    (\<exists>s. sync_map_init sz (Some old) (Some p) mem h = (AX_SUCC, Some s, h(p \<mapsto> mem)) \<and>
         smap_at (h(p \<mapsto> mem)) s p mem \<and>
         sync_map_disp (Some s) (h(p \<mapsto> mem)) = (Some sync_map_desc_zero, h(p := None)) \<and>
         sync_map_sigon sync_map_desc_zero i (h(p := None)) = Inl Null_Deref)"
proof -
  have m: "w mod 64 = 0 \<longleftrightarrow> unat w mod 64 = 0" for w :: u32
    by (simp add: word_eq_iff_unsigned unat_mod flip: unat_eq_0)
  have "unat sz \<noteq> 2 ^ 32 - 1" using assms(2) by auto
  then have "unat (sz + 1) = unat sz + 1"
    using unsigned_less [of sz, where 'a = nat] by (simp add: unat_word_ariths)
  then have "unat (sz + 1) mod 64 \<noteq> 0" using assms(2) by presburger
  moreover have "64 * (unat sz div 64) \<le> 2 ^ 32"
    using unsigned_less [of sz, where 'a = nat] by simp
  ultimately show ?thesis
    using assms by (simp add: sync_map_init_def m smap_at_def unat_div sync_map_disp_def sync_map_sigon_def
      fetch_or_def update_quad_def sync_map_desc_zero_def)
qed

lemma sync_map_lifecycle_witness:
  "\<exists>s. sync_map_init 128 (Some sync_map_desc_zero) (Some 7) [5, 6] (wit_mheap []) =
      (AX_SUCC, Some s, (wit_mheap [])(7 \<mapsto> [5, 6])) \<and> smap_at ((wit_mheap [])(7 \<mapsto> [5, 6])) s 7 [5, 6]"
proof -
  have "length [5, 6 :: u64] = unat (128 :: u32) div 64" "unat (128 :: u32) mod 64 = 0" by simp_all
  from sync_map_lifecycle [OF this, of None "wit_mheap []" None sync_map_desc_zero 7 0] show ?thesis by blast
qed

end
