(* ===== verification/Sync_Race.thy ===== *)
theory Sync_Race
  imports Sync_Map
begin

text \<open>
  \<^verbatim>\<open>sync_map_sig_first\<close> under concurrency. The function loads a quad, picks a clear bit of the
  loaded value and sets that bit with a separate atomic fetch-or; between the two other threads
  may run. \<open>sig_step\<close> cuts the function at its atomic accesses, \<open>race_step\<close> interleaves the
  steps of any number of calls on one bitmap, and \<open>race_exec\<close> runs a given schedule of them. In every
  schedule a call is done after one access more than the bitmap has quads, and alone it computes the function of
  \<open>Sync_Map\<close>; interleaved calls stay inside their range and only claim bits that were clear at
  the start, but two calls may claim the same bit.
\<close>

section \<open>The atomic steps of a call\<close>

text \<open>
  A call is about to load its first quad, about to load quad \<open>q\<close> of the loop, about to set bit
  \<open>k\<close> of quad \<open>q\<close>, or it has returned.
\<close>

datatype sig_pc = Sig_First | Sig_Next nat | Sig_Claim nat nat | Sig_Done bool "u32 option"

record sig_call =
  call_from :: u32
  call_to :: u32
  call_desc :: sync_map_desc

definition sig_pick :: "sig_call \<Rightarrow> nat \<Rightarrow> nat \<Rightarrow> sig_pc" where
  "sig_pick c q k = (if call_to c \<le> of_nat k + 64 * of_nat q then Sig_Done False None else Sig_Claim q k)"

definition sig_mask :: "sig_call \<Rightarrow> u64" where
  "sig_mask c = push_bit (unat (sync_map_ind2bit (call_from c))) (- 1)"

fun sig_step :: "sig_call \<Rightarrow> sig_pc \<Rightarrow> map_heap \<Rightarrow> (sig_pc \<times> map_heap) res" where
  "sig_step c Sig_First h =
    (let q = sync_map_ind2quad (call_from c)
     in if smap_size (call_desc c) \<le> q then Inr (Sig_Done False None, h)
        else and_then (load_quad h (smap_map (call_desc c)) (unat q)) (\<lambda>v.
          Inr (if v AND sig_mask c \<noteq> sig_mask c
               then sig_pick c (unat q) (ctz (NOT (v AND sig_mask c) AND sig_mask c))
               else Sig_Next (Suc (unat q)), h)))"
| "sig_step c (Sig_Next q) h =
    (if q < unat (smap_size (call_desc c))
     then and_then (load_quad h (smap_map (call_desc c)) q) (\<lambda>v.
          Inr (if NOT v \<noteq> 0 then sig_pick c q (ctz (NOT v)) else Sig_Next (Suc q), h))
     else Inr (Sig_Done False None, h))"
| "sig_step c (Sig_Claim q k) h =
    and_then (fetch_or h (smap_map (call_desc c)) q (quad_bit k)) (\<lambda>h'.
      Inr (Sig_Done True (Some (of_nat k + 64 * of_nat q)), h'))"
| "sig_step c (Sig_Done b i) h = Inr (Sig_Done b i, h)"

text \<open>A call that runs alone, at most \<open>n\<close> steps.\<close>

fun sig_run :: "nat \<Rightarrow> sig_call \<Rightarrow> sig_pc \<Rightarrow> map_heap \<Rightarrow> (sig_pc \<times> map_heap) res" where
  "sig_run 0 c pc h = Inr (pc, h)"
| "sig_run (Suc n) c pc h = and_then (sig_step c pc h) (\<lambda>(pc', h'). sig_run n c pc' h')"

lemma sig_run_done [simp]: "sig_run n c (Sig_Done b i) h = Inr (Sig_Done b i, h)"
  by (induction n) simp_all

text \<open>The result of the function as the last state of a call.\<close>

definition sig_result :: "search_result \<Rightarrow> sig_pc \<times> map_heap" where
  "sig_result r = (case r of (b, i, h) \<Rightarrow> (Sig_Done b (if b then i else None), h))"

lemma sig_pick_run:
  "sig_run (Suc n) c (sig_pick c q k) h =
    and_then (sig_claim (call_desc c) (call_to c) (Some x) h q k) (\<lambda>r. Inr (sig_result r))"
proof -
  consider (out) "call_to c \<le> of_nat k + 64 * of_nat q" | (fault) e where
      "\<not> call_to c \<le> of_nat k + 64 * of_nat q" "fetch_or h (smap_map (call_desc c)) q (quad_bit k) = Inl e"
    | (claim) h' where
      "\<not> call_to c \<le> of_nat k + 64 * of_nat q" "fetch_or h (smap_map (call_desc c)) q (quad_bit k) = Inr h'"
    by (cases "fetch_or h (smap_map (call_desc c)) q (quad_bit k)") auto
  then show ?thesis by cases (simp_all add: sig_pick_def sig_claim_def sig_result_def)
qed

lemma sig_next_run:
  assumes "unat (smap_size (call_desc c)) - q < n"
  shows "sig_run (Suc n) c (Sig_Next q) h =
    and_then (sig_loop (call_desc c) (call_to c) (Some x) h [q..<unat (smap_size (call_desc c))]) (\<lambda>r. Inr (sig_result r))"
  using assms
proof (induction n arbitrary: q)
  case (Suc n)
  show ?case
  proof (cases "q < unat (smap_size (call_desc c))")
    case True
    then have upt: "[q..<unat (smap_size (call_desc c))] = q # [Suc q..<unat (smap_size (call_desc c))]"
      by (simp add: upt_conv_Cons)
    show ?thesis
    proof (cases "load_quad h (smap_map (call_desc c)) q")
      case (Inr v)
      have "n \<noteq> 0 \<or> unat (smap_size (call_desc c)) - Suc q < n" using Suc.prems True by auto
      moreover have "unat (smap_size (call_desc c)) - Suc q < n" using Suc.prems True by auto
      ultimately show ?thesis
        using Inr True Suc.IH [of "Suc q"] sig_pick_run [of n c q "ctz (NOT v)" h x]
        by (simp add: upt del: sig_run.simps(2)) (simp add: sig_run.simps(2) [of "Suc n"])
    qed (simp add: upt True)
  qed (simp add: sig_result_def)
qed simp

text \<open>
  A call running alone for as many steps as the bitmap has quads, and three more, returns what
  the function computes.
\<close>

lemma sig_run_alone:
  assumes "unat (smap_size (call_desc c)) + 3 \<le> n"
  shows "sig_run n c Sig_First h =
    and_then (sync_map_sig_first (call_from c) (call_to c) (Some (call_desc c)) (Some x) h) (\<lambda>r. Inr (sig_result r))"
proof -
  obtain m where n: "n = Suc (Suc m)" "unat (smap_size (call_desc c)) < m"
    using assms by (cases n; cases "n - 1") auto
  let ?q = "unat (sync_map_ind2quad (call_from c))"
  show ?thesis
  proof (cases "smap_size (call_desc c) \<le> sync_map_ind2quad (call_from c)")
    case True
    then show ?thesis by (simp add: n sync_map_sig_first_def sig_result_def)
  next
    case False
    show ?thesis
    proof (cases "load_quad h (smap_map (call_desc c)) ?q")
      case (Inr v)
      have "unat (smap_size (call_desc c)) - Suc ?q < m" using n(2) by simp
      note next_run = sig_next_run [OF this]
      show ?thesis
        unfolding n(1) sig_run.simps(2) [of "Suc m"]
        using False Inr next_run [of h x] sig_pick_run [of m c ?q _ h x]
        by (simp add: sync_map_sig_first_def Let_def sig_mask_def del: sig_run.simps ind_unat)
    qed (simp add: n sync_map_sig_first_def False del: ind_unat)
  qed
qed

section \<open>Interleaved calls\<close>

record race =
  race_pc :: "nat \<Rightarrow> sig_pc"
  race_heap :: map_heap

inductive race_step :: "(nat \<Rightarrow> sig_call) \<Rightarrow> race \<Rightarrow> race \<Rightarrow> bool" for calls where
  move: "sig_step (calls i) (race_pc s i) (race_heap s) = Inr (pc', h') \<Longrightarrow>
    race_step calls s (s\<lparr>race_pc := (race_pc s)(i := pc'), race_heap := h'\<rparr>)"

inductive race_reach :: "(nat \<Rightarrow> sig_call) \<Rightarrow> map_heap \<Rightarrow> race \<Rightarrow> bool" for calls h0 where
  start: "race_reach calls h0 \<lparr>race_pc = (\<lambda>_. Sig_First), race_heap = h0\<rparr>"
| step: "race_reach calls h0 s \<Longrightarrow> race_step calls s t \<Longrightarrow> race_reach calls h0 t"

inductive_cases race_stepE: "race_step calls s t"

text \<open>The same steps as a function: a schedule names the call that moves at each point.\<close>

definition race_start :: "map_heap \<Rightarrow> race" where
  "race_start h = \<lparr>race_pc = (\<lambda>_. Sig_First), race_heap = h\<rparr>"

definition race_move :: "(nat \<Rightarrow> sig_call) \<Rightarrow> nat \<Rightarrow> race \<Rightarrow> race res" where
  "race_move calls i s =
    and_then (sig_step (calls i) (race_pc s i) (race_heap s)) (\<lambda>(pc', h').
      Inr (s\<lparr>race_pc := (race_pc s)(i := pc'), race_heap := h'\<rparr>))"

fun race_exec :: "(nat \<Rightarrow> sig_call) \<Rightarrow> nat list \<Rightarrow> race \<Rightarrow> race res" where
  "race_exec calls [] s = Inr s"
| "race_exec calls (i # is) s = and_then (race_move calls i s) (race_exec calls is)"

lemma race_move_step: "race_move calls i s = Inr t \<Longrightarrow> race_step calls s t"
  by (auto simp: race_move_def intro: race_step.move)

lemma race_exec_reach:
  "race_reach calls h0 s \<Longrightarrow> race_exec calls is s = Inr t \<Longrightarrow> race_reach calls h0 t"
proof (induction "is" arbitrary: s)
  case (Cons i "is")
  from Cons.prems(2) obtain s' where "race_move calls i s = Inr s'" "race_exec calls is s' = Inr t"
    by auto
  with Cons show ?case using race_reach.step race_move_step by blast
qed simp

text \<open>
  What a call knows about the bitmap \<open>qs\<close> when the bitmap was \<open>qs0\<close> at the start and bits are only
  set.
\<close>

fun pc_ok :: "u64 list \<Rightarrow> u64 list \<Rightarrow> sig_call \<Rightarrow> sig_pc \<Rightarrow> bool" where
  "pc_ok qs0 qs c Sig_First \<longleftrightarrow> True"
| "pc_ok qs0 qs c (Sig_Next q) \<longleftrightarrow> unat (call_from c) \<le> 64 * q \<and>
     (\<forall>j. unat (call_from c) \<le> j \<and> j < 64 * q \<longrightarrow> j < 64 * length qs \<longrightarrow> signaled qs j)"
| "pc_ok qs0 qs c (Sig_Claim q k) \<longleftrightarrow> q < length qs \<and> k < 64 \<and> unat (call_from c) \<le> 64 * q + k \<and>
     64 * q + k < unat (call_to c) \<and> \<not> signaled qs0 (64 * q + k)"
| "pc_ok qs0 qs c (Sig_Done False i) \<longleftrightarrow>
     (\<forall>j. unat (call_from c) \<le> j \<and> j < unat (call_to c) \<longrightarrow> j < 64 * length qs \<longrightarrow> signaled qs j)"
| "pc_ok qs0 qs c (Sig_Done True None) \<longleftrightarrow> False"
| "pc_ok qs0 qs c (Sig_Done True (Some i)) \<longleftrightarrow> unat (call_from c) \<le> unat i \<and> unat i < unat (call_to c) \<and>
     unat i < 64 * length qs \<and> \<not> signaled qs0 (unat i) \<and> signaled qs (unat i)"

definition only_set :: "u64 list \<Rightarrow> u64 list \<Rightarrow> bool" where
  "only_set qs qs' \<longleftrightarrow> length qs' = length qs \<and> (\<forall>j < 64 * length qs. signaled qs j \<longrightarrow> signaled qs' j)"

lemma only_set_refl [simp]: "only_set qs qs"
  by (simp add: only_set_def)

lemma only_set_trans: "only_set a b \<Longrightarrow> only_set b c \<Longrightarrow> only_set a c"
  by (simp add: only_set_def)

lemma only_set_set_sig: "i < 64 * length qs \<Longrightarrow> only_set qs (set_sig qs i)"
  by (simp add: only_set_def signaled_set_sig)

lemma pc_ok_mono: "pc_ok qs0 qs c pc \<Longrightarrow> only_set qs qs' \<Longrightarrow> pc_ok qs0 qs' c pc"
  by (induction qs0 qs c pc rule: pc_ok.induct) (auto simp: only_set_def)

text \<open>What the scan of one quad from bit \<open>b\<close> on learns.\<close>

lemma quad_scan:
  assumes "b < 64" and w: "w = NOT (qs ! q) AND push_bit b (- 1 :: u64)"
  shows "w = 0 \<Longrightarrow> 64 * q + b \<le> j \<Longrightarrow> j < 64 * q + 64 \<Longrightarrow> signaled qs j"
    and "w \<noteq> 0 \<Longrightarrow> b \<le> ctz w \<and> ctz w < 64 \<and> \<not> signaled qs (64 * q + ctz w)"
    and "w \<noteq> 0 \<Longrightarrow> 64 * q + b \<le> j \<Longrightarrow> j < 64 * q + ctz w \<Longrightarrow> signaled qs j"
proof -
  have f: "find (\<lambda>i. \<not> signaled qs i) [64 * q + b..<64 * q + 64] = (if w = 0 then None else Some (64 * q + ctz w))"
    unfolding w by (rule find_quad [OF assms(1) not_signaled_quad])
  show "w = 0 \<Longrightarrow> 64 * q + b \<le> j \<Longrightarrow> j < 64 * q + 64 \<Longrightarrow> signaled qs j"
    using f by (auto simp: find_None_iff)
  show "w \<noteq> 0 \<Longrightarrow> b \<le> ctz w \<and> ctz w < 64 \<and> \<not> signaled qs (64 * q + ctz w)"
    using f by (auto simp: find_upt_Some)
  show "w \<noteq> 0 \<Longrightarrow> 64 * q + b \<le> j \<Longrightarrow> j < 64 * q + ctz w \<Longrightarrow> signaled qs j"
    using f by (auto simp: find_upt_Some)
qed

lemma pick_ok:
  assumes "only_set qs0 qs" "64 * length qs \<le> 2 ^ 32" "q < length qs" "k < 64" "\<not> signaled qs (64 * q + k)"
    and "unat (call_from c) \<le> 64 * q + k"
    and "\<And>j. unat (call_from c) \<le> j \<Longrightarrow> j < 64 * q + k \<Longrightarrow> signaled qs j"
  shows "pc_ok qs0 qs c (sig_pick c q k)"
proof -
  have "call_to c \<le> of_nat k + 64 * of_nat q \<longleftrightarrow> unat (call_to c) \<le> 64 * q + k"
    unfolding word_le_nat_alt desi_unat [OF assms(2,3,4)] ..
  moreover have "64 * q + k < 64 * length qs" using assms(3,4) by simp
  ultimately show ?thesis using assms by (auto simp: sig_pick_def only_set_def)
qed

text \<open>A step of one call keeps its knowledge, sets at most the bit it claims and never faults.\<close>

lemma sig_step_ok:
  assumes at: "smap_at h (call_desc c) p qs" and set0: "only_set qs0 qs" and ok: "pc_ok qs0 qs c pc"
  shows "\<exists>pc' h' qs'. sig_step c pc h = Inr (pc', h') \<and> smap_at h' (call_desc c) p qs' \<and> only_set qs qs' \<and>
    pc_ok qs0 qs' c pc' \<and>
    (qs' = qs \<or> (\<exists>i. pc' = Sig_Done True (Some i) \<and> unat i < 64 * length qs \<and> qs' = set_sig qs (unat i))) \<and>
    (\<forall>b i. pc = Sig_Done b i \<longrightarrow> pc' = pc)"
proof -
  have len: "unat (smap_size (call_desc c)) = length qs" and small: "64 * length qs \<le> 2 ^ 32"
    using at by (simp_all add: smap_at_def)
  show ?thesis
  proof (cases pc)
    case Sig_First
    define q where "q = unat (call_from c) div 64"
    define b where "b = unat (call_from c) mod 64"
    have b: "b < 64" and from_eq: "unat (call_from c) = 64 * q + b" by (simp_all add: q_def b_def)
    show ?thesis
    proof (cases "q < length qs")
      case False
      then have "smap_size (call_desc c) \<le> sync_map_ind2quad (call_from c)"
        by (simp add: word_le_nat_alt len q_def)
      moreover have "64 * length qs \<le> unat (call_from c)" using False from_eq by simp
      ultimately show ?thesis using Sig_First at by auto
    next
      case True
      then have size: "\<not> smap_size (call_desc c) \<le> sync_map_ind2quad (call_from c)"
        by (simp add: word_le_nat_alt len q_def)
      define w where "w = NOT (qs ! q) AND push_bit b (- 1 :: u64)"
      note scan = quad_scan [OF b w_def]
      have mask: "sig_mask c = push_bit b (- 1)" by (simp add: sig_mask_def b_def)
      have "NOT (v AND m) AND m = NOT v AND m" for v m :: u64 by (auto simp: bit_eq_iff bit_simps)
      then have step: "sig_step c pc h = Inr (if w \<noteq> 0 then sig_pick c q (ctz w) else Sig_Next (Suc q), h)"
        using Sig_First size True load_quad_at [OF at True] mask_quad [OF b, of "qs ! q"]
        by (simp add: w_def mask q_def [symmetric] Let_def del: push_bit_minus_one_eq_not_mask)
      have "pc_ok qs0 qs c (if w \<noteq> 0 then sig_pick c q (ctz w) else Sig_Next (Suc q))"
        using scan pick_ok [OF set0 small True, of "ctz w" c] b from_eq by auto
      then show ?thesis using step at Sig_First by auto
    qed
  next
    case (Sig_Next q)
    show ?thesis
    proof (cases "q < length qs")
      case True
      define w where "w = NOT (qs ! q) AND push_bit 0 (- 1 :: u64)"
      have w: "NOT (qs ! q) = w" by (simp add: w_def)
      note scan = quad_scan [of 0, OF _ w_def, simplified]
      have step: "sig_step c pc h = Inr (if w \<noteq> 0 then sig_pick c q (ctz w) else Sig_Next (Suc q), h)"
        using Sig_Next True load_quad_at [OF at True] by (simp add: w len)
      have "signaled qs j" if "unat (call_from c) \<le> j" "j < 64 * q + (if w = 0 then 64 else ctz w)" for j
      proof (cases "j < 64 * q")
        case True
        with that ok Sig_Next \<open>q < length qs\<close> show ?thesis by auto
      next
        case False
        with that scan show ?thesis by (auto split: if_splits)
      qed
      then have "pc_ok qs0 qs c (if w \<noteq> 0 then sig_pick c q (ctz w) else Sig_Next (Suc q))"
        using scan pick_ok [OF set0 small True, of "ctz w" c] ok Sig_Next by auto
      then show ?thesis using step at Sig_Next by auto
    next
      case False
      then show ?thesis using Sig_Next at ok by (auto simp: len)
    qed
  next
    case (Sig_Claim q k)
    then have q: "q < length qs" and k: "k < 64" using ok by auto
    have lt: "64 * q + k < 64 * length qs" using q k by simp
    have qk: "(64 * q + k) div 64 = q" "(64 * q + k) mod 64 = k" using k by simp_all
    note un = desi_unat [OF small q k]
    define i :: u32 where "i = of_nat k + 64 * of_nat q"
    have i: "unat i = 64 * q + k" unfolding i_def by (rule un)
    have "sig_step c pc h = Inr (Sig_Done True (Some i), h(p \<mapsto> set_sig qs (64 * q + k)))"
      using Sig_Claim update_quad_at [OF at q] k by (simp add: fetch_or_def set_sig_def qk i_def)
    moreover have "pc_ok qs0 (set_sig qs (64 * q + k)) c (Sig_Done True (Some i))"
      using ok Sig_Claim lt by (simp add: i signaled_set_sig)
    moreover have "smap_at (h(p \<mapsto> set_sig qs (64 * q + k))) (call_desc c) p (set_sig qs (64 * q + k))"
      by (rule smap_at_update [OF at set_sig_length(1)])
    ultimately show ?thesis
      using only_set_set_sig [OF lt] lt i Sig_Claim
      by (intro exI [of _ "Sig_Done True (Some i)"] exI [of _ "h(p \<mapsto> set_sig qs (64 * q + k))"]
        exI [of _ "set_sig qs (64 * q + k)"]) auto
  next
    case (Sig_Done b i)
    then show ?thesis using at ok by auto
  qed
qed

section \<open>Reachable states\<close>

definition race_inv :: "(nat \<Rightarrow> sig_call) \<Rightarrow> sync_map_desc \<Rightarrow> nat \<Rightarrow> u64 list \<Rightarrow> race \<Rightarrow> bool" where
  "race_inv calls d p qs0 s \<longleftrightarrow>
    (\<exists>qs. smap_at (race_heap s) d p qs \<and> only_set qs0 qs \<and> (\<forall>i. pc_ok qs0 qs (calls i) (race_pc s i)) \<and>
       (\<forall>j < 64 * length qs. signaled qs j \<longrightarrow>
          signaled qs0 j \<or> (\<exists>i. race_pc s i = Sig_Done True (Some (of_nat j)))))"

lemma race_step_inv:
  assumes "race_step calls s t" "race_inv calls d p qs0 s" "\<And>i. call_desc (calls i) = d"
  shows "race_inv calls d p qs0 t"
proof -
  from assms(1) obtain i pc' h' where
    step: "sig_step (calls i) (race_pc s i) (race_heap s) = Inr (pc', h')"
    and t: "t = s\<lparr>race_pc := (race_pc s)(i := pc'), race_heap := h'\<rparr>" by (rule race_stepE)
  from assms(2) obtain qs where at: "smap_at (race_heap s) d p qs" and set0: "only_set qs0 qs"
    and ok: "\<And>i. pc_ok qs0 qs (calls i) (race_pc s i)"
    and src: "\<And>j. j < 64 * length qs \<Longrightarrow> signaled qs j \<Longrightarrow>
      signaled qs0 j \<or> (\<exists>i. race_pc s i = Sig_Done True (Some (of_nat j)))"
    unfolding race_inv_def by blast
  obtain qs' where at': "smap_at h' d p qs'" and mono: "only_set qs qs'" and ok': "pc_ok qs0 qs' (calls i) pc'"
    and new: "qs' = qs \<or> (\<exists>x. pc' = Sig_Done True (Some x) \<and> unat x < 64 * length qs \<and> qs' = set_sig qs (unat x))"
    and fin: "\<forall>b x. race_pc s i = Sig_Done b x \<longrightarrow> pc' = race_pc s i"
    using sig_step_ok [OF _ set0 ok, of "race_heap s" i p] at assms(3) step by auto
  have len: "length qs' = length qs" using mono by (simp add: only_set_def)
  have "signaled qs0 j \<or> (\<exists>k. race_pc t k = Sig_Done True (Some (of_nat j)))"
    if j: "j < 64 * length qs'" "signaled qs' j" for j
  proof (cases "signaled qs j")
    case True
    with src [of j] j(1) len obtain k where "signaled qs0 j \<or> race_pc s k = Sig_Done True (Some (of_nat j))" by auto
    with fin have "signaled qs0 j \<or> race_pc t k = Sig_Done True (Some (of_nat j))" by (auto simp: t)
    then show ?thesis by blast
  next
    case False
    with new j obtain x where x: "pc' = Sig_Done True (Some x)" "unat x < 64 * length qs" "qs' = set_sig qs (unat x)" by auto
    with False j len have "j = unat x" by (simp add: signaled_set_sig)
    with x(1) have "race_pc t i = Sig_Done True (Some (of_nat j))" by (simp add: t)
    then show ?thesis by blast
  qed
  moreover have "pc_ok qs0 qs' (calls k) (race_pc t k)" for k
    using ok' pc_ok_mono [OF ok mono] by (simp add: t)
  moreover have "smap_at (race_heap t) d p qs'" using at' by (simp add: t)
  ultimately show ?thesis
    using only_set_trans [OF set0 mono] unfolding race_inv_def by blast
qed

lemma race_reach_inv:
  assumes "race_reach calls h0 s" "smap_at h0 d p qs0" "\<And>i. call_desc (calls i) = d"
  shows "race_inv calls d p qs0 s"
  using assms
proof (induction rule: race_reach.induct)
  case start
  then show ?case unfolding race_inv_def by (intro exI [of _ qs0]) simp
next
  case (step s t)
  then show ?case using race_step_inv by blast
qed

section \<open>The number of steps of a call\<close>

text \<open>How many steps a call still has to take on a bitmap of \<open>n\<close> quads, whatever other calls do.\<close>

fun sig_left :: "nat \<Rightarrow> sig_pc \<Rightarrow> nat" where
  "sig_left n Sig_First = n + 1"
| "sig_left n (Sig_Next q) = n - q + 1"
| "sig_left n (Sig_Claim q k) = 1"
| "sig_left n (Sig_Done b i) = 0"

lemma sig_left_0: "sig_left n pc = 0 \<longleftrightarrow> (\<exists>b i. pc = Sig_Done b i)"
  by (cases pc) auto

lemma sig_left_pick: "sig_left n (sig_pick c q k) \<le> 1"
  by (simp add: sig_pick_def)

lemma sig_step_left:
  assumes "sig_step c pc h = Inr (pc', h')"
  shows "sig_left (unat (smap_size (call_desc c))) pc' \<le> sig_left (unat (smap_size (call_desc c))) pc - 1"
proof -
  let ?n = "unat (smap_size (call_desc c))"
  note pick = sig_left_pick [of ?n c]
  show ?thesis
  proof (cases pc)
    case Sig_First
    have "0 < ?n" if "\<not> smap_size (call_desc c) \<le> sync_map_ind2quad (call_from c)"
      using that by (simp add: word_le_nat_alt del: ind_unat)
    with Sig_First assms pick order_trans [OF pick, of ?n] show ?thesis
      by (auto simp: Let_def split: if_splits)
  next
    case (Sig_Next q)
    with assms pick order_trans [OF pick, of "?n - q"] show ?thesis
      by (auto split: if_splits)
  qed (use assms in auto)
qed

lemma race_exec_ok:
  assumes "race_inv calls d p qs0 s" "\<And>i. call_desc (calls i) = d"
  shows "\<exists>t. race_exec calls is s = Inr t \<and>
    (\<forall>i. sig_left (unat (smap_size d)) (race_pc t i) \<le> sig_left (unat (smap_size d)) (race_pc s i) - count_list is i)"
  using assms(1)
proof (induction "is" arbitrary: s)
  case (Cons j "is")
  let ?n = "unat (smap_size d)"
  from Cons.prems obtain qs where at: "smap_at (race_heap s) d p qs" and set0: "only_set qs0 qs"
    and ok: "\<And>i. pc_ok qs0 qs (calls i) (race_pc s i)" unfolding race_inv_def by blast
  obtain pc' h' where step: "sig_step (calls j) (race_pc s j) (race_heap s) = Inr (pc', h')"
    using sig_step_ok [OF _ set0 ok, of "race_heap s" j p] at assms(2) by auto
  define t where "t = s\<lparr>race_pc := (race_pc s)(j := pc'), race_heap := h'\<rparr>"
  have move: "race_move calls j s = Inr t" by (simp add: race_move_def step t_def)
  have "race_inv calls d p qs0 t"
    using race_step_inv [OF race_move_step [OF move] Cons.prems assms(2)] .
  from Cons.IH [OF this] obtain u where u: "race_exec calls is t = Inr u"
    "\<And>i. sig_left ?n (race_pc u i) \<le> sig_left ?n (race_pc t i) - count_list is i" by blast
  have less: "sig_left ?n pc' \<le> sig_left ?n (race_pc s j) - 1"
    using sig_step_left [OF step] by (simp add: assms(2))
  have "sig_left ?n (race_pc u i) \<le> sig_left ?n (race_pc s i) - count_list (j # is) i" for i
    using u(2) [of i] less by (cases "i = j") (simp_all add: t_def)
  with move u(1) show ?case by auto
qed simp

text \<open>A schedule of one call is a run of that call.\<close>

lemma race_exec_alone:
  assumes "set is \<subseteq> {i}"
  shows "race_exec calls is s =
    and_then (sig_run (count_list is i) (calls i) (race_pc s i) (race_heap s)) (\<lambda>(pc', h').
      Inr (s\<lparr>race_pc := (race_pc s)(i := pc'), race_heap := h'\<rparr>))"
  using assms
proof (induction "is" arbitrary: s)
  case (Cons j "is")
  then have [simp]: "j = i" by simp
  have "set is \<subseteq> {i}" using Cons.prems by simp
  note IH = Cons.IH [OF this]
  show ?case
    by (cases "sig_step (calls i) (race_pc s i) (race_heap s)") (auto simp: race_move_def IH fun_upd_def cong: if_cong)
qed simp

lemma sig_run_add:
  "sig_run (m + n) c pc h = and_then (sig_run m c pc h) (\<lambda>(pc', h'). sig_run n c pc' h')"
proof (induction m arbitrary: pc h)
  case (Suc m)
  then show ?case by (cases "sig_step c pc h") auto
qed simp

text \<open>A call alone reaches the point of its claim without changing the bitmap.\<close>

inductive quiet :: "sig_call \<Rightarrow> map_heap \<Rightarrow> sig_pc \<Rightarrow> sig_pc \<Rightarrow> bool" for c h where
  here: "quiet c h pc pc"
| more: "sig_step c pc h = Inr (pc', h) \<Longrightarrow> quiet c h pc' pc'' \<Longrightarrow> quiet c h pc pc''"

lemma run_quiet:
  assumes "sig_run n c pc h = Inr (Sig_Done True (Some i), h')" "\<forall>b j. pc \<noteq> Sig_Done b j"
  shows "\<exists>q k. quiet c h pc (Sig_Claim q k) \<and> i = of_nat k + 64 * of_nat q"
  using assms
proof (induction n arbitrary: pc)
  case (Suc n)
  show ?case
  proof (cases "\<exists>q k. pc = Sig_Claim q k")
    case True
    then obtain q k where pc: "pc = Sig_Claim q k" by blast
    with Suc.prems(1) have "i = of_nat k + 64 * of_nat q" by auto
    then show ?thesis using quiet.here pc by blast
  next
    case False
    from Suc.prems(1) obtain pc' h1 where step: "sig_step c pc h = Inr (pc', h1)"
      and rest: "sig_run n c pc' h1 = Inr (Sig_Done True (Some i), h')" by auto
    have same: "h1 = h" "\<And>b j. pc' = Sig_Done b j \<Longrightarrow> b = False"
      using False Suc.prems(2) step
      by (cases pc; auto simp: Let_def sig_pick_def split: if_splits)+
    with rest have "\<forall>b j. pc' \<noteq> Sig_Done b j" by auto
    then show ?thesis using Suc.IH [of pc'] rest same(1) step quiet.more by blast
  qed
qed auto

lemma quiet_race:
  assumes "quiet (calls i) h pc pc'" "race_reach calls h0 s" "race_heap s = h" "race_pc s i = pc"
  shows "race_reach calls h0 (s\<lparr>race_pc := (race_pc s)(i := pc')\<rparr>)"
  using assms
proof (induction arbitrary: s rule: quiet.induct)
  case (here pc)
  then have "s\<lparr>race_pc := (race_pc s)(i := pc)\<rparr> = s" by auto
  with here.prems(1) show ?case by metis
next
  case (more pc pc' pc'')
  define t where "t = s\<lparr>race_pc := (race_pc s)(i := pc'), race_heap := h\<rparr>"
  have "race_step calls s t"
    using race_step.move [of calls i s pc' h] more.hyps more.prems by (simp add: t_def)
  with more.prems(1) have "race_reach calls h0 t" by (rule race_reach.step)
  have "race_heap t = h" "race_pc t i = pc'" by (simp_all add: t_def)
  with more.IH [OF \<open>race_reach calls h0 t\<close>]
  have "race_reach calls h0 (t\<lparr>race_pc := (race_pc t)(i := pc'')\<rparr>)" by blast
  moreover have "t\<lparr>race_pc := (race_pc t)(i := pc'')\<rparr> = s\<lparr>race_pc := (race_pc s)(i := pc'')\<rparr>"
    using more.prems(2) by (simp add: t_def)
  ultimately show ?case by (simp only:)
qed

lemma quiet_ok:
  assumes "quiet c h pc pc'" "smap_at h (call_desc c) p qs" "pc_ok qs qs c pc"
  shows "pc_ok qs qs c pc'"
  using assms
proof (induction rule: quiet.induct)
  case (more pc pc' pc'')
  obtain qs' where at: "smap_at h (call_desc c) p qs'" and ok: "pc_ok qs qs' c pc'"
    using sig_step_ok [OF more.prems(1) only_set_refl more.prems(2)] more.hyps(1) by auto
  have "qs' = qs" using at more.prems(1) by (simp add: smap_at_def)
  with ok more.IH more.prems(1) show ?case by simp
qed

lemma claim_step:
  assumes "smap_at h (call_desc c) p qs" "q < length qs"
  shows "\<exists>h' qs'. sig_step c (Sig_Claim q k) h = Inr (Sig_Done True (Some (of_nat k + 64 * of_nat q)), h') \<and>
    smap_at h' (call_desc c) p qs' \<and> length qs' = length qs"
  using update_quad_at [OF assms]
    smap_at_update [OF assms(1), of "qs[q := qs ! q OR quad_bit k]"] by (force simp: fetch_or_def)

section \<open>Properties\<close>

text \<open>C37: \<^verbatim>\<open>sync_map_sig_first\<close> is wait-free. Whatever order the atomic accesses of any number of calls on
  one bitmap are scheduled in, no access faults, and a call that made one access more than the bitmap
  has quads has returned. When it is the only one that moved, it has signaled and returned the first
  clear index of its range, or has returned false and changed nothing when there is none.\<close>

theorem sig_first_wait_free:
  assumes "smap_at h0 d p qs0" "\<And>i. call_desc (calls i) = d"
  shows "\<exists>s. race_exec calls is (race_start h0) = Inr s \<and> race_reach calls h0 s \<and>
    (\<forall>i. length qs0 < count_list is i \<longrightarrow>
      (\<exists>b x. race_pc s i = Sig_Done b x) \<and>
      (set is \<subseteq> {i} \<longrightarrow>
        (case find (\<lambda>k. \<not> signaled qs0 k)
            [unat (call_from (calls i))..<min (unat (call_to (calls i))) (64 * length qs0)] of
           Some k \<Rightarrow> race_pc s i = Sig_Done True (Some (of_nat k)) \<and> race_heap s = h0(p \<mapsto> set_sig qs0 k)
         | None \<Rightarrow> race_pc s i = Sig_Done False None \<and> race_heap s = h0)))"
proof -
  have start: "race_reach calls h0 (race_start h0)" unfolding race_start_def by (rule race_reach.start)
  have len: "unat (smap_size d) = length qs0" using assms(1) by (simp add: smap_at_def)
  obtain s where s: "race_exec calls is (race_start h0) = Inr s"
    "\<And>i. sig_left (length qs0) (race_pc s i) \<le> length qs0 + 1 - count_list is i"
    using race_exec_ok [OF race_reach_inv [OF start assms] assms(2)] by (auto simp: len race_start_def)
  have fin: "\<exists>b x. race_pc s i = Sig_Done b x" if "length qs0 < count_list is i" for i
    using s(2) [of i] that by (simp add: sig_left_0)
  have alone: "case find (\<lambda>k. \<not> signaled qs0 k)
          [unat (call_from (calls i))..<min (unat (call_to (calls i))) (64 * length qs0)] of
        Some k \<Rightarrow> race_pc s i = Sig_Done True (Some (of_nat k)) \<and> race_heap s = h0(p \<mapsto> set_sig qs0 k)
      | None \<Rightarrow> race_pc s i = Sig_Done False None \<and> race_heap s = h0"
    if many: "length qs0 < count_list is i" and only: "set is \<subseteq> {i}" for i
  proof -
    from s(1) obtain pc h where run: "sig_run (count_list is i) (calls i) Sig_First h0 = Inr (pc, h)"
      and pc: "race_pc s i = pc" "race_heap s = h"
      by (auto simp: race_exec_alone [OF only] race_start_def)
    obtain b x where "pc = Sig_Done b x" using fin [OF many] pc(1) by auto
    with run have "sig_run (count_list is i + 3) (calls i) Sig_First h0 = Inr (pc, h)"
      by (simp add: sig_run_add)
    moreover have "unat (smap_size (call_desc (calls i))) + 3 \<le> count_list is i + 3"
      using many len assms(2) by simp
    note sig_run_alone [OF this, of h0 0]
    ultimately have "Inr (pc, h) = and_then (sync_map_sig_first (call_from (calls i)) (call_to (calls i)) (Some d) (Some 0) h0)
        (\<lambda>r. Inr (sig_result r))"
      by (simp only: assms(2))
    then show ?thesis
      unfolding pc sig_first_finds [OF assms(1)] claimed_alt
      by (auto simp: sig_result_def split: option.splits)
  qed
  show ?thesis using s(1) race_exec_reach [OF start s(1)] fin alone by blast
qed

text \<open>C17: however calls of \<^verbatim>\<open>sync_map_sig_first\<close> on one bitmap interleave, no step faults and bits are
  only set; a call that returned an index returned one of its range that was clear at the start and
  is set now; a call that returned false left no clear bit in its range; and every new bit was
  returned by some call.\<close>

theorem sig_first_race_safe:
  assumes "race_reach calls h0 s" "smap_at h0 d p qs0" "\<And>i. call_desc (calls i) = d"
  shows "(\<forall>i. \<exists>r. sig_step (calls i) (race_pc s i) (race_heap s) = Inr r) \<and>
    (\<exists>qs. smap_at (race_heap s) d p qs \<and> only_set qs0 qs \<and>
      (\<forall>i x. race_pc s i = Sig_Done True (Some x) \<longrightarrow>
         unat (call_from (calls i)) \<le> unat x \<and> unat x < unat (call_to (calls i)) \<and>
         \<not> signaled qs0 (unat x) \<and> signaled qs (unat x)) \<and>
      (\<forall>i x j. race_pc s i = Sig_Done False x \<longrightarrow> unat (call_from (calls i)) \<le> j \<longrightarrow>
         j < unat (call_to (calls i)) \<longrightarrow> j < 64 * length qs \<longrightarrow> signaled qs j) \<and>
      (\<forall>j < 64 * length qs. signaled qs j \<longrightarrow>
         signaled qs0 j \<or> (\<exists>i. race_pc s i = Sig_Done True (Some (of_nat j)))))"
proof -
  obtain qs where qs: "smap_at (race_heap s) d p qs" "only_set qs0 qs"
    "\<And>i. pc_ok qs0 qs (calls i) (race_pc s i)"
    "\<forall>j < 64 * length qs. signaled qs j \<longrightarrow> signaled qs0 j \<or> (\<exists>i. race_pc s i = Sig_Done True (Some (of_nat j)))"
    using race_reach_inv [OF assms] unfolding race_inv_def by blast
  have "\<exists>r. sig_step (calls i) (race_pc s i) (race_heap s) = Inr r" for i
    using sig_step_ok [of "race_heap s" "calls i" p qs qs0 "race_pc s i"] qs assms(3) by auto
  moreover have "unat (call_from (calls i)) \<le> unat x \<and> unat x < unat (call_to (calls i)) \<and>
      \<not> signaled qs0 (unat x) \<and> signaled qs (unat x)" if "race_pc s i = Sig_Done True (Some x)" for i x
    using qs(3) [of i] that by simp
  moreover have "signaled qs j" if "race_pc s i = Sig_Done False x" "unat (call_from (calls i)) \<le> j"
      "j < unat (call_to (calls i))" "j < 64 * length qs" for i x j
    using qs(3) [of i] that by simp
  ultimately show ?thesis using qs(1,2,4) by blast
qed

text \<open>C18: two calls of \<^verbatim>\<open>sync_map_sig_first\<close> with the same range can both return true with the same
  index, whenever the range has a free index: the bit is tested and set by two atomic accesses and
  the value the fetch-or returns is not looked at.\<close>

theorem sig_first_race_duplicate:
  assumes "smap_at h0 d p qs0" "a \<noteq> b" "calls a = c" "calls b = c" "call_desc c = d"
    and "find (\<lambda>i. \<not> signaled qs0 i) [unat (call_from c)..<min (unat (call_to c)) (64 * length qs0)] = Some i"
  shows "\<exists>s. race_reach calls h0 s \<and> race_pc s a = Sig_Done True (Some (of_nat i)) \<and>
    race_pc s b = Sig_Done True (Some (of_nat i))"
proof -
  have seq: "sync_map_sig_first (call_from c) (call_to c) (Some (call_desc c)) (Some 0) h0 =
      Inr (True, Some (of_nat i), h0(p \<mapsto> set_sig qs0 i))"
    unfolding assms(5) sig_first_finds [OF assms(1)] claimed_alt assms(6) by simp
  have run: "sig_run (unat (smap_size (call_desc c)) + 3) c Sig_First h0 =
      Inr (Sig_Done True (Some (of_nat i)), h0(p \<mapsto> set_sig qs0 i))"
    unfolding sig_run_alone [OF order_refl, of c h0 0] seq by (simp add: sig_result_def)
  obtain q k where quiet: "quiet c h0 Sig_First (Sig_Claim q k)" and i: "(of_nat i :: u32) = of_nat k + 64 * of_nat q"
    using run_quiet [OF run] by blast
  have at: "smap_at h0 (call_desc c) p qs0" using assms(1,5) by simp
  have q: "q < length qs0" using quiet_ok [OF quiet at] by simp
  let ?done = "Sig_Done True (Some (of_nat i))"
  obtain h2 qs2 where h2: "sig_step c (Sig_Claim q k) h0 = Inr (?done, h2)" "smap_at h2 (call_desc c) p qs2"
      "length qs2 = length qs0"
    using claim_step [OF at q, of k] i by auto
  obtain h3 where h3: "sig_step c (Sig_Claim q k) h2 = Inr (?done, h3)"
    using claim_step [OF h2(2), of q k] h2(3) q i by auto
  define s0 where "s0 = \<lparr>race_pc = (\<lambda>_. Sig_First), race_heap = h0\<rparr>"
  define s1 where "s1 = s0\<lparr>race_pc := (race_pc s0)(a := Sig_Claim q k)\<rparr>"
  define s2 where "s2 = s1\<lparr>race_pc := (race_pc s1)(b := Sig_Claim q k)\<rparr>"
  define s3 where "s3 = s2\<lparr>race_pc := (race_pc s2)(a := ?done), race_heap := h2\<rparr>"
  define s4 where "s4 = s3\<lparr>race_pc := (race_pc s3)(b := ?done), race_heap := h3\<rparr>"
  have "race_reach calls h0 s0" unfolding s0_def by (rule race_reach.start)
  from quiet_race [OF quiet [folded assms(3)] this] have "race_reach calls h0 s1" by (simp add: s0_def s1_def)
  from quiet_race [OF quiet [folded assms(4)] this] have "race_reach calls h0 s2"
    using assms(2) by (simp add: s0_def s1_def s2_def)
  moreover have "race_step calls s2 s3"
    unfolding s3_def using assms(2,3) h2(1) by (intro race_step.move) (simp add: s2_def s1_def s0_def)
  moreover have "race_step calls s3 s4"
    unfolding s4_def using assms(2,4) h3 by (intro race_step.move) (simp add: s3_def s2_def)
  ultimately have "race_reach calls h0 s4" using race_reach.step by blast
  moreover have "race_pc s4 a = ?done" "race_pc s4 b = ?done" using assms(2) by (simp_all add: s4_def s3_def)
  ultimately show ?thesis by blast
qed

definition wit_calls :: "nat \<Rightarrow> sig_call" where
  "wit_calls = (\<lambda>_. \<lparr>call_from = 0, call_to = 4, call_desc = wit_smap\<rparr>)"

text \<open>
  Two calls on the bitmap \<open>[5, 0]\<close>: the first loads and claims index 1, the second, which loaded the
  quad before that claim, claims it once more; then a third call loads and claims index 3.
\<close>

definition wit_race :: race where
  "wit_race = \<lparr>race_pc = (\<lambda>i. if i \<le> 1 then Sig_Done True (Some 1) else if i = 2 then Sig_Done True (Some 3) else Sig_First),
     race_heap = wit_mheap [15, 0]\<rparr>"

lemma wit_first:
  assumes "(v, k) \<in> {(5, 1), (7, 3)}"
  shows "sig_step (wit_calls i) Sig_First (wit_mheap [v, 0]) = Inr (Sig_Claim 0 k, wit_mheap [v, 0])"
proof -
  have m: "sig_mask (wit_calls i) = - 1" by (simp add: sig_mask_def wit_calls_def)
  have "ctz (NOT 5 :: u64) = 1" "ctz (NOT 7 :: u64) = 3" by code_simp+
  moreover have "\<not> (4 :: u32) \<le> 1" "\<not> 2 \<le> sync_map_ind2quad 0" by code_simp+
  moreover have "load_quad (wit_mheap [v, 0]) (Some 7) 0 = Inr v" by (simp add: load_quad_def wit_mheap_def)
  moreover have "call_from (wit_calls i) = 0" "call_to (wit_calls i) = 4" "smap_map (call_desc (wit_calls i)) = Some 7"
    "smap_size (call_desc (wit_calls i)) = 2"
    by (simp_all add: wit_calls_def wit_smap_def)
  ultimately show ?thesis using assms by (auto simp: m sig_pick_def Let_def)
qed

lemma wit_claim:
  assumes "k = 1 \<or> k = 3"
  shows "sig_step (wit_calls i) (Sig_Claim 0 k) (wit_mheap [v, 0]) =
    Inr (Sig_Done True (Some (of_nat k)), wit_mheap [v OR quad_bit k, 0])"
  by (auto simp: fetch_or_def update_quad_def wit_mheap_def wit_calls_def wit_smap_def fun_eq_iff)

lemma wit_moves:
  "f i = Sig_First \<Longrightarrow> race_move wit_calls i \<lparr>race_pc = f, race_heap = wit_mheap [5, 0]\<rparr> =
     Inr \<lparr>race_pc = f(i := Sig_Claim 0 1), race_heap = wit_mheap [5, 0]\<rparr>"
  "f i = Sig_First \<Longrightarrow> race_move wit_calls i \<lparr>race_pc = f, race_heap = wit_mheap [7, 0]\<rparr> =
     Inr \<lparr>race_pc = f(i := Sig_Claim 0 3), race_heap = wit_mheap [7, 0]\<rparr>"
  "f i = Sig_Claim 0 1 \<Longrightarrow> race_move wit_calls i \<lparr>race_pc = f, race_heap = wit_mheap [v, 0]\<rparr> =
     Inr \<lparr>race_pc = f(i := Sig_Done True (Some 1)), race_heap = wit_mheap [v OR quad_bit 1, 0]\<rparr>"
  "f i = Sig_Claim 0 3 \<Longrightarrow> race_move wit_calls i \<lparr>race_pc = f, race_heap = wit_mheap [v, 0]\<rparr> =
     Inr \<lparr>race_pc = f(i := Sig_Done True (Some 3)), race_heap = wit_mheap [v OR quad_bit 3, 0]\<rparr>"
  using wit_first [of 5 1] wit_first [of 7 3] wit_claim [of 1] wit_claim [of 3]
  by (simp_all add: race_move_def)

lemma wit_race_exec: "race_exec wit_calls [0, 1, 0, 1, 2, 2] (race_start (wit_mheap [5, 0])) = Inr wit_race"
proof -
  have bits: "5 OR quad_bit 1 = 7" "7 OR quad_bit 1 = 7" "7 OR quad_bit 3 = 15" by code_simp+
  show ?thesis
    unfolding race_start_def race_exec.simps
    by (simp only: wit_moves fun_upd_apply if_True if_False simp_thms and_then_simps one_neq_zero zero_neq_one
        zero_neq_numeral numeral_neq_zero bits one_eq_numeral_iff numeral_eq_one_iff num.distinct wit_race_def)
      (auto simp: fun_eq_iff)
qed

lemma sig_first_race_safe_witness:
  "\<exists>s qs. race_exec wit_calls [0, 1, 0, 1, 2, 2] (race_start (wit_mheap [5, 0])) = Inr s \<and>
    race_pc s 0 = Sig_Done True (Some 1) \<and> race_pc s 2 = Sig_Done True (Some 3) \<and>
    smap_at (race_heap s) wit_smap 7 qs \<and> only_set [5, 0] qs \<and>
    \<not> signaled [5, 0] 3 \<and> signaled qs 1 \<and> signaled qs 3"
proof -
  have "race_reach wit_calls (wit_mheap [5, 0]) wit_race"
    using race_exec_reach [OF _ wit_race_exec] race_reach.start by (simp add: race_start_def)
  moreover have "smap_at (wit_mheap [5, 0]) wit_smap 7 [5, 0]" by (rule wit_smap_at) simp
  ultimately obtain qs where qs: "smap_at (race_heap wit_race) wit_smap 7 qs" "only_set [5, 0] qs"
    "\<And>i x. race_pc wit_race i = Sig_Done True (Some x) \<Longrightarrow> \<not> signaled [5, 0] (unat x) \<and> signaled qs (unat x)"
    using sig_first_race_safe [of wit_calls "wit_mheap [5, 0]" wit_race wit_smap 7 "[5, 0]"]
    by (auto simp: wit_calls_def)
  have "race_pc wit_race 0 = Sig_Done True (Some 1)" "race_pc wit_race 2 = Sig_Done True (Some 3)"
    by (simp_all add: wit_race_def)
  with qs(3) [of 0 1] qs(3) [of 2 3] qs(1,2) wit_race_exec show ?thesis by auto
qed

lemma sig_first_wait_free_witness:
  "\<exists>s b x. race_exec wit_calls [0, 1, 2, 0, 1, 0] (race_start (wit_mheap [5, 0])) = Inr s \<and>
    race_pc s 0 = Sig_Done b x"
  using sig_first_wait_free [OF wit_smap_at, of "[5, 0]" wit_calls "[0, 1, 2, 0, 1, 0]"]
  by (auto simp: wit_calls_def)

lemma sig_first_race_duplicate_witness:
  "\<exists>s. race_reach wit_calls (wit_mheap [5, 0]) s \<and> race_pc s 0 = Sig_Done True (Some 1) \<and>
    race_pc s 1 = Sig_Done True (Some 1)"
proof -
  have "find (\<lambda>i. \<not> signaled [5, 0] i) [0..<4] = Some 1" unfolding signaled_def by code_simp
  then have f: "find (\<lambda>i. \<not> signaled [5, 0] i)
      [unat (call_from (wit_calls 0))..<min (unat (call_to (wit_calls 0))) (64 * length [5, 0 :: u64])] = Some 1"
    by (simp add: wit_calls_def)
  have "call_desc (wit_calls 0) = wit_smap" "wit_calls 1 = wit_calls 0" by (simp_all add: wit_calls_def)
  from sig_first_race_duplicate [OF wit_smap_at _ refl this(2,1) f] show ?thesis by simp
qed

end
