(* ===== verification/Bitpool.thy ===== *)
theory Bitpool
  imports Sync_Map
begin

text \<open>
  Pools of fixed-size buckets in four priority ranges (\<^verbatim>\<open>pipe/bitpool.h\<close>, \<^verbatim>\<open>bitpool.c\<close>). A bitmap
  marks the used buckets; each priority owns a range of its indices, the real-time range at the top
  and the low range at index 0. The theory has creation and deletion, the computation of the
  ranges, loading, unloading and the choice of the next bucket, as they run without interference.
\<close>

section \<open>Data (bitpool.h)\<close>

datatype bitpool_bucket_func = Bucket_Func_16byte | Bucket_Func_32byte | Bucket_Func_64byte | Bucket_Func_anybyte

definition bitpool_bucket_func_of :: "u32 \<Rightarrow> bitpool_bucket_func" where
  "bitpool_bucket_func_of bucket_size =
    (if bucket_size = 16 then Bucket_Func_16byte
     else if bucket_size = 32 then Bucket_Func_32byte
     else if bucket_size = 64 then Bucket_Func_64byte
     else Bucket_Func_anybyte)"

text \<open>
  The bytes a bucket function stores. \<open>simd n from\<close> stands for the \<open>n\<close> bytes that the vector store of
  that width of the utility library writes when it is given \<open>from\<close>.
\<close>

type_synonym simd_store = "nat \<Rightarrow> u8 list \<Rightarrow> u8 list"

definition bucket_bytes :: "simd_store \<Rightarrow> bitpool_bucket_func \<Rightarrow> u8 list \<Rightarrow> u32 \<Rightarrow> u8 list res" where
  "bucket_bytes simd f from sz =
    (case f of
       Bucket_Func_16byte \<Rightarrow> Inr (simd 16 from)
     | Bucket_Func_32byte \<Rightarrow> Inr (simd 32 from)
     | Bucket_Func_64byte \<Rightarrow> Inr (simd 64 from)
     | Bucket_Func_anybyte \<Rightarrow> buf_read from 0 (unat sz))"

record bitpool_prior_range =
  bit_n :: u32
  bit_i :: u32
  bit_disp :: u32

record bitpool_desc =
  presence :: "u32 list"
  bucket_base :: "u8 list option"
  bucket_count :: u32
  bucket_size :: u32
  ranges :: "bitpool_prior_range list"
  qload :: bitpool_bucket_func
  smap_desc :: sync_map_desc

definition BITPOOL_BUCKET_AVX128 :: u32 where "BITPOOL_BUCKET_AVX128 = 0x10"
definition BITPOOL_BUCKET_AVX256 :: u32 where "BITPOOL_BUCKET_AVX256 = 0x20"
definition BITPOOL_BUCKET_AVX512 :: u32 where "BITPOOL_BUCKET_AVX512 = 0x40"

fun prior_index :: "mte_prior \<Rightarrow> nat res" where
  "prior_index PRIOR_MIN = Inr 3"
| "prior_index PRIOR_LOW = Inr 3"
| "prior_index PRIOR_MOD = Inr 2"
| "prior_index PRIOR_MED = Inr 2"
| "prior_index PRIOR_HIGH = Inr 1"
| "prior_index PRIOR_VERY_HIGH = Inr 1"
| "prior_index PRIOR_REAL = Inr 0"
| "prior_index PRIOR_MAX = Inr 0"
| "prior_index MTE_PRIOR_MIN = Inl Assert_Fail"
| "prior_index MTE_PRIOR_MAX = Inl Assert_Fail"

definition bitpool_prior_to_presence :: "bitpool_desc option \<Rightarrow> mte_prior \<Rightarrow> nat res" where
  "bitpool_prior_to_presence bitpool prior = and_then (asrt (bitpool \<noteq> None)) (\<lambda>_. prior_index prior)"

fun presence_loop :: "bitpool_prior_range list \<Rightarrow> u32 \<Rightarrow> nat list \<Rightarrow> nat res" where
  "presence_loop rs index [] = Inl Assert_Fail"
| "presence_loop rs index (i # is) =
    and_then (arr rs i) (\<lambda>r. if 0 < bit_n r \<and> bit_i r \<le> index then Inr i else presence_loop rs index is)"

definition bitpool_index_to_presence :: "bitpool_desc option \<Rightarrow> u32 \<Rightarrow> nat res" where
  "bitpool_index_to_presence bitpool index =
    and_then (asrt (bitpool \<noteq> None)) (\<lambda>_. and_then (deref bitpool) (\<lambda>b.
      and_then (asrt (index < bucket_count b)) (\<lambda>_. presence_loop (ranges b) index [0..<4])))"

text \<open>The byte offset of a bucket; the product is a 32-bit one.\<close>

definition bitpool_index_to_bucket :: "bitpool_desc \<Rightarrow> u32 \<Rightarrow> nat res" where
  "bitpool_index_to_bucket b index =
    and_then (asrt (index < bucket_count b)) (\<lambda>_. Inr (unat (bucket_size b * index)))"

type_synonym bitpool_perc_desc = "u8 list"

definition bitpool_perc_desc_sum :: "bitpool_perc_desc \<Rightarrow> u32" where
  "bitpool_perc_desc_sum p = ucast (p ! 0) + ucast (p ! 1) + ucast (p ! 2) + ucast (p ! 3)"

definition BITPOOL_PERC_DEFAULT :: bitpool_perc_desc where "BITPOOL_PERC_DEFAULT = [10, 15, 25, 50]"
definition BITPOOL_PERC_OFFLOAD :: bitpool_perc_desc where "BITPOOL_PERC_OFFLOAD = [0, 10, 20, 70]"

section \<open>Ranges (bitpool_range_populate)\<close>

text \<open>
  \<^verbatim>\<open>round(((double)perc / 100) * n)\<close>, the nearest integer to \<open>perc * n / 100\<close>. \<open>n\<close> is a multiple of 64,
  so the exact value is a multiple of 1/25 and differs from every half by at least 1/50, which is far
  more than the error of the floating point division and product on 32-bit values: rounding the
  floating point value and rounding the exact value agree.
\<close>

definition perc_bits :: "u8 \<Rightarrow> u32 \<Rightarrow> u32" where
  "perc_bits p n = of_nat ((unat p * unat n + 50) div 100)"

fun range_loop :: "bitpool_perc_desc \<Rightarrow> u32 \<Rightarrow> nat list \<Rightarrow> u32 \<Rightarrow> bitpool_prior_range list \<Rightarrow> bitpool_prior_range list res" where
  "range_loop perc n [] taken buf = Inr buf"
| "range_loop perc n (i # is) taken buf =
    and_then (arr perc i) (\<lambda>p. and_then (arr buf i) (\<lambda>r.
      (let bits = perc_bits p n
       in range_loop perc n is (taken + bits) (buf[i := r\<lparr>bit_n := bits, bit_i := n - bits - taken\<rparr>]))))"

fun disp_fill :: "nat list \<Rightarrow> bitpool_prior_range list \<Rightarrow> bitpool_prior_range list res" where
  "disp_fill [] buf = Inr buf"
| "disp_fill (i # is) buf =
    and_then (arr buf i) (\<lambda>r. and_then (arr buf 3) (\<lambda>low.
      if bit_n r = 0 then Inl Div_By_Zero
      else disp_fill is (buf[i := r\<lparr>bit_disp := bit_n low div bit_n r\<rparr>])))"

definition bitpool_range_populate ::
  "sync_map_desc option \<Rightarrow> bitpool_perc_desc \<Rightarrow> bitpool_prior_range list option
    \<Rightarrow> (axres \<times> bitpool_prior_range list option) res" where
  "bitpool_range_populate smap perc buf =
    (case smap of None \<Rightarrow> Inr (AX_INV_ARG, buf)
     | Some s \<Rightarrow>
       (case buf of None \<Rightarrow> Inr (AX_INV_BUF, buf)
        | Some rs \<Rightarrow>
          if 100 < bitpool_perc_desc_sum perc then Inr (AX_INV_DATA, buf)
          else if perc ! 3 < perc ! 0 \<or> perc ! 3 < perc ! 1 \<or> perc ! 3 < perc ! 2 then Inr (AX_INV_DATA, buf)
          else
            and_then (range_loop perc (smap_size s * 64) [0..<4] 0 rs) (\<lambda>rs1.
            and_then (disp_fill [0..<3] rs1) (\<lambda>rs2.
            and_then (arr rs2 3) (\<lambda>low.
              Inr (AX_SUCC, Some (rs2[3 := low\<lparr>bit_disp := 1\<rparr>])))))))"

section \<open>Creation and deletion\<close>

text \<open>
  \<open>mem\<close> is the memory of the pool before it is filled in (its presence counters are not cleared),
  \<open>mp\<close> and \<open>map_mem\<close> those of the bitmap, \<open>base n\<close> that of \<open>n\<close> bytes of buckets. \<open>has_buf\<close> says that
  the result pointer is not null; the pool is the value stored behind it.
\<close>

definition bitpool_create ::
  "u32 \<Rightarrow> u32 \<Rightarrow> bitpool_perc_desc \<Rightarrow> bool \<Rightarrow> bitpool_desc option \<Rightarrow> nat option \<Rightarrow> u64 list
    \<Rightarrow> (nat \<Rightarrow> u8 list option) \<Rightarrow> map_heap \<Rightarrow> (axres \<times> bitpool_desc option \<times> map_heap) res" where
  "bitpool_create bcount bsize perc has_buf mem mp map_mem base h =
    (if bcount = 0 \<or> bsize = 0 then Inr (AX_INV_ARG, None, h)
     else if \<not> has_buf then Inr (AX_INV_BUF, None, h)
     else
       and_then (deref mem) (\<lambda>b0.
        (let b1 = b0\<lparr>bucket_count := bcount, bucket_size := bsize, qload := bitpool_bucket_func_of bsize\<rparr>
         in case sync_map_init bcount (Some (smap_desc b1)) mp map_mem h of
              (r, Some s, h1) \<Rightarrow>
                if r \<noteq> AX_SUCC then Inr (r, None, h1)
                else
                  and_then (bitpool_range_populate (Some s) perc (Some (ranges b1))) (\<lambda>(r2, rs).
                    if r2 \<noteq> AX_SUCC then Inr (r2, None, snd (sync_map_disp (Some s) h1))
                    else and_then (deref rs) (\<lambda>rs'.
                      Inr (AX_SUCC, Some (b1\<lparr>smap_desc := s, ranges := rs',
                             bucket_base := base (unat (bsize * bcount))\<rparr>), h1)))
            | (r, None, h1) \<Rightarrow> Inr (r, None, h1))))"

definition bitpool_delete :: "bitpool_desc option \<Rightarrow> map_heap \<Rightarrow> map_heap" where
  "bitpool_delete bitpool h =
    (case bitpool of None \<Rightarrow> h | Some b \<Rightarrow> snd (sync_map_disp (Some (smap_desc b)) h))"

section \<open>Loading and unloading\<close>

record bitpool_prior_load_res =
  load_code :: axres
  load_index :: u32

text \<open>
  The loop around \<^verbatim>\<open>sync_map_sig_first\<close> waits until a bit of the range is clear. A failed search
  changes nothing, so without another thread that unloads a bucket it never ends.
\<close>

definition bitpool_prior_load ::
  "simd_store \<Rightarrow> bitpool_desc option \<Rightarrow> u8 list option \<Rightarrow> mte_prior \<Rightarrow> map_heap
    \<Rightarrow> (bitpool_prior_load_res \<times> bitpool_desc option \<times> map_heap) res" where
  "bitpool_prior_load simd bitpool bucket prior h =
    (case bitpool of None \<Rightarrow> Inr (\<lparr>load_code = AX_INV_ARG, load_index = 0\<rparr>, None, h)
     | Some b \<Rightarrow>
       (case bucket of None \<Rightarrow> Inr (\<lparr>load_code = AX_INV_ARG, load_index = 0\<rparr>, Some b, h)
        | Some bytes \<Rightarrow>
          and_then (bitpool_prior_to_presence (Some b) prior) (\<lambda>pr.
          and_then (arr (ranges b) pr) (\<lambda>r.
            if bit_n r = 0 then Inr (\<lparr>load_code = AX_INV_DATA, load_index = 0\<rparr>, Some b, h)
            else
              and_then (sync_map_sig_first (bit_i r) (bit_i r + bit_n r) (Some (smap_desc b)) (Some 0) h)
                (\<lambda>(found, index, h1).
                  if \<not> found then Inl Diverges
                  else
                    and_then (deref index) (\<lambda>index.
                    and_then (bitpool_index_to_bucket b index) (\<lambda>off.
                    and_then (bucket_bytes simd (qload b) bytes (bucket_size b)) (\<lambda>bs.
                    and_then (deref (bucket_base b)) (\<lambda>base.
                    and_then (buf_write base off bs) (\<lambda>base'.
                    and_then (arr (presence b) pr) (\<lambda>n.
                      Inr (\<lparr>load_code = AX_SUCC, load_index = index\<rparr>,
                           Some (b\<lparr>bucket_base := Some base', presence := (presence b)[pr := n + 1]\<rparr>), h1)))))))))))) "

definition bitpool_prior_unload ::
  "bitpool_desc option \<Rightarrow> u32 \<Rightarrow> map_heap \<Rightarrow> (bitpool_desc option \<times> map_heap) res" where
  "bitpool_prior_unload bitpool index h =
    (case bitpool of None \<Rightarrow> Inr (None, h)
     | Some b \<Rightarrow>
       if bucket_count b \<le> index then Inr (Some b, h)
       else
         and_then (sync_map_sigoff (smap_desc b) index h) (\<lambda>h1.
         and_then (bitpool_index_to_presence (Some b) index) (\<lambda>i.
         and_then (arr (presence b) i) (\<lambda>n.
           Inr (Some (b\<lparr>presence := (presence b)[i := n - 1]\<rparr>), h1)))))"

record bitpool_prior_unload_disp_res =
  disp_succ :: bool
  disp_presence_i :: u8
  disp_bucket_i :: u8

text \<open>The choice of the priority: the index where the loop stops and the disposition counters.\<close>

fun disp_loop :: "bitpool_desc \<Rightarrow> u32 list \<Rightarrow> nat list \<Rightarrow> (nat \<times> u32 list) res" where
  "disp_loop b disp [] = Inr (3, disp)"
| "disp_loop b disp (i # is) =
    and_then (arr (presence b) i) (\<lambda>n.
      if 0 < n
      then
        and_then (arr disp i) (\<lambda>d. and_then (arr (ranges b) i) (\<lambda>r.
          if d < bit_disp r then Inr (i, disp) else disp_loop b (disp[i := 0]) is))
      else disp_loop b disp is)"

definition bitpool_prior_unload_disp ::
  "bitpool_desc option \<Rightarrow> u32 list \<Rightarrow> map_heap
    \<Rightarrow> (bitpool_prior_unload_disp_res \<times> u32 list \<times> map_heap) res" where
  "bitpool_prior_unload_disp bitpool disp h =
    (case bitpool of
       None \<Rightarrow> Inr (\<lparr>disp_succ = False, disp_presence_i = 0, disp_bucket_i = 0\<rparr>, disp, h)
     | Some b \<Rightarrow>
       and_then (disp_loop b disp [0..<3]) (\<lambda>(i, disp').
       and_then (arr (ranges b) i) (\<lambda>r.
       and_then (sync_map_unsig_first (bit_i r) (bit_i r + bit_n r) (Some (smap_desc b)) (Some 0) h)
         (\<lambda>(found, index, h1).
           if \<not> found then Inr (\<lparr>disp_succ = False, disp_presence_i = 0, disp_bucket_i = 0\<rparr>, disp', h1)
           else and_then (deref index) (\<lambda>index.
             Inr (\<lparr>disp_succ = True, disp_presence_i = of_nat i, disp_bucket_i = ucast index\<rparr>, disp', h1))))))"

section \<open>The ranges\<close>

lemma upt_4: "[0..<4] = [0, 1, 2, 3 :: nat]" and upt_3: "[0..<3] = [0, 1, 2 :: nat]"
  by code_simp+

lemma all_below_3: "(\<forall>i < 3. P i) \<longleftrightarrow> P 0 \<and> P 1 \<and> P (2 :: nat)"
  and all_below_4: "(\<forall>i < 4. P i) \<longleftrightarrow> P 0 \<and> P 1 \<and> P 2 \<and> P (3 :: nat)"
  by (auto simp: numeral_eq_Suc less_Suc_eq)

lemma length_4_obtain:
  assumes "length xs = 4"
  obtains a b c d where "xs = [a, b, c, d]"
proof -
  have four: "(4 :: nat) = Suc (Suc (Suc (Suc 0)))" by simp
  from assms show ?thesis unfolding four length_Suc_conv using that by auto
qed

lemma unat32: "n < 2 ^ 32 \<Longrightarrow> unat (of_nat n :: u32) = n"
  by (rule unat_of_nat_small) simp

text \<open>Sizes in bits: the exact rounding.\<close>

definition perc_round :: "u8 \<Rightarrow> nat \<Rightarrow> nat" where
  "perc_round p n = (unat p * n + 50) div 100"

lemma perc_round_le: "unat p \<le> 100 \<Longrightarrow> perc_round p n \<le> n"
proof -
  assume "unat p \<le> 100"
  then have "unat p * n \<le> 100 * n" by (rule mult_le_mono1)
  then show ?thesis unfolding perc_round_def by linarith
qed

lemma perc_round_pos: "0 < unat p \<Longrightarrow> 64 \<le> n \<Longrightarrow> 0 < perc_round p n"
proof -
  assume "0 < unat p" "64 \<le> n"
  then have "64 \<le> unat p * n" using mult_le_mono [of 1 "unat p" 64 n] by simp
  then show ?thesis by (simp add: perc_round_def)
qed

lemma perc_round_mono: "unat p \<le> unat q \<Longrightarrow> perc_round p n \<le> perc_round q n"
  unfolding perc_round_def by (intro div_le_mono add_le_mono1 mult_le_mono1)

lemma perc_bits_round: "perc_bits p (of_nat n) = of_nat (perc_round p n)" if "n < 2 ^ 32" for n
  using that unat_of_nat_small [of n, where 'a = 32] by (simp add: perc_bits_def perc_round_def)

text \<open>Four non-empty ranges that lie side by side, the last one at 0 and the first one up to \<open>n\<close>.\<close>

definition range_end :: "bitpool_prior_range \<Rightarrow> nat" where
  "range_end r = unat (bit_i r) + unat (bit_n r)"

definition ranges_tile :: "nat \<Rightarrow> bitpool_prior_range list \<Rightarrow> bool" where
  "ranges_tile n rs \<longleftrightarrow> length rs = 4 \<and> bit_i (rs ! 3) = 0 \<and> range_end (rs ! 0) = n \<and>
     range_end (rs ! 1) = unat (bit_i (rs ! 0)) \<and> range_end (rs ! 2) = unat (bit_i (rs ! 1)) \<and>
     range_end (rs ! 3) = unat (bit_i (rs ! 2)) \<and> (\<forall>r \<in> set rs. bit_n r \<noteq> 0)"

text \<open>A percentage descriptor that is not refused.\<close>

definition perc_ok :: "bitpool_perc_desc \<Rightarrow> bool" where
  "perc_ok perc \<longleftrightarrow> length perc = 4 \<and> unat (perc ! 0) + unat (perc ! 1) + unat (perc ! 2) + unat (perc ! 3) \<le> 100 \<and>
     perc ! 0 \<le> perc ! 3 \<and> perc ! 1 \<le> perc ! 3 \<and> perc ! 2 \<le> perc ! 3"

lemma perc_sum_unat:
  "unat (bitpool_perc_desc_sum p) = unat (p ! 0) + unat (p ! 1) + unat (p ! 2) + unat (p ! 3)"
proof -
  have b: "unat (x :: u8) < 256" for x using unsigned_less [of x, where 'a = nat] by simp
  have "bitpool_perc_desc_sum p = of_nat (unat (p ! 0) + unat (p ! 1) + unat (p ! 2) + unat (p ! 3))"
    by (simp add: bitpool_perc_desc_sum_def unsigned_ucast_eq)
  moreover have "unat (p ! 0) + unat (p ! 1) + unat (p ! 2) + unat (p ! 3) < 2 ^ 32"
    using b [of "p ! 0"] b [of "p ! 1"] b [of "p ! 2"] b [of "p ! 3"] by simp
  ultimately show ?thesis by (simp only: unat32)
qed

lemma perc_ok_passes:
  assumes "perc_ok perc"
  shows "\<not> 100 < bitpool_perc_desc_sum perc"
    "\<not> (perc ! 3 < perc ! 0 \<or> perc ! 3 < perc ! 1 \<or> perc ! 3 < perc ! 2)"
  using assms perc_sum_unat [of perc] by (auto simp: perc_ok_def word_less_nat_alt word_le_nat_alt)

text \<open>The loops over the four ranges, written out.\<close>

lemma range_loop_4:
  assumes "length rs = 4" "n < 2 ^ 32"
  shows "range_loop [p0, p1, p2, p3] (of_nat n) [0..<4] 0 rs =
    (let b0 = of_nat (perc_round p0 n); b1 = of_nat (perc_round p1 n);
         b2 = of_nat (perc_round p2 n); b3 = of_nat (perc_round p3 n)
     in Inr [(rs ! 0)\<lparr>bit_n := b0, bit_i := of_nat n - b0\<rparr>, (rs ! 1)\<lparr>bit_n := b1, bit_i := of_nat n - b1 - b0\<rparr>,
             (rs ! 2)\<lparr>bit_n := b2, bit_i := of_nat n - b2 - (b0 + b1)\<rparr>,
             (rs ! 3)\<lparr>bit_n := b3, bit_i := of_nat n - b3 - (b0 + b1 + b2)\<rparr>])"
proof -
  obtain r0 r1 r2 r3 where "rs = [r0, r1, r2, r3]" using assms(1) by (rule length_4_obtain)
  then show ?thesis by (simp add: upt_4 perc_bits_round [OF assms(2)] Let_def)
qed

lemma disp_fill_3:
  "disp_fill [0..<3] [r0, r1, r2, r3] =
    (if bit_n r0 = 0 \<or> bit_n r1 = 0 \<or> bit_n r2 = 0 then Inl Div_By_Zero
     else Inr [r0\<lparr>bit_disp := bit_n r3 div bit_n r0\<rparr>, r1\<lparr>bit_disp := bit_n r3 div bit_n r1\<rparr>,
               r2\<lparr>bit_disp := bit_n r3 div bit_n r2\<rparr>, r3])"
  by (simp add: upt_3)

lemma tile_word:
  assumes "b0 + b1 + b2 + b3 = n" "n < 2 ^ 32"
  shows "unat (of_nat b0 :: u32) = b0" "unat (of_nat b1 :: u32) = b1" "unat (of_nat b2 :: u32) = b2"
    "unat (of_nat b3 :: u32) = b3" "unat (of_nat n - of_nat b0 :: u32) = b1 + b2 + b3"
    "unat (of_nat n - of_nat b1 - of_nat b0 :: u32) = b2 + b3"
    "unat (of_nat n - of_nat b2 - (of_nat b0 + of_nat b1) :: u32) = b3"
    "of_nat n - of_nat b3 - (of_nat b0 + of_nat b1 + of_nat b2) = (0 :: u32)"
proof -
  have eq: "of_nat n - of_nat b0 = (of_nat (b1 + b2 + b3) :: u32)"
    "of_nat n - of_nat b1 - of_nat b0 = (of_nat (b2 + b3) :: u32)"
    "of_nat n - of_nat b2 - (of_nat b0 + of_nat b1) = (of_nat b3 :: u32)"
    unfolding assms(1) [symmetric] by simp_all
  show "unat (of_nat b0 :: u32) = b0" "unat (of_nat b1 :: u32) = b1" "unat (of_nat b2 :: u32) = b2"
    "unat (of_nat b3 :: u32) = b3" "unat (of_nat n - of_nat b0 :: u32) = b1 + b2 + b3"
    "unat (of_nat n - of_nat b1 - of_nat b0 :: u32) = b2 + b3"
    "unat (of_nat n - of_nat b2 - (of_nat b0 + of_nat b1) :: u32) = b3"
    unfolding eq using assms by (intro unat32; linarith)+
  show "of_nat n - of_nat b3 - (of_nat b0 + of_nat b1 + of_nat b2) = (0 :: u32)"
    unfolding assms(1) [symmetric] by simp
qed

lemma range_populate_result:
  assumes ok: "perc_ok perc" and len: "length rs = 4" and n: "64 * unat (smap_size s) < 2 ^ 32"
  defines "n \<equiv> 64 * unat (smap_size s)"
  defines "bits \<equiv> (\<lambda>i. of_nat (perc_round (perc ! i) n) :: u32)"
  shows "bitpool_range_populate (Some s) perc (Some rs) =
    (if bits 0 = 0 \<or> bits 1 = 0 \<or> bits 2 = 0 then Inl Div_By_Zero
     else Inr (AX_SUCC, Some
       [(rs ! 0)\<lparr>bit_n := bits 0, bit_i := of_nat n - bits 0, bit_disp := bits 3 div bits 0\<rparr>,
        (rs ! 1)\<lparr>bit_n := bits 1, bit_i := of_nat n - bits 1 - bits 0, bit_disp := bits 3 div bits 1\<rparr>,
        (rs ! 2)\<lparr>bit_n := bits 2, bit_i := of_nat n - bits 2 - (bits 0 + bits 1), bit_disp := bits 3 div bits 2\<rparr>,
        (rs ! 3)\<lparr>bit_n := bits 3, bit_i := of_nat n - bits 3 - (bits 0 + bits 1 + bits 2), bit_disp := 1\<rparr>]))"
proof -
  obtain p0 p1 p2 p3 where perc: "perc = [p0, p1, p2, p3]"
    using ok unfolding perc_ok_def by (metis length_4_obtain)
  have "smap_size s * 64 = of_nat n" unfolding n_def by simp
  then show ?thesis
    using perc_ok_passes [OF ok] range_loop_4 [OF len, of n p0 p1 p2 p3] n
    by (simp add: bitpool_range_populate_def perc bits_def n_def [symmetric] Let_def disp_fill_3)
qed

text \<open>When the rounded sizes add up to the size of the bitmap, the ranges tile it.\<close>

lemma range_populate_tiles:
  assumes "perc_ok perc" "length rs = 4" "64 * unat (smap_size s) < 2 ^ 32" "0 < smap_size s"
    and pos: "0 < perc ! 0" "0 < perc ! 1" "0 < perc ! 2"
    and sum: "perc_round (perc ! 0) n + perc_round (perc ! 1) n + perc_round (perc ! 2) n + perc_round (perc ! 3) n = n"
    and n: "n = 64 * unat (smap_size s)"
  shows "\<exists>rs'. bitpool_range_populate (Some s) perc (Some rs) = Inr (AX_SUCC, Some rs') \<and> ranges_tile n rs' \<and>
    (\<forall>i < 4. unat (bit_n (rs' ! i)) = perc_round (perc ! i) n) \<and>
    (\<forall>i < 3. unat (bit_disp (rs' ! i)) = perc_round (perc ! 3) n div perc_round (perc ! i) n) \<and> bit_disp (rs' ! 3) = 1"
proof -
  note res = range_populate_result [OF assms(1,2,3), folded n]
  have "64 \<le> n" using assms(4) by (simp add: n word_less_nat_alt)
  then have ppos: "0 < perc_round (perc ! i) n" if "0 < perc ! i" for i
    using that perc_round_pos [of "perc ! i" n] by (simp add: word_less_nat_alt)
  have "0 < perc ! 3" using assms(1) pos(1) unfolding perc_ok_def by (simp add: word_le_nat_alt word_less_nat_alt)
  note pos = ppos [OF pos(1)] ppos [OF pos(2)] ppos [OF pos(3)] ppos [OF this]
  note un = tile_word [OF sum, unfolded n, OF assms(3), folded n]
  have nonzero: "w \<noteq> 0" if "unat w = b" "0 < b" for w :: u32 and b using that by auto
  note nz = nonzero [OF un(1) pos(1)] nonzero [OF un(2) pos(2)] nonzero [OF un(3) pos(3)] nonzero [OF un(4) pos(4)]
  show ?thesis
    unfolding res using nz sum
    by (simp add: ranges_tile_def range_end_def un unat_div all_below_4 all_below_3 del: One_nat_def)
qed

lemma default_sum:
  assumes "n = 64 * (m :: nat)"
  shows "(10 * n + 50) div 100 + (15 * n + 50) div 100 + (25 * n + 50) div 100 + (50 * n + 50) div 100 = n"
proof -
  have "(25 * n + 50) div 100 = 16 * m" "(50 * n + 50) div 100 = 32 * m" using assms by simp_all
  moreover have "(10 * n + 50) div 100 + (15 * n + 50) div 100 = 16 * m"
  proof -
    obtain a r where m: "m = 5 * a + r" "r < 5" by (metis mod_less_divisor mult_div_mod_eq zero_less_numeral)
    have split: "10 * (64 * (5 * a + r)) + 50 = (640 * r + 50) + 100 * (32 * a)"
      "15 * (64 * (5 * a + r)) + 50 = (960 * r + 50) + 100 * (48 * a)" by simp_all
    have out: "(c + 100 * d) div 100 = d + c div 100" for c d :: nat by (rule div_mult_self2) simp
    from m(2) consider "r = 0" | "r = 1" | "r = 2" | "r = 3" | "r = 4" by linarith
    then show ?thesis unfolding assms m(1) split out by cases simp_all
  qed
  ultimately show ?thesis using assms by simp
qed

text \<open>Membership of an index in a range, and what a tiling gives.\<close>

definition range_mem :: "bitpool_prior_range \<Rightarrow> nat \<Rightarrow> bool" where
  "range_mem r j \<longleftrightarrow> unat (bit_i r) \<le> j \<and> j < range_end r"

lemma tile_rules:
  assumes "ranges_tile n rs"
  obtains r0 r1 r2 r3 where "rs = [r0, r1, r2, r3]" "bit_i r3 = 0" "range_end r0 = n"
    "range_end r1 = unat (bit_i r0)" "range_end r2 = unat (bit_i r1)" "range_end r3 = unat (bit_i r2)"
    "0 < bit_n r0" "0 < bit_n r1" "0 < bit_n r2" "0 < bit_n r3"
proof -
  have "length rs = 4" using assms by (simp add: ranges_tile_def)
  then obtain r0 r1 r2 r3 where "rs = [r0, r1, r2, r3]" by (rule length_4_obtain)
  then show ?thesis using assms that by (simp add: ranges_tile_def word_neq_0_conv)
qed

lemma less_4_cases: "i < (4 :: nat) \<Longrightarrow> i = 0 \<or> i = 1 \<or> i = 2 \<or> i = 3"
  by linarith

lemma tile_range:
  assumes "ranges_tile n rs" "i < 4"
  shows "range_end (rs ! i) \<le> n" "bit_n (rs ! i) \<noteq> 0" "unat (bit_i (rs ! i)) < range_end (rs ! i)"
proof -
  have unat_pos: "0 < unat w" if "0 < w" for w :: u32 using that by (simp add: word_less_nat_alt)
  have bounds: "range_end r = unat (bit_i r) + unat (bit_n r)" for r by (simp add: range_end_def)
  from assms(1) obtain r0 r1 r2 r3 where rs: "rs = [r0, r1, r2, r3]" and
    t: "bit_i r3 = 0" "range_end r0 = n" "range_end r1 = unat (bit_i r0)" "range_end r2 = unat (bit_i r1)"
      "range_end r3 = unat (bit_i r2)" and pos: "0 < bit_n r0" "0 < bit_n r1" "0 < bit_n r2" "0 < bit_n r3" by (rule tile_rules)
  show "range_end (rs ! i) \<le> n" using less_4_cases [OF assms(2)] t bounds [of r0] bounds [of r1] bounds [of r2]
    by (auto simp: rs)
  show "bit_n (rs ! i) \<noteq> 0" using less_4_cases [OF assms(2)] pos by (auto simp: rs)
  show "unat (bit_i (rs ! i)) < range_end (rs ! i)"
    using less_4_cases [OF assms(2)] unat_pos [OF pos(1)] unat_pos [OF pos(2)] unat_pos [OF pos(3)] unat_pos [OF pos(4)]
    by (auto simp: rs bounds)
qed

lemma tile_presence:
  assumes "ranges_tile n rs" "unat index < n" "i < 4"
  shows "presence_loop rs index [0..<4] = Inr i \<longleftrightarrow> range_mem (rs ! i) (unat index)"
proof -
  from assms(1) obtain r0 r1 r2 r3 where rs: "rs = [r0, r1, r2, r3]" and
    t: "bit_i r3 = 0" "range_end r0 = n" "range_end r1 = unat (bit_i r0)" "range_end r2 = unat (bit_i r1)"
      "range_end r3 = unat (bit_i r2)" and pos: "0 < bit_n r0" "0 < bit_n r1" "0 < bit_n r2" "0 < bit_n r3" by (rule tile_rules)
  have le: "unat (bit_i r0) \<le> n" "unat (bit_i r1) \<le> unat (bit_i r0)" "unat (bit_i r2) \<le> unat (bit_i r1)"
    using t by (auto simp: range_end_def)
  have "presence_loop rs index [0..<4] =
    Inr (if unat (bit_i r0) \<le> unat index then 0 else if unat (bit_i r1) \<le> unat index then 1
         else if unat (bit_i r2) \<le> unat index then 2 else 3)"
    using t(1) pos by (simp add: upt_4 rs word_le_nat_alt)
  then show ?thesis
    using less_4_cases [OF assms(3)] assms(2) t le by (auto simp: rs range_mem_def split: if_splits)
qed

lemma tile_covers:
  assumes "ranges_tile n rs" "j < n"
  shows "\<exists>!i. i < 4 \<and> range_mem (rs ! i) j"
proof -
  from assms(1) obtain r0 r1 r2 r3 where rs: "rs = [r0, r1, r2, r3]" and
    t: "bit_i r3 = 0" "range_end r0 = n" "range_end r1 = unat (bit_i r0)" "range_end r2 = unat (bit_i r1)"
      "range_end r3 = unat (bit_i r2)" and pos: "0 < bit_n r0" "0 < bit_n r1" "0 < bit_n r2" "0 < bit_n r3" by (rule tile_rules)
  have le: "unat (bit_i r0) \<le> n" "unat (bit_i r1) \<le> unat (bit_i r0)" "unat (bit_i r2) \<le> unat (bit_i r1)"
    using t by (auto simp: range_end_def)
  let ?i = "if unat (bit_i r0) \<le> j then 0 else if unat (bit_i r1) \<le> j then 1 else if unat (bit_i r2) \<le> j then 2 else (3 :: nat)"
  have "range_mem (rs ! i) j \<longleftrightarrow> i = ?i" if "i < 4" for i
    using less_4_cases [OF that] assms(2) t le by (auto simp: rs range_mem_def split: if_splits)
  then show ?thesis by (intro ex1I [of _ ?i]) (auto split: if_splits)
qed

section \<open>Well-formed pools\<close>

text \<open>Bucket \<open>j\<close> of a bucket array.\<close>

definition chunk :: "nat \<Rightarrow> 'a list \<Rightarrow> nat \<Rightarrow> 'a list" where
  "chunk sz m j = take sz (drop (sz * j) m)"

definition bucket_at :: "bitpool_desc \<Rightarrow> nat \<Rightarrow> u8 list" where
  "bucket_at b j = chunk (unat (bucket_size b)) (the (bucket_base b)) j"

lemma take_drop_append: "a + s \<le> length xs \<Longrightarrow> take s (drop a (xs @ ys)) = take s (drop a xs)"
  by simp

lemma chunk_write:
  assumes "length bs = sz" "sz * Suc i \<le> length m" "sz * Suc j \<le> length m"
  shows "chunk sz (take (sz * i) m @ bs @ drop (sz * i + sz) m) j = (if j = i then bs else chunk sz m j)"
proof (cases rule: linorder_cases [of j i])
  case less
  then have "sz * Suc j \<le> sz * i" by (metis Suc_leI mult_le_mono2)
  then have le: "sz * j + sz \<le> sz * i" by simp
  moreover have "sz * i \<le> length m" using assms(2) by simp
  ultimately have "take sz (drop (sz * j) (take (sz * i) m @ bs @ drop (sz * i + sz) m)) =
      take sz (drop (sz * j) (take (sz * i) m))"
    by (intro take_drop_append) simp
  also have "\<dots> = take sz (drop (sz * j) m)" using le by (simp add: drop_take)
  finally show ?thesis using less by (simp add: chunk_def)
next
  case equal
  with assms show ?thesis by (simp add: chunk_def)
next
  case greater
  then have "sz * Suc i \<le> sz * j" by (metis Suc_leI mult_le_mono2)
  then obtain d where d: "sz * j = sz * i + sz + d" by (metis le_Suc_ex mult_Suc_right add.commute)
  have "length (take (sz * i) m) = sz * i" using assms(2) by simp
  then have "drop (sz * j) (take (sz * i) m @ bs @ drop (sz * i + sz) m) = drop (sz * j) m"
    unfolding d using assms(1) by (simp del: drop_drop) (simp add: add.commute)
  with greater show ?thesis by (simp add: chunk_def)
qed

lemma buf_write_chunk:
  assumes "length bs = sz" "length m = sz * n" "i < n"
  shows "\<exists>m'. buf_write m (sz * i) bs = Inr m' \<and> length m' = sz * n \<and>
    (\<forall>j < n. chunk sz m' j = (if j = i then bs else chunk sz m j))"
proof -
  have le: "sz * Suc j \<le> length m" if "j < n" for j
    unfolding assms(2) using that by (intro mult_le_mono2) simp
  have w: "buf_write m (sz * i) bs = Inr (take (sz * i) m @ bs @ drop (sz * i + sz) m)"
    using le [OF assms(3)] assms(1) by (simp add: buf_write_def)
  then show ?thesis
    using buf_write_length [OF w] assms(2) chunk_write [OF assms(1) le [OF assms(3)] le] by simp
qed

definition pool_ok :: "bitpool_desc \<Rightarrow> map_heap \<Rightarrow> nat \<Rightarrow> u64 list \<Rightarrow> bool" where
  "pool_ok b h p qs \<longleftrightarrow> smap_at h (smap_desc b) p qs \<and> 64 * length qs = unat (bucket_count b) \<and>
     ranges_tile (unat (bucket_count b)) (ranges b) \<and> length (presence b) = 4 \<and>
     qload b = bitpool_bucket_func_of (bucket_size b) \<and>
     unat (bucket_size b) * unat (bucket_count b) < 2 ^ 32 \<and>
     (\<exists>base. bucket_base b = Some base \<and> length base = unat (bucket_size b) * unat (bucket_count b))"

text \<open>Each presence counter counts the signaled indices of its range.\<close>

definition range_used :: "u64 list \<Rightarrow> bitpool_prior_range \<Rightarrow> nat set" where
  "range_used qs r = {j. range_mem r j \<and> signaled qs j}"

definition counts_ok :: "bitpool_desc \<Rightarrow> u64 list \<Rightarrow> bool" where
  "counts_ok b qs \<longleftrightarrow> (\<forall>i < 4. unat (presence b ! i) = card (range_used qs (ranges b ! i)))"

lemma range_used_finite [simp]: "finite (range_used qs r)"
  by (rule finite_subset [of _ "{..<range_end r}"]) (auto simp: range_used_def range_mem_def)

text \<open>The vector stores of the library write the bytes they are given.\<close>

definition simd_copies :: "simd_store \<Rightarrow> bool" where
  "simd_copies simd \<longleftrightarrow> (\<forall>src. simd (length src) src = src)"

lemma bucket_bytes_copy:
  assumes "simd_copies simd" "length bytes = unat sz"
  shows "bucket_bytes simd (bitpool_bucket_func_of sz) bytes sz = Inr bytes"
proof -
  have "simd n bytes = bytes" if "unat sz = n" for n
    using assms that by (metis simd_copies_def)
  from this [of 16] this [of 32] this [of 64] show ?thesis
    using assms(2) by (auto simp: bucket_bytes_def bitpool_bucket_func_of_def buf_read_def)
qed

lemma pool_range:
  assumes "pool_ok b h p qs" "i < 4"
  shows "length (ranges b) = 4" "range_end (ranges b ! i) \<le> 64 * length qs" "bit_n (ranges b ! i) \<noteq> 0"
    "unat (bit_i (ranges b ! i) + bit_n (ranges b ! i)) = range_end (ranges b ! i)"
proof -
  from assms have t: "ranges_tile (64 * length qs) (ranges b)" and c: "64 * length qs = unat (bucket_count b)"
    by (simp_all add: pool_ok_def)
  show "length (ranges b) = 4" using t by (simp add: ranges_tile_def)
  show "bit_n (ranges b ! i) \<noteq> 0" using tile_range [OF t assms(2)] by simp
  show le: "range_end (ranges b ! i) \<le> 64 * length qs" using tile_range [OF t assms(2)] by simp
  then have "range_end (ranges b ! i) < 2 ^ 32"
    using c unsigned_less [of "bucket_count b", where 'a = nat] by simp
  then show "unat (bit_i (ranges b ! i) + bit_n (ranges b ! i)) = range_end (ranges b ! i)"
    by (simp add: range_end_def unat_word_ariths)
qed

lemma prior_index_less: "prior_index pr = Inr i \<Longrightarrow> i < 4"
  by (cases pr) auto

text \<open>The first free index of the range of a priority.\<close>

definition first_free :: "bitpool_desc \<Rightarrow> u64 list \<Rightarrow> nat \<Rightarrow> nat option" where
  "first_free b qs i =
    find (\<lambda>j. \<not> signaled qs j) [unat (bit_i (ranges b ! i))..<range_end (ranges b ! i)]"

definition first_used :: "bitpool_desc \<Rightarrow> u64 list \<Rightarrow> nat \<Rightarrow> nat option" where
  "first_used b qs i = find (signaled qs) [unat (bit_i (ranges b ! i))..<range_end (ranges b ! i)]"

lemma first_free_Some:
  "first_free b qs i = Some j \<longleftrightarrow> range_mem (ranges b ! i) j \<and> \<not> signaled qs j \<and>
    (\<forall>k < j. range_mem (ranges b ! i) k \<longrightarrow> signaled qs k)"
  by (auto simp: first_free_def find_upt_Some range_mem_def)

lemma pool_sig_first:
  assumes "pool_ok b h p qs" "i < 4"
  shows "sync_map_sig_first (bit_i (ranges b ! i)) (bit_i (ranges b ! i) + bit_n (ranges b ! i)) (Some (smap_desc b)) (Some 0) h =
    Inr (case first_free b qs i of Some j \<Rightarrow> (True, Some (of_nat j), h(p \<mapsto> set_sig qs j)) | None \<Rightarrow> (False, Some 0, h))"
proof -
  have at: "smap_at h (smap_desc b) p qs" using assms(1) by (simp add: pool_ok_def)
  show ?thesis
    unfolding sig_first_finds [OF at] claimed_alt pool_range(4) [OF assms] first_free_def
    using pool_range(2) [OF assms] by (simp add: min_absorb1 split: option.split)
qed

section \<open>Loading\<close>

lemma pool_bucket_offset:
  assumes "pool_ok b h p qs" "j < 64 * length qs"
  shows "unat (of_nat j :: u32) = j"
    "bitpool_index_to_bucket b (of_nat j) = Inr (unat (bucket_size b) * j)"
proof -
  have c: "64 * length qs = unat (bucket_count b)" and m: "unat (bucket_size b) * unat (bucket_count b) < 2 ^ 32"
    using assms(1) by (simp_all add: pool_ok_def)
  have j: "j < unat (bucket_count b)" using assms(2) c by simp
  then have "j < 2 ^ 32" using unsigned_less [of "bucket_count b", where 'a = nat] by simp
  then show un: "unat (of_nat j :: u32) = j" by (rule unat32)
  have "unat (bucket_size b) * j < 2 ^ 32"
    using m j by (intro le_less_trans [OF mult_le_mono2 [of j "unat (bucket_count b)"]]) simp_all
  then have "unat (bucket_size b * of_nat j) = unat (bucket_size b) * j"
    by (simp add: unat_word_ariths un)
  then show "bitpool_index_to_bucket b (of_nat j) = Inr (unat (bucket_size b) * j)"
    using j by (simp add: bitpool_index_to_bucket_def word_less_nat_alt un)
qed

text \<open>What a successful load leaves: the pool \<open>b'\<close> after bytes were loaded into bucket \<open>j\<close> of range \<open>i\<close>.\<close>

definition loaded :: "bitpool_desc \<Rightarrow> nat \<Rightarrow> nat \<Rightarrow> u8 list \<Rightarrow> bitpool_desc \<Rightarrow> bool" where
  "loaded b i j bytes b' \<longleftrightarrow>
     presence b' = (presence b)[i := presence b ! i + 1] \<and>
     bucket_count b' = bucket_count b \<and> bucket_size b' = bucket_size b \<and> ranges b' = ranges b \<and>
     qload b' = qload b \<and> smap_desc b' = smap_desc b \<and>
     (\<forall>k < unat (bucket_count b). bucket_at b' k = (if k = j then bytes else bucket_at b k))"

lemma prior_load_result:
  assumes ok: "pool_ok b h p qs" and simd: "simd_copies simd" and len: "length bytes = unat (bucket_size b)"
    and i: "prior_index pr = Inr i"
  shows "bitpool_prior_load simd (Some b) (Some bytes) pr h =
      (case first_free b qs i of None \<Rightarrow> Inl Diverges | Some j \<Rightarrow> bitpool_prior_load simd (Some b) (Some bytes) pr h)"
    and "first_free b qs i = Some j \<Longrightarrow>
      \<exists>b'. bitpool_prior_load simd (Some b) (Some bytes) pr h =
          Inr (\<lparr>load_code = AX_SUCC, load_index = of_nat j\<rparr>, Some b', h(p \<mapsto> set_sig qs j)) \<and>
        loaded b i j bytes b' \<and> pool_ok b' (h(p \<mapsto> set_sig qs j)) p (set_sig qs j)"
proof -
  have i4: "i < 4" using i by (rule prior_index_less)
  note r = pool_range [OF ok i4]
  have prior: "bitpool_prior_to_presence (Some b) pr = Inr i" by (simp add: bitpool_prior_to_presence_def i)
  have arr_r: "arr (ranges b) i = Inr (ranges b ! i)" using r(1) i4 by simp
  note sig = pool_sig_first [OF ok i4]
  show "bitpool_prior_load simd (Some b) (Some bytes) pr h =
      (case first_free b qs i of None \<Rightarrow> Inl Diverges | Some j \<Rightarrow> bitpool_prior_load simd (Some b) (Some bytes) pr h)"
    by (cases "first_free b qs i") (simp_all add: bitpool_prior_load_def prior arr_r r(3) sig)
  assume free: "first_free b qs i = Some j"
  then have j: "j < 64 * length qs" using r(2) by (auto simp: first_free_Some range_mem_def)
  obtain base where base: "bucket_base b = Some base" "length base = unat (bucket_size b) * unat (bucket_count b)"
    and c: "64 * length qs = unat (bucket_count b)" and pres: "length (presence b) = 4"
    and func: "qload b = bitpool_bucket_func_of (bucket_size b)" and at: "smap_at h (smap_desc b) p qs"
    using ok by (auto simp: pool_ok_def)
  from buf_write_chunk [OF len base(2), of j] j c obtain m' where
    m': "buf_write base (unat (bucket_size b) * j) bytes = Inr m'" "length m' = length base"
      "\<forall>k < unat (bucket_count b). chunk (unat (bucket_size b)) m' k =
        (if k = j then bytes else chunk (unat (bucket_size b)) base k)" using base(2) by auto
  let ?b' = "b\<lparr>bucket_base := Some m', presence := (presence b)[i := presence b ! i + 1]\<rparr>"
  have "bitpool_prior_load simd (Some b) (Some bytes) pr h =
      Inr (\<lparr>load_code = AX_SUCC, load_index = of_nat j\<rparr>, Some ?b', h(p \<mapsto> set_sig qs j))"
    using m'(1) pres i4
    by (simp add: bitpool_prior_load_def prior arr_r r(3) sig free pool_bucket_offset [OF ok j] func
        bucket_bytes_copy [OF simd len] base(1))
  moreover have "loaded b i j bytes ?b'" using m'(3) by (simp add: loaded_def bucket_at_def base(1))
  moreover have "pool_ok ?b' (h(p \<mapsto> set_sig qs j)) p (set_sig qs j)"
    using ok m'(2) base smap_at_update [OF at] by (simp add: pool_ok_def)
  ultimately show "\<exists>b'. bitpool_prior_load simd (Some b) (Some bytes) pr h =
          Inr (\<lparr>load_code = AX_SUCC, load_index = of_nat j\<rparr>, Some b', h(p \<mapsto> set_sig qs j)) \<and>
        loaded b i j bytes b' \<and> pool_ok b' (h(p \<mapsto> set_sig qs j)) p (set_sig qs j)" by blast
qed

lemma range_used_set:
  assumes "j < 64 * length qs" "range_end r \<le> 64 * length qs"
  shows "range_used (set_sig qs j) r = (if range_mem r j then insert j (range_used qs r) else range_used qs r)"
    and "range_used (clear_sig qs j) r = range_used qs r - {j}"
  using assms by (auto simp: range_used_def range_mem_def signaled_set_sig)

lemma range_used_card_less:
  assumes "range_mem r j" "\<not> signaled qs j" "range_end r < 2 ^ 32"
  shows "card (range_used qs r) < 2 ^ 32 - 1"
proof -
  have "range_used qs r \<subseteq> {..<range_end r} - {j}" using assms by (auto simp: range_used_def range_mem_def)
  then have "card (range_used qs r) \<le> card ({..<range_end r} - {j})" by (intro card_mono) auto
  also have "\<dots> = range_end r - 1" using assms(1) by (simp add: range_mem_def)
  finally show ?thesis using assms(3) assms(1) by (simp add: range_mem_def)
qed

text \<open>A load keeps the counters exact.\<close>

lemma loaded_counts:
  assumes "pool_ok b h p qs" "counts_ok b qs" "loaded b i j bytes b'" "i < 4"
    and "range_mem (ranges b ! i) j" "\<not> signaled qs j"
  shows "counts_ok b' (set_sig qs j)"
proof -
  have t: "ranges_tile (64 * length qs) (ranges b)" and c: "64 * length qs = unat (bucket_count b)"
    and pres: "length (presence b) = 4" using assms(1) by (simp_all add: pool_ok_def)
  have j: "j < 64 * length qs" using assms(5) pool_range(2) [OF assms(1,4)] by (simp add: range_mem_def)
  have only: "range_mem (ranges b ! k) j \<longleftrightarrow> k = i" if "k < 4" for k
    using tile_covers [OF t j] assms(4,5) that by blast
  have small: "range_end (ranges b ! i) < 2 ^ 32"
    using pool_range(2) [OF assms(1,4)] c unsigned_less [of "bucket_count b", where 'a = nat] by simp
  have "unat (presence b ! i + 1) = card (insert j (range_used qs (ranges b ! i)))"
  proof -
    have "j \<notin> range_used qs (ranges b ! i)" using assms(6) by (simp add: range_used_def)
    then show ?thesis
      using assms(2,4) range_used_card_less [OF assms(5,6) small]
      by (simp add: counts_ok_def unat_word_ariths)
  qed
  then show ?thesis
    using assms(2,3,4) only pres pool_range(2) [OF assms(1)]
    by (auto simp: counts_ok_def loaded_def range_used_set [OF j] nth_list_update)
qed

section \<open>Unloading\<close>

lemma pool_range_of:
  assumes "pool_ok b h p qs" "j < 64 * length qs"
  obtains i where "i < 4" "range_mem (ranges b ! i) j" "\<And>k. k < 4 \<Longrightarrow> range_mem (ranges b ! k) j \<longleftrightarrow> k = i"
    "bitpool_index_to_presence (Some b) (of_nat j) = Inr i"
proof -
  have t: "ranges_tile (64 * length qs) (ranges b)" and c: "64 * length qs = unat (bucket_count b)"
    using assms(1) by (simp_all add: pool_ok_def)
  from tile_covers [OF t assms(2)] obtain i where i: "i < 4" "range_mem (ranges b ! i) j"
    and only: "\<And>k. k < 4 \<Longrightarrow> range_mem (ranges b ! k) j \<Longrightarrow> k = i" by blast
  note un = pool_bucket_offset(1) [OF assms]
  have "presence_loop (ranges b) (of_nat j) [0..<4] = Inr i"
    using tile_presence [OF t _ i(1), of "of_nat j"] assms(2) i(2) by (simp add: un)
  moreover have "(of_nat j :: u32) < bucket_count b" using assms(2) c by (simp add: word_less_nat_alt un)
  ultimately have "bitpool_index_to_presence (Some b) (of_nat j) = Inr i" by (simp add: bitpool_index_to_presence_def)
  with that i only show ?thesis by blast
qed

lemma prior_unload_result:
  assumes ok: "pool_ok b h p qs" and i: "i < 4" "range_mem (ranges b ! i) j"
  defines "b' \<equiv> b\<lparr>presence := (presence b)[i := presence b ! i - 1]\<rparr>"
  shows "bitpool_prior_unload (Some b) (of_nat j) h = Inr (Some b', h(p \<mapsto> clear_sig qs j))"
    and "pool_ok b' (h(p \<mapsto> clear_sig qs j)) p (clear_sig qs j)"
    and "counts_ok b qs \<Longrightarrow> signaled qs j \<Longrightarrow> counts_ok b' (clear_sig qs j)"
proof -
  have c: "64 * length qs = unat (bucket_count b)" and pres: "length (presence b) = 4"
    and at: "smap_at h (smap_desc b) p qs" using ok by (simp_all add: pool_ok_def)
  have j: "j < 64 * length qs" using i(2) pool_range(2) [OF ok i(1)] by (simp add: range_mem_def)
  note un = pool_bucket_offset(1) [OF ok j]
  obtain k where "\<And>k'. k' < 4 \<Longrightarrow> range_mem (ranges b ! k') j \<longleftrightarrow> k' = k"
    and idx: "bitpool_index_to_presence (Some b) (of_nat j) = Inr k" using pool_range_of [OF ok j] by metis
  then have only: "\<And>k'. k' < 4 \<Longrightarrow> range_mem (ranges b ! k') j \<longleftrightarrow> k' = i" using i by auto
  then have "k = i" using \<open>\<And>k'. k' < 4 \<Longrightarrow> range_mem (ranges b ! k') j \<longleftrightarrow> k' = k\<close> i by auto
  moreover have "\<not> bucket_count b \<le> of_nat j" using j c by (simp add: word_le_nat_alt un)
  ultimately show "bitpool_prior_unload (Some b) (of_nat j) h = Inr (Some b', h(p \<mapsto> clear_sig qs j))"
    using sync_map_signals(2) [OF at, of "of_nat j"] j idx pres i(1)
    by (simp add: bitpool_prior_unload_def un b'_def)
  show "pool_ok b' (h(p \<mapsto> clear_sig qs j)) p (clear_sig qs j)"
    using ok smap_at_update [OF at] by (simp add: pool_ok_def b'_def)
  assume cnt: "counts_ok b qs" and sig: "signaled qs j"
  then have "j \<in> range_used qs (ranges b ! i)" using i(2) by (simp add: range_used_def)
  then have "unat (presence b ! i - 1) = card (range_used qs (ranges b ! i) - {j})"
    using cnt i(1) card_gt_0_iff [of "range_used qs (ranges b ! i)"]
    by (auto simp: counts_ok_def unat_minus_one simp flip: unat_gt_0)
  moreover have "range_used qs (ranges b ! k) - {j} = range_used qs (ranges b ! k)" if "k < 4" "k \<noteq> i" for k
    using only [of k] that by (auto simp: range_used_def)
  ultimately show "counts_ok b' (clear_sig qs j)"
    using cnt pres pool_range(2) [OF ok] i(1)
    by (auto simp: counts_ok_def b'_def range_used_set [OF j] nth_list_update)
qed

text \<open>
  The priority the disposition loop stops at when all counters are 0: the first one that has used
  buckets, or the last one.
\<close>

definition top_prior :: "bitpool_desc \<Rightarrow> nat" where
  "top_prior b = (if 0 < presence b ! 0 then 0 else if 0 < presence b ! 1 then 1 else if 0 < presence b ! 2 then 2 else 3)"

lemma top_prior_less [simp]: "top_prior b < 4"
  by (simp add: top_prior_def)

lemma disp_loop_zero:
  assumes "pool_ok b h p qs" "\<forall>i < 3. 0 < bit_disp (ranges b ! i)"
  shows "disp_loop b [0, 0, 0, 0] [0..<3] = Inr (top_prior b, [0, 0, 0, 0])"
proof -
  have "length (presence b) = 4" "length (ranges b) = 4" using assms(1) by (simp_all add: pool_ok_def ranges_tile_def)
  then show ?thesis using assms(2) by (simp add: upt_3 all_below_3 top_prior_def)
qed

lemma pool_unsig_first:
  assumes "pool_ok b h p qs" "i < 4"
  shows "sync_map_unsig_first (bit_i (ranges b ! i)) (bit_i (ranges b ! i) + bit_n (ranges b ! i)) (Some (smap_desc b)) (Some 0) h =
    Inr (case find (signaled qs) [unsig_start qs (unat (bit_i (ranges b ! i)))..<range_end (ranges b ! i)] of
           Some j \<Rightarrow> (True, Some (of_nat j), h(p \<mapsto> clear_sig qs j)) | None \<Rightarrow> (False, Some 0, h))"
proof -
  have at: "smap_at h (smap_desc b) p qs" using assms(1) by (simp add: pool_ok_def)
  show ?thesis
    unfolding unsig_first_finds [OF at] claimed_alt pool_range(4) [OF assms]
    using pool_range(2) [OF assms] by (simp add: min_absorb1 split: option.split)
qed

lemma unload_disp_result:
  assumes ok: "pool_ok b h p qs" and disp: "\<forall>i < 3. 0 < bit_disp (ranges b ! i)"
  defines "r \<equiv> ranges b ! top_prior b"
  shows "bitpool_prior_unload_disp (Some b) [0, 0, 0, 0] h =
    Inr (case find (signaled qs) [unsig_start qs (unat (bit_i r))..<range_end r] of
           Some j \<Rightarrow> (\<lparr>disp_succ = True, disp_presence_i = of_nat (top_prior b), disp_bucket_i = of_nat j\<rparr>,
                       [0, 0, 0, 0], h(p \<mapsto> clear_sig qs j))
         | None \<Rightarrow> (\<lparr>disp_succ = False, disp_presence_i = 0, disp_bucket_i = 0\<rparr>, [0, 0, 0, 0], h))"
proof -
  have len: "length (ranges b) = 4" using ok by (simp add: pool_ok_def ranges_tile_def)
  have "ucast (of_nat j :: u32) = (of_nat j :: u8)" for j
    by (rule bit_word_eqI) (auto simp: bit_simps)
  then show ?thesis
    unfolding r_def using len pool_unsig_first [OF ok top_prior_less]
    by (simp add: bitpool_prior_unload_disp_def disp_loop_zero [OF ok disp] split: option.split)
qed

section \<open>Pools as providers of slots\<close>

text \<open>A client that loads the bytes \<open>load_bytes\<close> at one priority.\<close>

record loader =
  load_pool :: bitpool_desc
  load_heap :: map_heap
  load_prior :: mte_prior
  load_bytes :: "u8 list"
  load_simd :: simd_store

definition loader_quads :: "loader \<Rightarrow> u64 list" where
  "loader_quads s = the (load_heap s (the (smap_map (smap_desc (load_pool s)))))"

definition loader_range :: "loader \<Rightarrow> nat" where
  "loader_range s = (case prior_index (load_prior s) of Inr i \<Rightarrow> i | Inl _ \<Rightarrow> 0)"

definition loader_ok :: "loader \<Rightarrow> bool" where
  "loader_ok s \<longleftrightarrow>
     pool_ok (load_pool s) (load_heap s) (the (smap_map (smap_desc (load_pool s)))) (loader_quads s) \<and>
     simd_copies (load_simd s) \<and> length (load_bytes s) = unat (bucket_size (load_pool s)) \<and>
     prior_index (load_prior s) = Inr (loader_range s)"

definition loader_slots :: "loader \<Rightarrow> nat set" where
  "loader_slots s = {j. range_mem (ranges (load_pool s) ! loader_range s) j}"

definition loader_free :: "loader \<Rightarrow> nat set" where
  "loader_free s = {j \<in> loader_slots s. \<not> signaled (loader_quads s) j}"

definition loader_claim :: "loader \<Rightarrow> (nat \<times> loader) option" where
  "loader_claim s =
    (case bitpool_prior_load (load_simd s) (Some (load_pool s)) (Some (load_bytes s)) (load_prior s) (load_heap s) of
       Inr (r, Some b, h) \<Rightarrow> if load_code r = AX_SUCC then Some (unat (load_index r), s\<lparr>load_pool := b, load_heap := h\<rparr>) else None
     | _ \<Rightarrow> None)"

definition loader_release :: "nat \<Rightarrow> loader \<Rightarrow> loader" where
  "loader_release j s =
    (case bitpool_prior_unload (Some (load_pool s)) (of_nat j) (load_heap s) of
       Inr (Some b, h) \<Rightarrow> s\<lparr>load_pool := b, load_heap := h\<rparr> | _ \<Rightarrow> s)"

lemma loader_okD:
  assumes "loader_ok s"
  shows "loader_range s < 4" "range_end (ranges (load_pool s) ! loader_range s) \<le> 64 * length (loader_quads s)"
proof -
  show "loader_range s < 4" using assms prior_index_less by (auto simp: loader_ok_def)
  then show "range_end (ranges (load_pool s) ! loader_range s) \<le> 64 * length (loader_quads s)"
    using assms pool_range(2) by (auto simp: loader_ok_def)
qed

lemma loader_claim_result:
  assumes "loader_ok s"
  defines "p \<equiv> the (smap_map (smap_desc (load_pool s)))"
  shows "first_free (load_pool s) (loader_quads s) (loader_range s) = None \<Longrightarrow> loader_claim s = None"
    and "first_free (load_pool s) (loader_quads s) (loader_range s) = Some j \<Longrightarrow>
      \<exists>s'. loader_claim s = Some (j, s') \<and> loader_ok s' \<and> loader_range s' = loader_range s \<and>
        ranges (load_pool s') = ranges (load_pool s) \<and> loader_quads s' = set_sig (loader_quads s) j \<and>
        loaded (load_pool s) (loader_range s) j (load_bytes s) (load_pool s') \<and> load_bytes s' = load_bytes s"
proof -
  have ok: "pool_ok (load_pool s) (load_heap s) p (loader_quads s)" and simd: "simd_copies (load_simd s)"
    and len: "length (load_bytes s) = unat (bucket_size (load_pool s))"
    and pr: "prior_index (load_prior s) = Inr (loader_range s)"
    using assms by (simp_all add: loader_ok_def)
  note load = prior_load_result [OF ok simd len pr]
  show "first_free (load_pool s) (loader_quads s) (loader_range s) = None \<Longrightarrow> loader_claim s = None"
    using load(1) by (simp add: loader_claim_def)
  assume free: "first_free (load_pool s) (loader_quads s) (loader_range s) = Some j"
  then have "j < 64 * length (loader_quads s)"
    using loader_okD [OF assms(1)] by (auto simp: first_free_Some range_mem_def)
  note un = pool_bucket_offset(1) [OF ok this]
  obtain b' where b': "bitpool_prior_load (load_simd s) (Some (load_pool s)) (Some (load_bytes s)) (load_prior s) (load_heap s) =
      Inr (\<lparr>load_code = AX_SUCC, load_index = of_nat j\<rparr>, Some b', (load_heap s)(p \<mapsto> set_sig (loader_quads s) j))"
    and l: "loaded (load_pool s) (loader_range s) j (load_bytes s) b'"
    and ok': "pool_ok b' ((load_heap s)(p \<mapsto> set_sig (loader_quads s) j)) p (set_sig (loader_quads s) j)"
    using load(2) [OF free] by blast
  define s' where "s' = s\<lparr>load_pool := b', load_heap := (load_heap s)(p \<mapsto> set_sig (loader_quads s) j)\<rparr>"
  have claim: "loader_claim s = Some (j, s')" by (simp add: loader_claim_def b' s'_def un)
  have quads: "loader_quads s' = set_sig (loader_quads s) j" and rng: "loader_range s' = loader_range s"
    using l by (simp_all add: loader_quads_def loader_range_def s'_def loaded_def p_def)
  then have "loader_ok s'" using ok' simd len pr l by (simp add: loader_ok_def s'_def loaded_def p_def)
  then show "\<exists>s'. loader_claim s = Some (j, s') \<and> loader_ok s' \<and> loader_range s' = loader_range s \<and>
        ranges (load_pool s') = ranges (load_pool s) \<and> loader_quads s' = set_sig (loader_quads s) j \<and>
        loaded (load_pool s) (loader_range s) j (load_bytes s) (load_pool s') \<and> load_bytes s' = load_bytes s"
    using claim quads rng l by (intro exI [of _ s']) (simp add: s'_def loaded_def)
qed

lemma loader_claim_Some:
  assumes "loader_ok s" "loader_claim s = Some (j, s')"
  shows "first_free (load_pool s) (loader_quads s) (loader_range s) = Some j" "loader_ok s'"
    "loader_slots s' = loader_slots s" "loader_quads s' = set_sig (loader_quads s) j"
    "loaded (load_pool s) (loader_range s) j (load_bytes s) (load_pool s')" "load_bytes s' = load_bytes s"
proof -
  obtain k where k: "first_free (load_pool s) (loader_quads s) (loader_range s) = Some k"
    using loader_claim_result(1) [OF assms(1)] assms(2)
    by (cases "first_free (load_pool s) (loader_quads s) (loader_range s)") auto
  note res = loader_claim_result(2) [OF assms(1) k]
  then have "k = j" using assms(2) by auto
  with k res assms(2) show "first_free (load_pool s) (loader_quads s) (loader_range s) = Some j" "loader_ok s'"
    "loader_slots s' = loader_slots s" "loader_quads s' = set_sig (loader_quads s) j"
    "loaded (load_pool s) (loader_range s) j (load_bytes s) (load_pool s')" "load_bytes s' = load_bytes s"
    by (auto simp: loader_slots_def)
qed

interpretation pool_slots: slot_pool_release loader_ok loader_free loader_claim loader_slots loader_release
proof
  fix s assume ok: "loader_ok s"
  note bound = loader_okD [OF ok]
  show "loader_free s \<subseteq> loader_slots s" by (auto simp: loader_free_def)
  then show "finite (loader_free s)"
    by (rule finite_subset) (auto simp: loader_slots_def range_mem_def)
  show "loader_free s = {}" if "loader_claim s = None"
  proof -
    have "first_free (load_pool s) (loader_quads s) (loader_range s) = None"
      using loader_claim_result(2) [OF ok] that
      by (cases "first_free (load_pool s) (loader_quads s) (loader_range s)") auto
    then show ?thesis
      by (auto simp: first_free_def find_None_iff loader_free_def loader_slots_def range_mem_def)
  qed
  { fix j s' assume claim: "loader_claim s = Some (j, s')"
    note c = loader_claim_Some [OF ok claim]
    then have j: "range_mem (ranges (load_pool s) ! loader_range s) j" "\<not> signaled (loader_quads s) j"
      by (simp_all add: first_free_Some)
    then have lt: "j < 64 * length (loader_quads s)" using bound(2) by (simp add: range_mem_def)
    have "signaled (set_sig (loader_quads s) j) k \<longleftrightarrow> k = j \<or> signaled (loader_quads s) k"
      if "k \<in> loader_slots s" for k
      using that bound(2) lt by (simp add: signaled_set_sig loader_slots_def range_mem_def)
    then have "loader_free s' = loader_free s - {j}" using c(3,4) by (auto simp: loader_free_def)
    then show "loader_ok s' \<and> j \<in> loader_free s \<and> loader_free s' = loader_free s - {j}"
      using c(2) j by (simp add: loader_free_def loader_slots_def)
    show "loader_slots s' = loader_slots s" by (rule c) }
  { fix j assume "j \<in> loader_slots s"
    then have j: "range_mem (ranges (load_pool s) ! loader_range s) j" by (simp add: loader_slots_def)
    then have lt: "j < 64 * length (loader_quads s)" using bound(2) by (simp add: range_mem_def)
    define p where "p = the (smap_map (smap_desc (load_pool s)))"
    define b where "b = load_pool s"
    have pool: "pool_ok b (load_heap s) p (loader_quads s)" using ok by (simp add: loader_ok_def p_def b_def)
    note unload = prior_unload_result [OF pool bound(1) j [folded b_def]]
    define s' where "s' = loader_release j s"
    have s': "s' = s\<lparr>load_pool := b\<lparr>presence := (presence b)[loader_range s := presence b ! loader_range s - 1]\<rparr>,
        load_heap := (load_heap s)(p \<mapsto> clear_sig (loader_quads s) j)\<rparr>"
      by (simp add: s'_def loader_release_def unload(1) flip: b_def)
    have quads: "loader_quads s' = clear_sig (loader_quads s) j" and slots: "loader_slots s' = loader_slots s"
      by (simp_all add: s' loader_quads_def loader_slots_def loader_range_def p_def b_def)
    have rng: "loader_range s' = loader_range s" by (simp add: s' loader_range_def)
    have "loader_ok s'" using unload(2) ok
      unfolding loader_ok_def quads rng by (simp add: s' p_def b_def)
    moreover have "signaled (clear_sig (loader_quads s) j) k \<longleftrightarrow> k \<noteq> j \<and> signaled (loader_quads s) k"
      if "k \<in> loader_slots s" for k
      using that bound(2) lt by (simp add: signaled_set_sig loader_slots_def range_mem_def)
    then have "loader_free s' = insert j (loader_free s)"
      using \<open>j \<in> loader_slots s\<close> by (auto simp: loader_free_def quads slots)
    ultimately show "loader_ok (loader_release j s) \<and> loader_free (loader_release j s) = insert j (loader_free s) \<and>
      loader_slots (loader_release j s) = loader_slots s"
      using slots by (simp add: s'_def) }
qed

end
