(* ===== verification/Bitpool_Props.thy ===== *)
theory Bitpool_Props
  imports Bitpool
begin

text \<open>
  The properties of the bucket pools: the ranges the percentages give, creation, loading,
  unloading, and the choice of the next bucket, with the pool \<open>wit_pool\<close> of 64 buckets of 16 bytes
  as the concrete instance.
\<close>

section \<open>Ranges\<close>

lemma bitpool_default_ranges_lemma:
  assumes "0 < smap_size s" "64 * unat (smap_size s) < 2 ^ 32" "length rs = 4"
  shows "\<exists>rs'. bitpool_range_populate (Some s) BITPOOL_PERC_DEFAULT (Some rs) = Inr (AX_SUCC, Some rs') \<and>
    ranges_tile (64 * unat (smap_size s)) rs' \<and>
    unat (bit_n (rs' ! 2)) = 16 * unat (smap_size s) \<and> unat (bit_n (rs' ! 3)) = 32 * unat (smap_size s) \<and>
    (\<forall>i < 3. unat (bit_disp (rs' ! i)) = 32 * unat (smap_size s) div unat (bit_n (rs' ! i)) \<and> 0 < bit_disp (rs' ! i))"
proof -
  define n where "n = 64 * unat (smap_size s)"
  have perc: "perc_ok BITPOOL_PERC_DEFAULT" by (simp add: perc_ok_def BITPOOL_PERC_DEFAULT_def)
  have round: "perc_round (BITPOOL_PERC_DEFAULT ! 0) n = (10 * n + 50) div 100"
    "perc_round (BITPOOL_PERC_DEFAULT ! 1) n = (15 * n + 50) div 100"
    "perc_round (BITPOOL_PERC_DEFAULT ! 2) n = (25 * n + 50) div 100"
    "perc_round (BITPOOL_PERC_DEFAULT ! 3) n = (50 * n + 50) div 100"
    by (simp_all add: perc_round_def BITPOOL_PERC_DEFAULT_def)
  have pos: "0 < BITPOOL_PERC_DEFAULT ! 0" "0 < BITPOOL_PERC_DEFAULT ! 1" "0 < BITPOOL_PERC_DEFAULT ! 2"
    by (simp_all add: BITPOOL_PERC_DEFAULT_def)
  have med: "(25 * n + 50) div 100 = 16 * unat (smap_size s)" "(50 * n + 50) div 100 = 32 * unat (smap_size s)"
    by (simp_all add: n_def)
  obtain rs' where rs': "bitpool_range_populate (Some s) BITPOOL_PERC_DEFAULT (Some rs) = Inr (AX_SUCC, Some rs')"
      "ranges_tile n rs'" and bits: "\<forall>i < 4. unat (bit_n (rs' ! i)) = perc_round (BITPOOL_PERC_DEFAULT ! i) n"
    and disp: "\<forall>i < 3. unat (bit_disp (rs' ! i)) =
      perc_round (BITPOOL_PERC_DEFAULT ! 3) n div perc_round (BITPOOL_PERC_DEFAULT ! i) n"
    using range_populate_tiles [OF perc assms(3,2,1) pos _ n_def] default_sum [OF n_def] unfolding round by blast
  have low: "unat (bit_n (rs' ! i)) \<le> unat (bit_n (rs' ! 3))" if "i < 3" for i
  proof -
    have "i = 0 \<or> i = 1 \<or> i = 2" using that by linarith
    then have "unat (BITPOOL_PERC_DEFAULT ! i) \<le> unat (BITPOOL_PERC_DEFAULT ! 3)"
      by (elim disjE) (simp_all add: BITPOOL_PERC_DEFAULT_def)
    then show ?thesis using that bits perc_round_mono by simp
  qed
  have "0 < bit_disp (rs' ! i)" if i: "i < 3" for i
  proof -
    have "bit_n (rs' ! i) \<noteq> 0" using tile_range(2) [OF rs'(2), of i] i by simp
    then have "0 < unat (bit_n (rs' ! i))" by (simp add: unat_gt_0)
    then have "0 < unat (bit_disp (rs' ! i))"
      using low [OF i] bits disp i by (simp add: div_greater_zero_iff)
    then show ?thesis by (simp add: word_less_nat_alt)
  qed
  then show ?thesis using rs' bits disp unfolding all_below_4 all_below_3 round med by (auto simp: n_def)
qed

text \<open>C34: with the default percentages \<^verbatim>\<open>bitpool_range_populate\<close> succeeds for every bitmap size and
  the four ranges tile the bitmap, although each size is rounded on its own; the low range has half
  of the bits and the dispositions are the rounded down quotients.\<close>

theorem bitpool_default_ranges:
  assumes "0 < smap_size s" "64 * unat (smap_size s) < 2 ^ 32" "length rs = 4"
  shows "\<exists>rs'. bitpool_range_populate (Some s) BITPOOL_PERC_DEFAULT (Some rs) = Inr (AX_SUCC, Some rs') \<and>
    ranges_tile (64 * unat (smap_size s)) rs' \<and>
    unat (bit_n (rs' ! 2)) = 16 * unat (smap_size s) \<and> unat (bit_n (rs' ! 3)) = 32 * unat (smap_size s) \<and>
    (\<forall>i < 3. unat (bit_disp (rs' ! i)) = 32 * unat (smap_size s) div unat (bit_n (rs' ! i)) \<and> 0 < bit_disp (rs' ! i))"
  using assms by (rule bitpool_default_ranges_lemma)

definition wit_range_desc :: sync_map_desc where "wit_range_desc = \<lparr>smap_map = Some 7, smap_size = 1\<rparr>"
definition wit_range_mem :: "bitpool_prior_range list" where
  "wit_range_mem = replicate 4 \<lparr>bit_n = 0, bit_i = 0, bit_disp = 0\<rparr>"

lemma bitpool_default_ranges_witness:
  "\<exists>rs'. bitpool_range_populate (Some wit_range_desc) BITPOOL_PERC_DEFAULT (Some wit_range_mem) = Inr (AX_SUCC, Some rs') \<and>
    ranges_tile 64 rs' \<and> unat (bit_n (rs' ! 3)) = 32"
proof -
  have "0 < smap_size wit_range_desc" "64 * unat (smap_size wit_range_desc) < 2 ^ 32" "length wit_range_mem = 4"
    by (simp_all add: wit_range_desc_def wit_range_mem_def)
  from bitpool_default_ranges [OF this] show ?thesis by (auto simp: wit_range_desc_def)
qed

text \<open>A percentage descriptor whose real, high or medium share is 0, like
  \<^verbatim>\<open>BITPOOL_PERC_OFFLOAD\<close>, passes the checks of \<^verbatim>\<open>bitpool_range_populate\<close> and then divides by the
  empty range; with shares above 0 nothing is divided by 0.\<close>

theorem bitpool_zero_percentage:
  assumes "perc_ok perc" "length rs = 4" "0 < smap_size s" "64 * unat (smap_size s) < 2 ^ 32"
  shows "bitpool_range_populate (Some s) perc (Some rs) = Inl Div_By_Zero \<longleftrightarrow>
    perc ! 0 = 0 \<or> perc ! 1 = 0 \<or> perc ! 2 = 0"
proof -
  define n where "n = 64 * unat (smap_size s)"
  have n: "64 \<le> n" "n < 2 ^ 32" using assms(3,4) by (simp_all add: n_def word_less_nat_alt)
  have "(of_nat (perc_round p n) :: u32) = 0 \<longleftrightarrow> p = 0" if "unat p \<le> 100" for p
  proof -
    have "perc_round p n < 2 ^ 32" using perc_round_le [OF that, of n] n by simp
    then have "(of_nat (perc_round p n) :: u32) = 0 \<longleftrightarrow> perc_round p n = 0"
      by (simp only: unat32 flip: unat_eq_0)
    also have "\<dots> \<longleftrightarrow> p = 0"
    proof
      assume "perc_round p n = 0"
      then have "\<not> 0 < unat p" using perc_round_pos [of p n] n(1) by fastforce
      then show "p = 0" by (simp add: unat_eq_0)
    qed (simp add: perc_round_def)
    finally show ?thesis .
  qed
  moreover have "unat (perc ! 0) \<le> 100" "unat (perc ! 1) \<le> 100" "unat (perc ! 2) \<le> 100"
    using assms(1) by (simp_all add: perc_ok_def)
  ultimately show ?thesis
    unfolding range_populate_result [OF assms(1,2,4)] n_def [symmetric] by simp
qed

lemma bitpool_zero_percentage_witness:
  "bitpool_range_populate (Some wit_range_desc) BITPOOL_PERC_OFFLOAD (Some wit_range_mem) = Inl Div_By_Zero"
proof -
  have "perc_ok BITPOOL_PERC_OFFLOAD" "length wit_range_mem = 4" "0 < smap_size wit_range_desc"
    "64 * unat (smap_size wit_range_desc) < 2 ^ 32"
    by (simp_all add: perc_ok_def BITPOOL_PERC_OFFLOAD_def wit_range_desc_def wit_range_mem_def)
  from bitpool_zero_percentage [OF this] show ?thesis by (simp add: BITPOOL_PERC_OFFLOAD_def)
qed

text \<open>The sizes are rounded one by one: shares that pass the checks can add up to more than the bitmap.
  The low range then starts below index 0, at the largest 32-bit index, and a load at low priority
  finds no quad there.\<close>

theorem bitpool_rounding_overflow:
  "\<exists>rs'. bitpool_range_populate (Some wit_range_desc) [4, 29, 29, 38] (Some wit_range_mem) = Inr (AX_SUCC, Some rs') \<and>
    map bit_n rs' = [3, 19, 19, 24] \<and> bit_i (rs' ! 3) = 2 ^ 32 - 1"
proof -
  have "perc_ok [4, 29, 29, 38]" "length wit_range_mem = 4" "64 * unat (smap_size wit_range_desc) < 2 ^ 32"
    by (simp_all add: perc_ok_def wit_range_desc_def wit_range_mem_def)
  from range_populate_result [OF this] show ?thesis
    by (simp add: wit_range_desc_def perc_round_def)
qed

section \<open>Creation\<close>

text \<open>For a bucket count that is a multiple of 64 and buckets that fit in 32-bit arithmetic,
  \<^verbatim>\<open>bitpool_create\<close> with the default percentages returns a well-formed pool whose bitmap and
  presence counters are what the memory held before: with zeroed memory every counter is exact,
  and nothing in the function clears it.\<close>

theorem bitpool_create_ready:
  assumes "0 < bcount" "unat bcount mod 64 = 0" "0 < bsize" "unat bsize * unat bcount < 2 ^ 32"
    and "length map_mem = unat bcount div 64" "length (ranges mem) = 4" "length (presence mem) = 4"
    and "base (unat bsize * unat bcount) = Some bytes" "length bytes = unat bsize * unat bcount"
  shows "\<exists>b. bitpool_create bcount bsize BITPOOL_PERC_DEFAULT True (Some mem) (Some p) map_mem base h =
      Inr (AX_SUCC, Some b, h(p \<mapsto> map_mem)) \<and>
    pool_ok b (h(p \<mapsto> map_mem)) p map_mem \<and> presence b = presence mem \<and>
    (\<forall>i < 3. 0 < bit_disp (ranges b ! i)) \<and>
    (presence mem = [0, 0, 0, 0] \<longrightarrow> (\<forall>q \<in> set map_mem. q = 0) \<longrightarrow> counts_ok b map_mem)"
proof -
  define s where "s = \<lparr>smap_map = Some p, smap_size = bcount div 64\<rparr>"
  have m: "bcount mod 64 = 0" using assms(2) by (simp add: unat_mod flip: unat_eq_0)
  have size: "64 * unat (smap_size s) = unat bcount"
    using mult_div_mod_eq [of 64 "unat bcount"] assms(2) by (simp add: s_def unat_div)
  have "0 < smap_size s" "64 * unat (smap_size s) < 2 ^ 32"
    using size assms(1) unsigned_less [of bcount, where 'a = nat] by (auto simp: word_less_nat_alt)
  from bitpool_default_ranges_lemma [OF this assms(6)] obtain rs' where
    rs': "bitpool_range_populate (Some s) BITPOOL_PERC_DEFAULT (Some (ranges mem)) = Inr (AX_SUCC, Some rs')"
      "ranges_tile (unat bcount) rs'" "\<forall>i < 3. 0 < bit_disp (rs' ! i)" unfolding size by blast
  define b where "b = mem\<lparr>bucket_count := bcount, bucket_size := bsize, qload := bitpool_bucket_func_of bsize,
    smap_desc := s, ranges := rs', bucket_base := Some bytes\<rparr>"
  have nz: "bcount \<noteq> 0" "bsize \<noteq> 0" using assms(1,3) by auto
  have mul: "unat (bsize * bcount) = unat bsize * unat bcount" using assms(4) by (simp add: unat_word_ariths)
  have "bitpool_create bcount bsize BITPOOL_PERC_DEFAULT True (Some mem) (Some p) map_mem base h =
      Inr (AX_SUCC, Some b, h(p \<mapsto> map_mem))"
    using nz assms(8) m rs'(1) by (simp add: bitpool_create_def sync_map_init_def s_def [symmetric] mul b_def)
  moreover have at: "smap_at (h(p \<mapsto> map_mem)) s p map_mem"
    using assms(5) size unsigned_less [of bcount, where 'a = nat] by (simp add: smap_at_def s_def unat_div)
  then have "pool_ok b (h(p \<mapsto> map_mem)) p map_mem"
    using assms(4,5,7,9) rs'(2) size by (simp add: pool_ok_def b_def s_def unat_div)
  moreover have "counts_ok b map_mem" if "presence mem = [0, 0, 0, 0]" "\<forall>q \<in> set map_mem. q = 0"
  proof -
    have len: "64 * length map_mem = unat bcount" using size assms(5) by (simp add: s_def unat_div)
    have "\<not> signaled map_mem j" if "j < unat bcount" for j
    proof -
      have "j div 64 < length map_mem" using that len index_in by simp
      with \<open>\<forall>q \<in> set map_mem. q = 0\<close> have "map_mem ! (j div 64) = 0" by simp
      then show ?thesis by (simp add: signaled_def)
    qed
    moreover have "range_end (rs' ! i) \<le> unat bcount" if "i < 4" for i using tile_range(1) [OF rs'(2) that] .
    ultimately have "range_used map_mem (rs' ! i) = {}" if "i < 4" for i
      using that by (fastforce simp: range_used_def range_mem_def)
    then show ?thesis using that(1) by (simp add: counts_ok_def b_def all_below_4)
  qed
  ultimately show ?thesis using rs'(3) by (auto simp: b_def)
qed

definition wit_pool_mem :: bitpool_desc where
  "wit_pool_mem = \<lparr>presence = [0, 0, 0, 0], bucket_base = None, bucket_count = 0, bucket_size = 0,
     ranges = wit_range_mem, qload = Bucket_Func_anybyte, smap_desc = sync_map_desc_zero\<rparr>"

lemma bitpool_create_ready_witness:
  "\<exists>b. bitpool_create 64 16 BITPOOL_PERC_DEFAULT True (Some wit_pool_mem) (Some 7) [0]
      (\<lambda>n. Some (replicate n 0)) (wit_mheap []) = Inr (AX_SUCC, Some b, (wit_mheap [])(7 \<mapsto> [0])) \<and>
    pool_ok b ((wit_mheap [])(7 \<mapsto> [0])) 7 [0] \<and> counts_ok b [0] \<and>
    (\<forall>i < 3. 0 < bit_disp (ranges b ! i))"
proof -
  note ready = bitpool_create_ready [of 64 16 "[0]" wit_pool_mem "\<lambda>n. Some (replicate n 0)" "replicate 1024 0" 7 "wit_mheap []"]
  have "length (ranges wit_pool_mem) = 4" "presence wit_pool_mem = [0, 0, 0, 0]"
    by (simp_all add: wit_pool_mem_def wit_range_mem_def)
  then show ?thesis using ready by auto
qed

section \<open>Loading and unloading\<close>

text \<open>\<^verbatim>\<open>bitpool_prior_load\<close> stores the payload in the first free bucket of the range of its
  priority, signals that bucket, raises the counter of the range and changes no other bucket; when
  the range is full it waits, and alone for ever. Priorities outside the enumeration fail an
  assertion.\<close>

theorem bitpool_prior_load_spec:
  assumes "pool_ok b h p qs" "simd_copies simd" "length bytes = unat (bucket_size b)"
  shows "case prior_index pr of
      Inl e \<Rightarrow> bitpool_prior_load simd (Some b) (Some bytes) pr h = Inl Assert_Fail
    | Inr i \<Rightarrow>
       (case first_free b qs i of
          None \<Rightarrow> bitpool_prior_load simd (Some b) (Some bytes) pr h = Inl Diverges
        | Some j \<Rightarrow> \<exists>b'. bitpool_prior_load simd (Some b) (Some bytes) pr h =
              Inr (\<lparr>load_code = AX_SUCC, load_index = of_nat j\<rparr>, Some b', h(p \<mapsto> set_sig qs j)) \<and>
            loaded b i j bytes b')"
proof (cases "prior_index pr")
  case (Inl e)
  then have "e = Assert_Fail" by (cases pr) auto
  with Inl show ?thesis by (simp add: bitpool_prior_load_def bitpool_prior_to_presence_def)
next
  case (Inr i)
  note load = prior_load_result [OF assms Inr]
  show ?thesis
  proof (cases "first_free b qs i")
    case None
    with Inr load(1) show ?thesis by simp
  next
    case (Some j)
    with Inr load(2) [OF Some] show ?thesis by auto
  qed
qed

text \<open>C19: every successful load and every unload of a signaled bucket keeps the pool well-formed and
  each presence counter equal to the number of signaled buckets of its range; an unload lowers the
  counter the load of that bucket raised.\<close>

theorem bitpool_counts_invariant:
  assumes "pool_ok b h p qs" "counts_ok b qs" "simd_copies simd" "length bytes = unat (bucket_size b)"
  shows "(\<forall>pr i j. prior_index pr = Inr i \<longrightarrow> first_free b qs i = Some j \<longrightarrow>
      (\<exists>b'. bitpool_prior_load simd (Some b) (Some bytes) pr h =
          Inr (\<lparr>load_code = AX_SUCC, load_index = of_nat j\<rparr>, Some b', h(p \<mapsto> set_sig qs j)) \<and>
        pool_ok b' (h(p \<mapsto> set_sig qs j)) p (set_sig qs j) \<and> counts_ok b' (set_sig qs j) \<and>
        bitpool_index_to_presence (Some b') (of_nat j) = Inr i)) \<and>
    (\<forall>j < 64 * length qs. signaled qs j \<longrightarrow>
      (\<exists>b'. bitpool_prior_unload (Some b) (of_nat j) h = Inr (Some b', h(p \<mapsto> clear_sig qs j)) \<and>
        pool_ok b' (h(p \<mapsto> clear_sig qs j)) p (clear_sig qs j) \<and> counts_ok b' (clear_sig qs j)))"
proof (intro conjI allI impI)
  fix pr i j assume pr: "prior_index pr = Inr i" and free: "first_free b qs i = Some j"
  have i: "i < 4" using pr by (rule prior_index_less)
  have j: "range_mem (ranges b ! i) j" "\<not> signaled qs j" using free by (simp_all add: first_free_Some)
  have lt: "j < 64 * length qs" using j(1) pool_range(2) [OF assms(1) i] by (simp add: range_mem_def)
  obtain b' where b': "bitpool_prior_load simd (Some b) (Some bytes) pr h =
          Inr (\<lparr>load_code = AX_SUCC, load_index = of_nat j\<rparr>, Some b', h(p \<mapsto> set_sig qs j))"
    "loaded b i j bytes b'" "pool_ok b' (h(p \<mapsto> set_sig qs j)) p (set_sig qs j)"
    using prior_load_result(2) [OF assms(1,3,4) pr free] by blast
  have "bitpool_index_to_presence (Some b') (of_nat j) = Inr i"
    using pool_range_of [OF b'(3), of j] lt j(1) i b'(2) by (metis loaded_def set_sig_length(1))
  then show "\<exists>b'. bitpool_prior_load simd (Some b) (Some bytes) pr h =
          Inr (\<lparr>load_code = AX_SUCC, load_index = of_nat j\<rparr>, Some b', h(p \<mapsto> set_sig qs j)) \<and>
        pool_ok b' (h(p \<mapsto> set_sig qs j)) p (set_sig qs j) \<and> counts_ok b' (set_sig qs j) \<and>
        bitpool_index_to_presence (Some b') (of_nat j) = Inr i"
    using b' loaded_counts [OF assms(1,2) b'(2) i j] by blast
next
  fix j assume j: "j < 64 * length qs" "signaled qs j"
  obtain i where i: "i < 4" "range_mem (ranges b ! i) j" using pool_range_of [OF assms(1) j(1)] by metis
  show "\<exists>b'. bitpool_prior_unload (Some b) (of_nat j) h = Inr (Some b', h(p \<mapsto> clear_sig qs j)) \<and>
        pool_ok b' (h(p \<mapsto> clear_sig qs j)) p (clear_sig qs j) \<and> counts_ok b' (clear_sig qs j)"
    using prior_unload_result [OF assms(1) i] assms(2) j(2) by blast
qed

text \<open>C35: \<open>n\<close> loads at one priority fill pairwise distinct free buckets of its range, all of them when
  \<open>n\<close> is large enough, and unloading those buckets in any order frees exactly them.\<close>

theorem bitpool_loads_distinct:
  assumes "loader_ok s" "claims loader_claim n s = (ks, s')"
  shows "distinct ks \<and> set ks \<subseteq> loader_free s \<and> length ks = min n (card (loader_free s)) \<and>
    loader_free s' = loader_free s - set ks \<and>
    (\<forall>js. set js = set ks \<longrightarrow> loader_free (fold loader_release js s') = loader_free s)"
  using pool_slots.claims_distinct [OF assms] pool_slots.claims_length [OF assms]
    pool_slots.claims_release_all [OF assms] by blast

section \<open>Choosing the next bucket\<close>

text \<open>With disposition counters of 0 \<^verbatim>\<open>bitpool_prior_unload_disp\<close> takes the first used bucket of
  the highest priority that has used buckets, unless the quad of that range's first bit is signaled
  from that bit on, and leaves the counters at 0: nothing in the program raises them, so the
  dispositions never let a lower priority pass. The bucket index is cut to 8 bits.\<close>

theorem bitpool_unload_disp_strict:
  assumes "pool_ok b h p qs" "\<forall>i < 3. 0 < bit_disp (ranges b ! i)"
    and "first_used b qs (top_prior b) = Some j"
    and "\<exists>k. unat (bit_i (ranges b ! top_prior b)) \<le> k \<and>
      k < 64 * (unat (bit_i (ranges b ! top_prior b)) div 64) + 64 \<and> \<not> signaled qs k"
  shows "bitpool_prior_unload_disp (Some b) [0, 0, 0, 0] h =
    Inr (\<lparr>disp_succ = True, disp_presence_i = of_nat (top_prior b), disp_bucket_i = of_nat j\<rparr>,
      [0, 0, 0, 0], h(p \<mapsto> clear_sig qs j))"
proof -
  have "unsig_start qs (unat (bit_i (ranges b ! top_prior b))) = unat (bit_i (ranges b ! top_prior b))"
    using assms(4) by (auto simp: unsig_start_def)
  then show ?thesis
    using unload_disp_result [OF assms(1,2)] assms(3) by (simp add: first_used_def)
qed

text \<open>C20: once every bucket of a real-time range of at most 64 buckets is used,
  \<^verbatim>\<open>bitpool_prior_unload_disp\<close> fails and changes nothing, so every further call fails as well: a
  queue of 64 buckets that holds 6 real-time payloads is never drained.\<close>

theorem bitpool_full_real_stuck:
  assumes "pool_ok b h p qs" "\<forall>i < 3. 0 < bit_disp (ranges b ! i)" "0 < presence b ! 0"
    and "\<forall>j. range_mem (ranges b ! 0) j \<longrightarrow> signaled qs j" "unat (bit_n (ranges b ! 0)) \<le> 64"
  shows "bitpool_prior_unload_disp (Some b) [0, 0, 0, 0] h =
    Inr (\<lparr>disp_succ = False, disp_presence_i = 0, disp_bucket_i = 0\<rparr>, [0, 0, 0, 0], h)"
proof -
  define f where "f = unat (bit_i (ranges b ! 0))"
  have t: "ranges_tile (64 * length qs) (ranges b)" using assms(1) by (simp add: pool_ok_def)
  then have e: "range_end (ranges b ! 0) = 64 * length qs" by (simp add: ranges_tile_def)
  have "f < 64 * length qs" using tile_range(3) [OF t, of 0] e by (simp add: f_def)
  moreover have "64 * length qs \<le> f + 64" using e assms(5) by (simp add: f_def range_end_def)
  ultimately have "f div 64 = length qs - 1" by (cases "length qs") (auto intro!: div_nat_eqI)
  then have q: "64 * (f div 64) + 64 = 64 * length qs" using \<open>f < 64 * length qs\<close> by simp
  then have "unsig_start qs f = 64 * length qs"
    using assms(4) e by (simp add: unsig_start_def range_mem_def f_def)
  moreover have "top_prior b = 0" using assms(3) by (simp add: top_prior_def)
  ultimately show ?thesis using unload_disp_result [OF assms(1,2)] e by (simp add: f_def)
qed

section \<open>Concrete pools\<close>

definition wit_pool :: "u32 list \<Rightarrow> bitpool_desc" where
  "wit_pool pres = \<lparr>presence = pres, bucket_base = Some (replicate 1024 0), bucket_count = 64, bucket_size = 16,
     ranges = [\<lparr>bit_n = 6, bit_i = 58, bit_disp = 5\<rparr>, \<lparr>bit_n = 10, bit_i = 48, bit_disp = 3\<rparr>,
       \<lparr>bit_n = 16, bit_i = 32, bit_disp = 2\<rparr>, \<lparr>bit_n = 32, bit_i = 0, bit_disp = 1\<rparr>],
     qload = Bucket_Func_16byte, smap_desc = wit_range_desc\<rparr>"

lemma wit_pool_ok: "length pres = 4 \<Longrightarrow> pool_ok (wit_pool pres) (wit_mheap [q]) 7 [q]"
  by (simp add: pool_ok_def wit_pool_def smap_at_def wit_mheap_def wit_range_desc_def ranges_tile_def range_end_def
    bitpool_bucket_func_of_def)

lemma wit_simd: "simd_copies take"
  by (simp add: simd_copies_def)

lemma wit_disp: "\<forall>i < 3. 0 < bit_disp (ranges (wit_pool pres) ! i)"
  by (simp add: wit_pool_def all_below_3)

lemma bitpool_prior_load_spec_witness:
  "\<exists>b'. bitpool_prior_load take (Some (wit_pool [0, 1, 0, 0])) (Some (replicate 16 5)) PRIOR_HIGH (wit_mheap [0x1000000000000]) =
      Inr (\<lparr>load_code = AX_SUCC, load_index = 49\<rparr>, Some b', (wit_mheap [0x1000000000000])(7 \<mapsto> set_sig [0x1000000000000] 49)) \<and>
    loaded (wit_pool [0, 1, 0, 0]) 1 49 (replicate 16 5) b'"
proof -
  have free: "first_free (wit_pool [0, 1, 0, 0]) [0x1000000000000] 1 = Some 49" by code_simp
  have "length [0, 1, 0, 0 :: u32] = 4" "length (replicate 16 (5 :: u8)) = unat (bucket_size (wit_pool [0, 1, 0, 0]))"
    by (simp_all add: wit_pool_def)
  from bitpool_prior_load_spec [OF wit_pool_ok [OF this(1)] wit_simd this(2), of PRIOR_HIGH "0x1000000000000"]
  show ?thesis by (simp add: free [simplified])
qed

lemma wit_counts: "counts_ok (wit_pool [0, 0, 0, 0]) [0]"
  by (simp add: counts_ok_def range_used_def signaled_def range_mem_def wit_pool_def range_end_def all_below_4)

lemma bitpool_counts_invariant_witness:
  "\<exists>b' h' qs. bitpool_prior_load take (Some (wit_pool [0, 0, 0, 0])) (Some (replicate 16 5)) PRIOR_HIGH (wit_mheap [0]) =
      Inr (\<lparr>load_code = AX_SUCC, load_index = 48\<rparr>, Some b', h') \<and> pool_ok b' h' 7 qs \<and> counts_ok b' qs"
proof -
  have free: "first_free (wit_pool [0, 0, 0, 0]) [0] 1 = Some 48" by code_simp
  have "length [0, 0, 0, 0 :: u32] = 4" "length (replicate 16 (5 :: u8)) = unat (bucket_size (wit_pool [0, 0, 0, 0]))"
    by (simp_all add: wit_pool_def)
  from bitpool_counts_invariant [OF wit_pool_ok [OF this(1)] wit_counts wit_simd this(2), THEN conjunct1,
      THEN spec, THEN spec, THEN spec, THEN mp, THEN mp, of PRIOR_HIGH 1 48]
  show ?thesis using free by auto
qed

definition wit_loader :: loader where
  "wit_loader = \<lparr>load_pool = wit_pool [0, 1, 0, 0], load_heap = wit_mheap [0x1000000000000], load_prior = PRIOR_HIGH,
     load_bytes = replicate 16 5, load_simd = take\<rparr>"

lemma wit_loader_ok: "loader_ok wit_loader"
proof -
  have "pool_ok (wit_pool [0, 1, 0, 0]) (wit_mheap [0x1000000000000]) 7 [0x1000000000000]"
    by (rule wit_pool_ok) simp
  moreover have "the (smap_map (smap_desc (wit_pool [0, 1, 0, 0]))) = 7" by (simp add: wit_pool_def wit_range_desc_def)
  moreover have "the (wit_mheap [0x1000000000000] 7) = [0x1000000000000]" by (simp add: wit_mheap_def)
  moreover have "unat (bucket_size (wit_pool [0, 1, 0, 0])) = 16" by (simp add: wit_pool_def)
  ultimately show ?thesis using wit_simd
    by (simp add: loader_ok_def loader_quads_def wit_loader_def loader_range_def)
qed

lemma bitpool_loads_distinct_witness:
  "\<exists>s'. claims loader_claim 2 wit_loader = ([49, 50], s') \<and> loader_free s' = loader_free wit_loader - {49, 50}"
proof -
  have ks: "fst (claims loader_claim 2 wit_loader) = [49, 50]" by code_simp
  obtain s' where s': "claims loader_claim 2 wit_loader = ([49, 50], s')"
    using ks by (cases "claims loader_claim 2 wit_loader") simp
  with bitpool_loads_distinct [OF wit_loader_ok s'] show ?thesis by auto
qed

lemma bitpool_unload_disp_strict_witness:
  "bitpool_prior_unload_disp (Some (wit_pool [0, 1, 0, 1])) [0, 0, 0, 0] (wit_mheap [0x1000000000001]) =
    Inr (\<lparr>disp_succ = True, disp_presence_i = 1, disp_bucket_i = 48\<rparr>, [0, 0, 0, 0],
      (wit_mheap [0x1000000000001])(7 \<mapsto> clear_sig [0x1000000000001] 48))"
proof -
  have top: "top_prior (wit_pool [0, 1, 0, 1]) = 1" by (simp add: top_prior_def wit_pool_def)
  have used: "first_used (wit_pool [0, 1, 0, 1]) [0x1000000000001] (top_prior (wit_pool [0, 1, 0, 1])) = Some 48"
    unfolding top by code_simp
  have "\<not> signaled [0x1000000000001] 49" by code_simp
  then have "\<exists>k. unat (bit_i (ranges (wit_pool [0, 1, 0, 1]) ! top_prior (wit_pool [0, 1, 0, 1]))) \<le> k \<and>
      k < 64 * (unat (bit_i (ranges (wit_pool [0, 1, 0, 1]) ! top_prior (wit_pool [0, 1, 0, 1]))) div 64) + 64 \<and>
      \<not> signaled [0x1000000000001] k"
    unfolding top by (intro exI [of _ 49]) (simp add: wit_pool_def)
  from bitpool_unload_disp_strict [OF wit_pool_ok wit_disp used this] show ?thesis by (simp add: top)
qed

lemma bitpool_full_real_stuck_witness:
  "bitpool_prior_unload_disp (Some (wit_pool [6, 0, 0, 0])) [0, 0, 0, 0] (wit_mheap [0xFC00000000000000]) =
    Inr (\<lparr>disp_succ = False, disp_presence_i = 0, disp_bucket_i = 0\<rparr>, [0, 0, 0, 0], wit_mheap [0xFC00000000000000])"
proof -
  have "list_all (signaled [0xFC00000000000000]) [58..<64]" by code_simp
  then have "\<forall>j. 58 \<le> j \<and> j < 64 \<longrightarrow> signaled [0xFC00000000000000] j"
    unfolding list_all_iff by (metis atLeastLessThan_iff set_upt)
  then have "\<forall>j. range_mem (ranges (wit_pool [6, 0, 0, 0]) ! 0) j \<longrightarrow> signaled [0xFC00000000000000] j"
    by (simp add: range_mem_def wit_pool_def range_end_def)
  from bitpool_full_real_stuck [OF wit_pool_ok wit_disp _ this] show ?thesis by (simp add: wit_pool_def)
qed

end
