(* ===== verification/Vrow.thy ===== *)
theory Vrow
  imports Sync_Map IR_Context
begin

text \<open>
  Processing rows (\<^verbatim>\<open>pipe/vrow.h\<close>, \<^verbatim>\<open>vrow.c\<close>, \<^verbatim>\<open>vrow_bank.h\<close>, \<^verbatim>\<open>vrow_bank_0.c\<close> to \<^verbatim>\<open>vrow_bank_2.c\<close>,
  \<^verbatim>\<open>vrow_thread.c\<close>). A row is 256 bytes in four banks of 64 bytes, a byte with an active and a filled
  bit per bank, and a thread that takes a payload from bank 0 through the banks 1 and 2. The theory
  has the operations on a row and one round of the thread's loop, and what they do to the banks and
  the state bits.
\<close>

section \<open>Rows and state bits (vrow.h)\<close>

definition VROW_BANK_COUNT :: nat where "VROW_BANK_COUNT = 4"
definition VROW_BANK_SIZE :: nat where "VROW_BANK_SIZE = 0x40"
definition VROW_STATE_EMPTY :: u8 where "VROW_STATE_EMPTY = 0"
definition VROW_BASE_SIZE :: nat where "VROW_BASE_SIZE = 0x100"

record vrow_thread_stack =
  stack_ir :: "ir_context option"
  curr_bank :: u8

record vrow_desc =
  vrow_base :: "u8 list"
  vrow_smap :: sync_map_ref
  vrow_stack :: vrow_thread_stack
  vrow_states :: u8
  vrow_closed :: bool

definition vrow_bank_off :: "nat \<Rightarrow> nat" where "vrow_bank_off bi = bi * VROW_BANK_SIZE"

definition vrow_is_filled :: "vrow_desc \<Rightarrow> nat \<Rightarrow> u8" where
  "vrow_is_filled v bi = vrow_states v AND push_bit (2 * bi) 0b01"

definition vrow_fill_switch :: "nat \<Rightarrow> vrow_desc \<Rightarrow> vrow_desc" where
  "vrow_fill_switch bi v = v\<lparr>vrow_states := vrow_states v XOR push_bit (2 * bi) 0b01\<rparr>"

definition vrow_is_active :: "vrow_desc \<Rightarrow> nat \<Rightarrow> u8" where
  "vrow_is_active v bi = vrow_states v AND push_bit (2 * bi) 0b10"

definition vrow_active_switch :: "nat \<Rightarrow> vrow_desc \<Rightarrow> vrow_desc" where
  "vrow_active_switch bi v = v\<lparr>vrow_states := vrow_states v XOR push_bit (2 * bi) 0b10\<rparr>"

definition vrow_close :: "vrow_desc \<Rightarrow> vrow_desc" where "vrow_close v = v\<lparr>vrow_closed := True\<rparr>"

text \<open>
  The vector functions of the utility library: \<open>simd_store512 from\<close> are the bytes
  \<^verbatim>\<open>simd_store_512\<close> writes when it is given \<open>from\<close>, \<open>simd_zero512\<close> those \<^verbatim>\<open>simd_zero_512\<close> writes. The
  compiler's layout of two structures: \<open>instr_of_bytes\<close> reads a \<^verbatim>\<open>mte_raw_instr\<close>,
  \<open>result_bytes\<close> are the bytes of an \<^verbatim>\<open>ir_raw_instr\<close>.
\<close>

record platform =
  simd_store512 :: "u8 list \<Rightarrow> u8 list"
  simd_zero512 :: "u8 list"
  instr_of_bytes :: "u8 list \<Rightarrow> mte_raw_instr"
  result_bytes :: "ir_raw_instr \<Rightarrow> u8 list"

definition vrow_force_flush :: "platform \<Rightarrow> vrow_desc option \<Rightarrow> vrow_desc option res" where
  "vrow_force_flush pf vrow =
    (case vrow of None \<Rightarrow> Inr None
     | Some v \<Rightarrow>
       and_then (fold_res (\<lambda>off b. buf_write b off (simd_zero512 pf)) [0, 64, 128, 192] (vrow_base v))
         (\<lambda>b. Inr (Some (v\<lparr>vrow_base := b, vrow_states := VROW_STATE_EMPTY\<rparr>))))"

section \<open>Operations on a row (vrow.c)\<close>

text \<open>
  \<open>th\<close> says that the thread pointer is not null; the result \<open>None\<close> is the literal 0 the function
  returns when it is. \<open>attr_res\<close> and \<open>create_res\<close> are the results of the two pthread calls.
\<close>

definition vrow_thread_init ::
  "vrow_desc \<Rightarrow> ir_context option \<Rightarrow> bool \<Rightarrow> 32 word \<Rightarrow> 32 word \<Rightarrow> axres option \<times> vrow_desc" where
  "vrow_thread_init v ir th attr_res create_res =
    (if \<not> th then (None, v)
     else
       (let v1 = v\<lparr>vrow_stack := \<lparr>stack_ir = ir, curr_bank = 0\<rparr>\<rparr>
        in if attr_res \<noteq> 0 then (Some AX_UNK_ERR, v1)
           else
             (let v2 = vrow_active_switch 0 v1
              in if create_res \<noteq> 0 then (Some AX_UNK_ERR, v2) else (Some AX_SUCC, v2))))"

text \<open>
  \<open>mem\<close> is the memory of the row before it is filled in: its bytes and its close flag stay as they
  are. The row is the value stored behind the result pointer.
\<close>

definition vrow_create ::
  "ir_context option \<Rightarrow> u32 \<Rightarrow> sync_map_desc option \<Rightarrow> bool \<Rightarrow> vrow_desc option \<Rightarrow> 32 word \<Rightarrow> 32 word
    \<Rightarrow> (axres \<times> vrow_desc option) res" where
  "vrow_create ir smap_i smap has_buf mem attr_res create_res =
    (if \<not> has_buf then Inr (AX_INV_BUF, None)
     else
       and_then (deref mem) (\<lambda>m.
        (let v = m\<lparr>vrow_states := VROW_STATE_EMPTY\<rparr>;
             (r, v1) =
               (case smap of None \<Rightarrow> (AX_SUCC, v)
                | Some _ \<Rightarrow>
                  (case sync_map_ref_init smap smap_i (Some (vrow_smap v)) of
                     (r, Some s) \<Rightarrow> (r, v\<lparr>vrow_smap := s\<rparr>) | (r, None) \<Rightarrow> (r, v)))
         in if r \<noteq> AX_SUCC then Inr (r, None)
            else
              (case vrow_thread_init v1 ir True attr_res create_res of
                 (Some r2, v2) \<Rightarrow> if r2 \<noteq> AX_SUCC then Inr (r2, None) else Inr (AX_SUCC, Some v2)
               | (None, v2) \<Rightarrow> Inr (AX_SUCC, Some v2)))))"

text \<open>
  Deletion closes the row and waits until its states are empty; when no thread empties them the wait
  never ends. The result is the row as it is freed.
\<close>

definition vrow_delete :: "vrow_desc option \<Rightarrow> vrow_desc option res" where
  "vrow_delete vrow =
    (case vrow of None \<Rightarrow> Inr None
     | Some v \<Rightarrow>
       (let v1 = vrow_close v
        in if vrow_states v1 \<noteq> VROW_STATE_EMPTY then Inl Diverges else Inr (Some v1)))"

text \<open>The wait for an empty bank ends at once or, without the row's thread, never.\<close>

definition vrow_bank_load :: "platform \<Rightarrow> vrow_desc option \<Rightarrow> nat \<Rightarrow> u8 list \<Rightarrow> (bool \<times> vrow_desc option) res" where
  "vrow_bank_load pf vrow bank_i pl =
    (case vrow of None \<Rightarrow> Inr (False, None)
     | Some v \<Rightarrow>
       if VROW_BANK_COUNT \<le> bank_i then Inr (False, Some v)
       else if vrow_is_filled v bank_i \<noteq> 0 then Inl Diverges
       else
         and_then (buf_write (vrow_base v) (vrow_bank_off bank_i) (simd_store512 pf pl)) (\<lambda>b.
           Inr (True, Some (vrow_fill_switch bank_i (v\<lparr>vrow_base := b\<rparr>)))))"

definition vrow_bank_swap :: "platform \<Rightarrow> vrow_desc option \<Rightarrow> nat \<Rightarrow> nat \<Rightarrow> (bool \<times> vrow_desc option) res" where
  "vrow_bank_swap pf vrow from_i to_i =
    (case vrow of None \<Rightarrow> Inr (False, None)
     | Some v \<Rightarrow>
       if VROW_BANK_COUNT \<le> from_i \<or> VROW_BANK_COUNT \<le> to_i then Inr (False, Some v)
       else
         (let v1 = vrow_fill_switch to_i v
          in and_then (buf_read (vrow_base v1) (vrow_bank_off from_i) VROW_BANK_SIZE) (\<lambda>bytes.
             and_then (buf_write (vrow_base v1) (vrow_bank_off to_i) (simd_store512 pf bytes)) (\<lambda>b.
               Inr (True, Some (vrow_fill_switch from_i (v1\<lparr>vrow_base := b\<rparr>)))))))"

section \<open>Processing of the banks\<close>

text \<open>
  The layout of \<^verbatim>\<open>struct vrow_b0_payload\<close>: 16 control bytes (level, priority, 6 reserved bytes and an 8
  byte pointer), the raw instruction of 64 bytes, the 16 bytes of the result and 16 reserved bytes.
\<close>

definition VROW_B0_OFFSET :: nat where "VROW_B0_OFFSET = 0"
definition B0_CONTROL_SIZE :: nat where "B0_CONTROL_SIZE = 16"
definition MTE_RAW_INSTR_SIZE :: nat where "MTE_RAW_INSTR_SIZE = 4 + MTE_PAYLOAD_SIZE"
definition B0_INSTR_OFF :: nat where "B0_INSTR_OFF = VROW_B0_OFFSET + B0_CONTROL_SIZE"
definition B0_RESULT_OFF :: nat where "B0_RESULT_OFF = B0_INSTR_OFF + MTE_RAW_INSTR_SIZE"
definition B0_PAYLOAD_SIZE :: nat where "B0_PAYLOAD_SIZE = B0_CONTROL_SIZE + MTE_RAW_INSTR_SIZE + 16 + 16"

definition vrow_bank_0_proc ::
  "platform \<Rightarrow> vrow_desc option \<Rightarrow> guest_to_ir_call option \<Rightarrow> (bool \<times> vrow_desc option) res" where
  "vrow_bank_0_proc pf vrow func =
    (case vrow of None \<Rightarrow> Inr (False, None)
     | Some v \<Rightarrow>
       (case func of None \<Rightarrow> Inr (False, Some v)
        | Some f \<Rightarrow>
          and_then (buf_read (vrow_base v) B0_INSTR_OFF MTE_RAW_INSTR_SIZE) (\<lambda>bytes.
          and_then (f (Some (instr_of_bytes pf bytes)) (stack_ir (vrow_stack v) \<noteq> None) (Some 0)) (\<lambda>(result, len).
          and_then (buf_write (vrow_base v) B0_RESULT_OFF (result_bytes pf result)) (\<lambda>b.
            Inr (opcode result \<noteq> ir_opcode_val IR_INVALID_OPCODE, Some (v\<lparr>vrow_base := b\<rparr>)))))))"

definition vrow_bank_1_proc :: "vrow_desc option \<Rightarrow> bool" where
  "vrow_bank_1_proc vrow = (vrow \<noteq> None)"

definition vrow_bank_2_proc :: "vrow_desc option \<Rightarrow> ir_to_host_call option \<Rightarrow> bool" where
  "vrow_bank_2_proc vrow func = (vrow \<noteq> None \<and> func \<noteq> None)"

section \<open>The thread of a row (vrow_thread.c)\<close>

text \<open>
  One round of the main loop ends in a further round, in waiting for a payload, or in the end of the
  thread, which flushes the row. \<open>b0\<close> and \<open>b2\<close> are the functions fetched before the loop.
\<close>

datatype round = Round_Wait | Round_Next | Round_Exit

type_synonym round_result = "round \<times> vrow_desc \<times> map_heap"

definition vrow_thread_exit :: "platform \<Rightarrow> vrow_desc \<Rightarrow> map_heap \<Rightarrow> round_result res" where
  "vrow_thread_exit pf v h =
    and_then (vrow_force_flush pf (Some v)) (\<lambda>v'. and_then (deref v') (\<lambda>v'. Inr (Round_Exit, v', h)))"

text \<open>The exit after a failed bank: the signal of the row is switched off first.\<close>

definition vrow_thread_fail :: "platform \<Rightarrow> vrow_desc \<Rightarrow> map_heap \<Rightarrow> round_result res" where
  "vrow_thread_fail pf v h = and_then (sync_map_ref_sigoff (vrow_smap v) h) (vrow_thread_exit pf v)"

definition vrow_thread_round ::
  "platform \<Rightarrow> guest_to_ir_call option \<Rightarrow> ir_to_host_call option \<Rightarrow> vrow_desc \<Rightarrow> map_heap \<Rightarrow> round_result res" where
  "vrow_thread_round pf b0 b2 v h =
    (if vrow_closed v then vrow_thread_exit pf v h
     else if vrow_is_filled v 0 = 0 then Inr (Round_Wait, v, h)
     else
       and_then (Inr (vrow_active_switch 0 v)) (\<lambda>v.
       and_then (sync_map_ref_sigon (vrow_smap v) h) (\<lambda>h.
       and_then (vrow_bank_0_proc pf (Some v) b0) (\<lambda>(ok, v'). and_then (deref v') (\<lambda>v.
        if \<not> ok then vrow_thread_fail pf v h
        else
          and_then (Inr (vrow_active_switch 0 (vrow_active_switch 1 v))) (\<lambda>v.
          and_then (vrow_bank_swap pf (Some v) 0 1) (\<lambda>(ok, v'). and_then (deref v') (\<lambda>v.
           if \<not> ok then vrow_thread_fail pf v h
           else if \<not> vrow_bank_1_proc (Some v) then vrow_thread_fail pf v h
           else
             and_then (Inr (vrow_active_switch 1 (vrow_active_switch 2 v))) (\<lambda>v.
             and_then (vrow_bank_swap pf (Some v) 1 2) (\<lambda>(ok, v'). and_then (deref v') (\<lambda>v.
              if \<not> ok then vrow_thread_fail pf v h
              else if \<not> vrow_bank_2_proc (Some v) b2 then vrow_thread_fail pf v h
              else and_then (sync_map_ref_sigoff (vrow_smap v) h) (\<lambda>h. Inr (Round_Next, v, h))))))))))))) "

text \<open>The start of the thread: the assertions and the functions it fetches.\<close>

definition vrow_thread_start ::
  "vrow_desc option \<Rightarrow> (guest_to_ir_call option \<times> ir_to_host_call option) res" where
  "vrow_thread_start vrow =
    and_then (asrt (vrow \<noteq> None)) (\<lambda>_. and_then (deref vrow) (\<lambda>v.
    and_then (asrt (vrow_is_active v 0 \<noteq> 0)) (\<lambda>_.
    and_then (deref (stack_ir (vrow_stack v))) (\<lambda>ir.
      Inr (Some (call_guest_to_ir ir), Some (call_ir_to_host ir))))))"

section \<open>Bank contents and rounds\<close>

text \<open>The library's vector functions copy and clear 64 bytes, and results take 16 bytes.\<close>

definition platform_ok :: "platform \<Rightarrow> bool" where
  "platform_ok pf \<longleftrightarrow> (\<forall>bs. length bs = 64 \<longrightarrow> simd_store512 pf bs = bs) \<and>
     simd_zero512 pf = replicate 64 0 \<and> (\<forall>r. length (result_bytes pf r) = 16)"

definition bank :: "vrow_desc \<Rightarrow> nat \<Rightarrow> u8 list" where
  "bank v i = take VROW_BANK_SIZE (drop (i * VROW_BANK_SIZE) (vrow_base v))"

definition banks_of :: "u8 list \<Rightarrow> u8 list \<Rightarrow> u8 list \<Rightarrow> u8 list \<Rightarrow> u8 list" where
  "banks_of b0 b1 b2 b3 = b0 @ b1 @ b2 @ b3"

lemma banks_obtain:
  assumes "length (vrow_base v) = VROW_BASE_SIZE"
  shows "vrow_base v = banks_of (bank v 0) (bank v 1) (bank v 2) (bank v 3)"
    "length (bank v 0) = 64" "length (bank v 1) = 64" "length (bank v 2) = 64" "length (bank v 3) = 64"
proof -
  define m where "m = vrow_base v"
  have len: "length m = 256" using assms by (simp add: m_def VROW_BASE_SIZE_def)
  have "m = take 64 m @ drop 64 m" "drop 64 m = take 64 (drop 64 m) @ drop 128 m"
    "drop 128 m = take 64 (drop 128 m) @ drop 192 m" "take 64 (drop 192 m) = drop 192 m"
    using len append_take_drop_id [of 64 m] append_take_drop_id [of 64 "drop 64 m"]
      append_take_drop_id [of 64 "drop 128 m"] by simp_all
  then show "vrow_base v = banks_of (bank v 0) (bank v 1) (bank v 2) (bank v 3)"
    by (simp add: banks_of_def bank_def VROW_BANK_SIZE_def m_def [symmetric])
  show "length (bank v 0) = 64" "length (bank v 1) = 64" "length (bank v 2) = 64" "length (bank v 3) = 64"
    using len by (simp_all add: bank_def VROW_BANK_SIZE_def m_def [symmetric])
qed

lemma banks_write:
  assumes "length b0 = 64" "length b1 = 64" "length b2 = 64" "length b3 = 64" "length x = 64"
  shows "buf_write (banks_of b0 b1 b2 b3) 0 x = Inr (banks_of x b1 b2 b3)"
    "buf_write (banks_of b0 b1 b2 b3) 64 x = Inr (banks_of b0 x b2 b3)"
    "buf_write (banks_of b0 b1 b2 b3) 128 x = Inr (banks_of b0 b1 x b3)"
    "buf_write (banks_of b0 b1 b2 b3) 192 x = Inr (banks_of b0 b1 b2 x)"
    "buf_read (banks_of b0 b1 b2 b3) 0 64 = Inr b0"
    "buf_read (banks_of b0 b1 b2 b3) 64 64 = Inr b1"
    "buf_read (banks_of b0 b1 b2 b3) 16 64 = Inr (drop 16 b0 @ take 16 b1)"
  using assms by (simp_all add: buf_write_def buf_read_def banks_of_def)

lemma banks_result:
  assumes "length b0 = 64" "length b1 = 64" "length b2 = 64" "length b3 = 64" "length x = 16"
  shows "buf_write (banks_of b0 b1 b2 b3) 80 x = Inr (banks_of b0 (take 16 b1 @ x @ drop 32 b1) b2 b3)"
  using assms by (simp add: buf_write_def banks_of_def)

lemmas bank_offsets = vrow_bank_off_def VROW_BANK_SIZE_def VROW_BANK_COUNT_def B0_INSTR_OFF_def B0_RESULT_OFF_def
  B0_CONTROL_SIZE_def MTE_RAW_INSTR_SIZE_def VROW_B0_OFFSET_def MTE_PAYLOAD_SIZE_def

text \<open>The payload of bank 0 as bank 0 is processed: its last 16 bytes are the first ones of bank 1.\<close>

definition b0_instr :: "platform \<Rightarrow> vrow_desc \<Rightarrow> mte_raw_instr" where
  "b0_instr pf v = instr_of_bytes pf (drop 16 (bank v 0) @ take 16 (bank v 1))"

lemma sigon_sigoff:
  assumes "sync_map_ref_sigon r h = Inr h1"
  shows "sync_map_ref_sigoff r h1 = sync_map_ref_sigoff r h"
    "\<exists>h2. sync_map_ref_sigoff r h = Inr h2"
proof -
  from assms obtain p qs where p: "ref_map r = Some p" "h p = Some qs" "unat (quad_index r) < length qs"
    "h1 = h(p \<mapsto> qs[unat (quad_index r) := qs ! unat (quad_index r) OR quad_bit (unat (bit_index r))])"
    by (auto simp: sync_map_ref_sigon_def fetch_or_def update_quad_def arr_def arr_set_def deref_def
        split: option.splits if_splits)
  have "(v OR w) AND NOT w = v AND NOT w" for v w :: u64 by (auto simp: bit_eq_iff bit_simps)
  with p show "sync_map_ref_sigoff r h1 = sync_map_ref_sigoff r h" "\<exists>h2. sync_map_ref_sigoff r h = Inr h2"
    by (simp_all add: sync_map_ref_sigoff_def fetch_and_def update_quad_def)
qed

lemma switch_simps [simp]:
  "vrow_base (vrow_fill_switch i v) = vrow_base v" "vrow_base (vrow_active_switch i v) = vrow_base v"
  "vrow_smap (vrow_fill_switch i v) = vrow_smap v" "vrow_smap (vrow_active_switch i v) = vrow_smap v"
  "vrow_stack (vrow_fill_switch i v) = vrow_stack v" "vrow_stack (vrow_active_switch i v) = vrow_stack v"
  "vrow_closed (vrow_fill_switch i v) = vrow_closed v" "vrow_closed (vrow_active_switch i v) = vrow_closed v"
  by (simp_all add: vrow_fill_switch_def vrow_active_switch_def)

lemma flush_banks:
  assumes "platform_ok pf" "length (vrow_base v) = VROW_BASE_SIZE"
  shows "vrow_force_flush pf (Some v) =
    Inr (Some (v\<lparr>vrow_base := replicate VROW_BASE_SIZE 0, vrow_states := VROW_STATE_EMPTY\<rparr>))"
proof -
  note b = banks_obtain [OF assms(2)]
  define z where "z = replicate 64 (0 :: u8)"
  have z: "simd_zero512 pf = z" "length z = 64" using assms(1) by (simp_all add: platform_ok_def z_def)
  have "banks_of z z z z = replicate VROW_BASE_SIZE 0"
    by (simp add: banks_of_def z_def VROW_BASE_SIZE_def flip: replicate_add)
  moreover have "fold_res (\<lambda>off b. buf_write b off z) [0, 64, 128, 192] (vrow_base v) = Inr (banks_of z z z z)"
    using b z(2) by (simp add: banks_write del: and_then_Inr_iff One_nat_def)
  ultimately show ?thesis by (simp add: vrow_force_flush_def z del: and_then_Inr_iff)
qed

lemma vrow_swap_bytes:
  assumes "platform_ok pf" "vrow_base v = banks_of b0 b1 b2 b3"
    and "length b0 = 64" "length b1 = 64" "length b2 = 64" "length b3 = 64"
  shows "vrow_bank_swap pf (Some v) 0 1 =
      Inr (True, Some (vrow_fill_switch 0 (vrow_fill_switch 1 (v\<lparr>vrow_base := banks_of b0 b0 b2 b3\<rparr>))))"
    "vrow_bank_swap pf (Some v) 1 2 =
      Inr (True, Some (vrow_fill_switch 1 (vrow_fill_switch 2 (v\<lparr>vrow_base := banks_of b0 b1 b1 b3\<rparr>))))"
  using assms by (simp_all add: vrow_bank_swap_def bank_offsets banks_write platform_ok_def vrow_fill_switch_def)

lemma vrow_bank_0_bytes:
  assumes "platform_ok pf" "length (vrow_base v) = VROW_BASE_SIZE"
    and "f (Some (b0_instr pf v)) (stack_ir (vrow_stack v) \<noteq> None) (Some 0) = Inr (result, len)"
  shows "\<exists>b1. length b1 = 64 \<and> vrow_bank_0_proc pf (Some v) (Some f) =
    Inr (opcode result \<noteq> ir_opcode_val IR_INVALID_OPCODE, Some (v\<lparr>vrow_base := banks_of (bank v 0) b1 (bank v 2) (bank v 3)\<rparr>))"
proof -
  note b = banks_obtain [OF assms(2)]
  let ?b1 = "take 16 (bank v 1) @ result_bytes pf result @ drop 32 (bank v 1)"
  have r: "length (result_bytes pf result) = 16" using assms(1) by (simp add: platform_ok_def)
  have "buf_read (vrow_base v) 16 64 = Inr (drop 16 (bank v 0) @ take 16 (bank v 1))"
    "buf_write (vrow_base v) 80 (result_bytes pf result) = Inr (banks_of (bank v 0) ?b1 (bank v 2) (bank v 3))"
    using b banks_write(7) [OF b(2-5) b(2)] banks_result [OF b(2-5) r] by simp_all
  then show ?thesis
    using assms(3) b r by (intro exI [of _ ?b1]) (simp add: vrow_bank_0_proc_def bank_offsets b0_instr_def)
qed

lemma states_round:
  "(((((((((s XOR 2) XOR 8) XOR 2) XOR 4) XOR 1) XOR 32) XOR 8) XOR 16) XOR 4) = s XOR (0x31 :: u8)"
proof -
  have "(((((((((s XOR 2) XOR 8) XOR 2) XOR 4) XOR 1) XOR 32) XOR 8) XOR 16) XOR 4) =
      s XOR (2 XOR (8 XOR (2 XOR (4 XOR (1 XOR (32 XOR (8 XOR (16 XOR 4))))))))" by (simp only: xor.assoc)
  also have "\<dots> = s XOR 0x31" by simp
  finally show ?thesis .
qed

text \<open>A round that waits, one that ends the thread, and one that takes a payload through the banks.\<close>

lemma round_wait: "\<not> vrow_closed v \<Longrightarrow> vrow_is_filled v 0 = 0 \<Longrightarrow> vrow_thread_round pf b0 b2 v h = Inr (Round_Wait, v, h)"
  by (simp add: vrow_thread_round_def)

lemma round_closed:
  assumes "platform_ok pf" "length (vrow_base v) = VROW_BASE_SIZE" "vrow_closed v"
  shows "vrow_thread_round pf b0 b2 v h =
    Inr (Round_Exit, v\<lparr>vrow_base := replicate VROW_BASE_SIZE 0, vrow_states := VROW_STATE_EMPTY\<rparr>, h)"
  using assms(3) by (simp add: vrow_thread_round_def vrow_thread_exit_def flush_banks [OF assms(1,2)])

lemma round_filled:
  assumes pf: "platform_ok pf" and len: "length (vrow_base v) = VROW_BASE_SIZE"
    and open_row: "\<not> vrow_closed v" "vrow_is_filled v 0 \<noteq> 0"
    and on: "sync_map_ref_sigon (vrow_smap v) h = Inr h1"
    and off: "sync_map_ref_sigoff (vrow_smap v) h = Inr h2"
    and f: "f (Some (b0_instr pf v)) (stack_ir (vrow_stack v) \<noteq> None) (Some 0) = Inr (result, len')"
  shows "vrow_thread_round pf (Some f) (Some g) v h =
    Inr (if opcode result = ir_opcode_val IR_INVALID_OPCODE
         then (Round_Exit, v\<lparr>vrow_base := replicate VROW_BASE_SIZE 0, vrow_states := VROW_STATE_EMPTY\<rparr>, h2)
         else (Round_Next, v\<lparr>vrow_base := banks_of (bank v 0) (bank v 0) (bank v 0) (bank v 3),
                 vrow_states := vrow_states v XOR 0x31\<rparr>, h2))"
proof -
  note b = banks_obtain [OF len]
  define v1 where "v1 = vrow_active_switch 0 v"
  have len1: "length (vrow_base v1) = VROW_BASE_SIZE" using len by (simp add: v1_def)
  have bank1: "bank v1 i = bank v i" for i by (simp add: bank_def v1_def)
  have "f (Some (b0_instr pf v1)) (stack_ir (vrow_stack v1) \<noteq> None) (Some 0) = Inr (result, len')"
    using f by (simp add: b0_instr_def bank1) (simp add: v1_def)
  from vrow_bank_0_bytes [where f = f, OF pf len1 this] obtain x where x: "length x = 64"
    and proc: "vrow_bank_0_proc pf (Some v1) (Some f) =
      Inr (opcode result \<noteq> ir_opcode_val IR_INVALID_OPCODE,
        Some (v1\<lparr>vrow_base := banks_of (bank v 0) x (bank v 2) (bank v 3)\<rparr>))" unfolding bank1 by blast
  define v2 where "v2 = v1\<lparr>vrow_base := banks_of (bank v 0) x (bank v 2) (bank v 3)\<rparr>"
  have smap: "vrow_smap v1 = vrow_smap v" "vrow_smap v2 = vrow_smap v" by (simp_all add: v1_def v2_def)
  have off1: "sync_map_ref_sigoff (vrow_smap v) h1 = Inr h2" using sigon_sigoff(1) [OF on] off by simp
  show ?thesis
  proof (cases "opcode result = ir_opcode_val IR_INVALID_OPCODE")
    case True
    have "length (vrow_base v2) = VROW_BASE_SIZE" using b x by (simp add: v2_def banks_of_def VROW_BASE_SIZE_def)
    note flush = flush_banks [OF pf this]
    show ?thesis
      using open_row True by (simp add: vrow_thread_round_def on proc flip: v1_def v2_def del: and_then_Inr_iff)
        (simp add: vrow_thread_fail_def vrow_thread_exit_def smap on proc off1 flush flip: v2_def del: and_then_Inr_iff,
         simp add: v2_def v1_def vrow_active_switch_def)
  next
    case False
    define v3 where "v3 = vrow_active_switch 0 (vrow_active_switch 1 v2)"
    define v4 where "v4 = vrow_fill_switch 0 (vrow_fill_switch 1 (v3\<lparr>vrow_base := banks_of (bank v 0) (bank v 0) (bank v 2) (bank v 3)\<rparr>))"
    define v5 where "v5 = vrow_active_switch 1 (vrow_active_switch 2 v4)"
    define v6 where "v6 = vrow_fill_switch 1 (vrow_fill_switch 2 (v5\<lparr>vrow_base := banks_of (bank v 0) (bank v 0) (bank v 0) (bank v 3)\<rparr>))"
    have "vrow_base v3 = banks_of (bank v 0) x (bank v 2) (bank v 3)" by (simp add: v3_def v2_def)
    from vrow_swap_bytes(1) [OF pf this b(2) x b(4,5)]
    have swap1: "vrow_bank_swap pf (Some v3) 0 1 = Inr (True, Some v4)" by (simp add: v4_def)
    have "vrow_base v5 = banks_of (bank v 0) (bank v 0) (bank v 2) (bank v 3)" by (simp add: v5_def v4_def)
    from vrow_swap_bytes(2) [OF pf this b(2,2) b(4,5)]
    have swap2: "vrow_bank_swap pf (Some v5) 1 2 = Inr (True, Some v6)" by (simp add: v6_def)
    have smap6: "vrow_smap v6 = vrow_smap v" by (simp add: v6_def v5_def v4_def v3_def smap)
    have v6: "v6 = v\<lparr>vrow_base := banks_of (bank v 0) (bank v 0) (bank v 0) (bank v 3), vrow_states := vrow_states v XOR 0x31\<rparr>"
      by (simp add: v6_def v5_def v4_def v3_def v2_def v1_def vrow_active_switch_def vrow_fill_switch_def states_round)
    have "vrow_thread_round pf (Some f) (Some g) v h = Inr (Round_Next, v6, h2)"
      using open_row False
      by (simp add: vrow_thread_round_def on proc vrow_bank_1_proc_def vrow_bank_2_proc_def smap smap6 off1 swap1 swap2
          flip: v1_def v2_def v3_def v5_def del: and_then_Inr_iff One_nat_def)
    with False v6 show ?thesis by simp
  qed
qed

section \<open>Serving payloads\<close>

text \<open>A client that loads payloads into bank 0 one by one and lets the thread take a round after each.\<close>

fun vrow_serve ::
  "platform \<Rightarrow> guest_to_ir_call \<Rightarrow> ir_to_host_call \<Rightarrow> u8 list list \<Rightarrow> vrow_desc \<Rightarrow> map_heap
    \<Rightarrow> (vrow_desc \<times> map_heap) res" where
  "vrow_serve pf f g [] v h = Inr (v, h)"
| "vrow_serve pf f g (p # ps) v h =
    and_then (vrow_bank_load pf (Some v) 0 p) (\<lambda>(ok, v'). and_then (deref v') (\<lambda>v.
    and_then (vrow_thread_round pf (Some f) (Some g) v h) (\<lambda>(r, v, h). vrow_serve pf f g ps v h)))"

lemma vrow_load_0:
  assumes "platform_ok pf" "length (vrow_base v) = VROW_BASE_SIZE" "vrow_is_filled v 0 = 0" "length p = 64"
  shows "vrow_bank_load pf (Some v) 0 p =
    Inr (True, Some (v\<lparr>vrow_base := banks_of p (bank v 1) (bank v 2) (bank v 3), vrow_states := vrow_states v XOR 1\<rparr>))"
proof -
  note b = banks_obtain [OF assms(2)]
  have "simd_store512 pf p = p" using assms(1,4) by (simp add: platform_ok_def)
  moreover have "buf_write (vrow_base v) 0 p = Inr (banks_of p (bank v 1) (bank v 2) (bank v 3))"
    using b banks_write(1) [OF b(2-5) assms(4)] by simp
  ultimately show ?thesis
    using assms(3) by (simp add: vrow_bank_load_def bank_offsets vrow_fill_switch_def del: and_then_Inr_iff One_nat_def)
qed

lemma bank_banks_of [simp]:
  assumes "vrow_base v = banks_of b0 b1 b2 b3" "length b0 = 64" "length b1 = 64" "length b2 = 64" "length b3 = 64"
  shows "bank v 0 = b0" "bank v 1 = b1" "bank v 2 = b2" "bank v 3 = b3" "length (vrow_base v) = VROW_BASE_SIZE"
  using assms by (simp_all add: bank_def banks_of_def VROW_BANK_SIZE_def VROW_BASE_SIZE_def)

text \<open>The reference of a row whose bit lies in its bitmap.\<close>

definition ref_at :: "map_heap \<Rightarrow> sync_map_ref \<Rightarrow> nat \<Rightarrow> u64 list \<Rightarrow> bool" where
  "ref_at h r p qs \<longleftrightarrow> ref_map r = Some p \<and> h p = Some qs \<and> unat (quad_index r) < length qs \<and> unat (bit_index r) < 64"

definition ref_clear :: "sync_map_ref \<Rightarrow> u64 list \<Rightarrow> u64 list" where
  "ref_clear r qs = clear_sig qs (64 * unat (quad_index r) + unat (bit_index r))"

lemma ref_at_ops:
  assumes "ref_at h r p qs"
  shows "\<exists>h1. sync_map_ref_sigon r h = Inr h1" "sync_map_ref_sigoff r h = Inr (h(p \<mapsto> ref_clear r qs))"
  using assms by (simp_all add: ref_at_def ref_clear_def clear_sig_def sync_map_ref_sigon_def sync_map_ref_sigoff_def
    fetch_or_def fetch_and_def update_quad_def)

lemma ref_clear_again: "ref_at h r p qs \<Longrightarrow> ref_clear r (ref_clear r qs) = ref_clear r qs"
  by (simp add: ref_at_def ref_clear_def clear_sig_def and.assoc)

lemma ref_at_clear: "ref_at h r p qs \<Longrightarrow> ref_at (h(p \<mapsto> ref_clear r qs)) r p (ref_clear r qs)"
  by (simp add: ref_at_def ref_clear_def)

lemma serve_one:
  assumes pf: "platform_ok pf" and len: "length (vrow_base v) = VROW_BASE_SIZE"
    and row: "\<not> vrow_closed v" "vrow_is_filled v 0 = 0" and at: "ref_at h (vrow_smap v) p qs"
    and p: "length pl = 64" and f: "\<And>i c l. \<exists>r n. f i c l = Inr (r, n) \<and> opcode r \<noteq> ir_opcode_val IR_INVALID_OPCODE"
  shows "\<exists>v'. vrow_serve pf f g (pl # ps) v h = vrow_serve pf f g ps v' (h(p \<mapsto> ref_clear (vrow_smap v) qs)) \<and>
    v' = v\<lparr>vrow_base := banks_of pl pl pl (bank v 3), vrow_states := vrow_states v XOR 0x30\<rparr>"
proof -
  note b = banks_obtain [OF len]
  define w where "w = v\<lparr>vrow_base := banks_of pl (bank v 1) (bank v 2) (bank v 3), vrow_states := vrow_states v XOR 1\<rparr>"
  have load: "vrow_bank_load pf (Some v) 0 pl = Inr (True, Some w)"
    unfolding w_def by (rule vrow_load_0 [OF pf len row(2) p])
  have "vrow_base w = banks_of pl (bank v 1) (bank v 2) (bank v 3)" by (simp add: w_def)
  note w = bank_banks_of [OF this p b(3-5)]
  have "\<not> bit (vrow_states v) 0"
    using row(2) and_BIT_eq_0_iff [of "vrow_states v" 0] by (simp add: vrow_is_filled_def BIT_def)
  then have "bit (vrow_states w AND 1) 0" by (simp add: w_def bit_simps)
  then have filled: "vrow_is_filled w 0 \<noteq> 0" by (auto simp: vrow_is_filled_def)
  obtain h1 where on: "sync_map_ref_sigon (vrow_smap w) h = Inr h1"
    using ref_at_ops(1) [OF at] by (auto simp: w_def)
  have off: "sync_map_ref_sigoff (vrow_smap w) h = Inr (h(p \<mapsto> ref_clear (vrow_smap v) qs))"
    using ref_at_ops(2) [OF at] by (simp add: w_def)
  obtain r n where r: "f (Some (b0_instr pf w)) (stack_ir (vrow_stack w) \<noteq> None) (Some 0) = Inr (r, n)"
    "opcode r \<noteq> ir_opcode_val IR_INVALID_OPCODE" using f by blast
  have "\<not> vrow_closed w" using row(1) by (simp add: w_def)
  note round = round_filled [where f = f and g = g, OF pf w(5) this filled on off r(1)]
  have "(vrow_states v XOR 1) XOR 0x31 = vrow_states v XOR 0x30" by (simp only: xor.assoc) simp
  then show ?thesis
    using round r(2) w by (simp add: load del: and_then_Inr_iff) (simp add: w_def)
qed

lemma serve_all:
  assumes pf: "platform_ok pf" and f: "\<And>i c l. \<exists>r n. f i c l = Inr (r, n) \<and> opcode r \<noteq> ir_opcode_val IR_INVALID_OPCODE"
  shows "length (vrow_base v) = VROW_BASE_SIZE \<Longrightarrow> \<not> vrow_closed v \<Longrightarrow> vrow_is_filled v 0 = 0 \<Longrightarrow>
    ref_at h (vrow_smap v) p qs \<Longrightarrow> \<forall>pl \<in> set ps. length pl = 64 \<Longrightarrow> ps \<noteq> [] \<Longrightarrow>
    vrow_serve pf f g ps v h =
      Inr (v\<lparr>vrow_base := banks_of (last ps) (last ps) (last ps) (bank v 3),
             vrow_states := (if even (length ps) then vrow_states v else vrow_states v XOR 0x30)\<rparr>,
           h(p \<mapsto> ref_clear (vrow_smap v) qs))"
proof (induction ps arbitrary: v h qs)
  case (Cons pl ps)
  have pl: "length pl = 64" using Cons.prems(5) by simp
  define v' where "v' = v\<lparr>vrow_base := banks_of pl pl pl (bank v 3), vrow_states := vrow_states v XOR 0x30\<rparr>"
  have one: "vrow_serve pf f g (pl # ps) v h = vrow_serve pf f g ps v' (h(p \<mapsto> ref_clear (vrow_smap v) qs))"
    using serve_one [where f = f, OF pf Cons.prems(1-4) pl f] v'_def by blast
  have "vrow_base v' = banks_of pl pl pl (bank v 3)" by (simp add: v'_def)
  note b = bank_banks_of [OF this pl pl pl banks_obtain(5) [OF Cons.prems(1)]]
  have filled: "vrow_is_filled v' 0 = 0"
    using Cons.prems(3) and_BIT_eq_0_iff [of "vrow_states v" 0] and_BIT_eq_0_iff [of "vrow_states v XOR 0x30" 0]
    by (simp add: vrow_is_filled_def BIT_def v'_def bit_simps)
  have at: "ref_at (h(p \<mapsto> ref_clear (vrow_smap v) qs)) (vrow_smap v') p (ref_clear (vrow_smap v) qs)"
    using ref_at_clear [OF Cons.prems(4)] by (simp add: v'_def)
  have twice: "(vrow_states v XOR 0x30) XOR 0x30 = vrow_states v" by (simp add: xor.assoc)
  show ?case
  proof (cases "ps = []")
    case True
    show ?thesis unfolding one using True by (simp add: v'_def fun_upd_def)
  next
    case False
    have "\<not> vrow_closed v'" using Cons.prems(2) by (simp add: v'_def)
    have frame: "bank v' 3 = bank v 3" "vrow_smap v' = vrow_smap v" using b(4) by (simp_all add: v'_def)
    have states: "(if even (length ps) then vrow_states v' else vrow_states v' XOR 0x30) =
        (if even (length (pl # ps)) then vrow_states v else vrow_states v XOR 0x30)"
      using twice by (simp add: v'_def)
    have upd: "v'\<lparr>vrow_base := x, vrow_states := y\<rparr> = v\<lparr>vrow_base := x, vrow_states := y\<rparr>" for x y
      by (simp add: v'_def)
    have "\<forall>pl \<in> set ps. length pl = 64" using Cons.prems(5) by simp
    note IH = Cons.IH [OF b(5) \<open>\<not> vrow_closed v'\<close> filled at this False]
    have "last (pl # ps) = last ps" using False by simp
    then show ?thesis
      unfolding one IH frame states upd ref_clear_again [OF Cons.prems(4)] fun_upd_upd by (simp only:)
  qed
qed simp

section \<open>Properties\<close>

text \<open>C21: a round on an open row with a payload in bank 0 calls the translation with the instruction of
  the payload. When it returns an invalid opcode the thread ends, with the row flushed and its signal
  off. Otherwise the banks 1 and 2 both end up with the bytes of bank 0, whatever the translation
  returned: its result lies behind the 64 bytes of bank 0, in bank 1, and the first bank swap
  overwrites it. Of the state bits exactly F0, F2 and A2 are switched.\<close>

theorem vrow_round_result:
  assumes "platform_ok pf" "length (vrow_base v) = VROW_BASE_SIZE" "\<not> vrow_closed v" "vrow_is_filled v 0 \<noteq> 0"
    and "ref_at h (vrow_smap v) p qs"
    and "f (Some (b0_instr pf v)) (stack_ir (vrow_stack v) \<noteq> None) (Some 0) = Inr (result, len)"
  shows "vrow_thread_round pf (Some f) (Some g) v h =
    Inr (if opcode result = ir_opcode_val IR_INVALID_OPCODE
         then (Round_Exit, v\<lparr>vrow_base := replicate VROW_BASE_SIZE 0, vrow_states := VROW_STATE_EMPTY\<rparr>,
               h(p \<mapsto> ref_clear (vrow_smap v) qs))
         else (Round_Next, v\<lparr>vrow_base := banks_of (bank v 0) (bank v 0) (bank v 0) (bank v 3),
                 vrow_states := vrow_states v XOR 0x31\<rparr>, h(p \<mapsto> ref_clear (vrow_smap v) qs)))"
proof -
  obtain h1 where on: "sync_map_ref_sigon (vrow_smap v) h = Inr h1" using ref_at_ops(1) [OF assms(5)] by blast
  show ?thesis by (rule round_filled [where f = f, OF assms(1-4) on ref_at_ops(2) [OF assms(5)] assms(6)])
qed

definition wit_platform :: platform where
  "wit_platform = \<lparr>simd_store512 = (\<lambda>bs. bs), simd_zero512 = replicate 64 0,
     instr_of_bytes = (\<lambda>_. mte_raw_instr_zero), result_bytes = (\<lambda>_. replicate 16 1)\<rparr>"

lemma wit_platform_ok: "platform_ok wit_platform"
  by (simp add: platform_ok_def wit_platform_def)

definition wit_row :: "u8 \<Rightarrow> vrow_desc" where
  "wit_row s = \<lparr>vrow_base = replicate 64 5 @ replicate 192 0,
     vrow_smap = \<lparr>ref_map = Some 7, quad_index = 0, byte_index = 0, bit_index = 3, ref_size = 1\<rparr>,
     vrow_stack = \<lparr>stack_ir = None, curr_bank = 0\<rparr>, vrow_states = s, vrow_closed = False\<rparr>"

definition wit_translate :: guest_to_ir_call where
  "wit_translate = (\<lambda>i c l. Inr (ir_raw_instr_zero\<lparr>opcode := 1\<rparr>, l))"

definition wit_host :: ir_to_host_call where
  "wit_host = (\<lambda>i c l. Inr (mte_raw_instr_zero, l))"

lemma wit_row_facts:
  "length (vrow_base (wit_row s)) = VROW_BASE_SIZE" "\<not> vrow_closed (wit_row s)"
  "ref_at (wit_mheap [8]) (vrow_smap (wit_row s)) 7 [8]" "ref_clear (vrow_smap (wit_row s)) [8] = [0]"
  "bank (wit_row s) 0 = replicate 64 5" "bank (wit_row s) 3 = replicate 64 0"
proof -
  show "length (vrow_base (wit_row s)) = VROW_BASE_SIZE" "\<not> vrow_closed (wit_row s)"
    "ref_at (wit_mheap [8]) (vrow_smap (wit_row s)) 7 [8]"
    "bank (wit_row s) 0 = replicate 64 5" "bank (wit_row s) 3 = replicate 64 0"
    by (simp_all add: wit_row_def VROW_BASE_SIZE_def ref_at_def wit_mheap_def bank_def VROW_BANK_SIZE_def)
  show "ref_clear (vrow_smap (wit_row s)) [8] = [0]"
    unfolding wit_row_def by code_simp
qed

lemma vrow_round_result_witness:
  "vrow_thread_round wit_platform (Some wit_translate) (Some wit_host) (wit_row 3) (wit_mheap [8]) =
    Inr (Round_Next, (wit_row 3)\<lparr>vrow_base := banks_of (replicate 64 5) (replicate 64 5) (replicate 64 5) (replicate 64 0),
      vrow_states := 0x32\<rparr>, (wit_mheap [8])(7 \<mapsto> [0]))"
proof -
  have filled: "vrow_is_filled (wit_row 3) 0 \<noteq> 0" by (simp add: vrow_is_filled_def wit_row_def)
  have f: "wit_translate (Some (b0_instr wit_platform (wit_row 3))) (stack_ir (vrow_stack (wit_row 3)) \<noteq> None) (Some 0) =
    Inr (ir_raw_instr_zero\<lparr>opcode := 1\<rparr>, Some 0)" by (simp add: wit_translate_def)
  have "vrow_states (wit_row 3) XOR 0x31 = 0x32" by (simp add: wit_row_def)
  then show ?thesis
    unfolding vrow_round_result [where f = wit_translate, OF wit_platform_ok wit_row_facts(1,2) filled wit_row_facts(3) f] wit_row_facts by simp
qed

text \<open>A row that starts with only its thread active in bank 0 and serves payloads the translation
  accepts ends, after an even number of them, in the same states, and after an odd number with bank 2
  marked as active and filled as well: nothing empties bank 2, so its two bits toggle. Each payload is
  left in the banks 0, 1 and 2 and the signal of the row is off.\<close>

theorem vrow_serve_states:
  assumes "platform_ok pf" "\<And>i c l. \<exists>r n. f i c l = Inr (r, n) \<and> opcode r \<noteq> ir_opcode_val IR_INVALID_OPCODE"
    and "length (vrow_base v) = VROW_BASE_SIZE" "\<not> vrow_closed v" "vrow_states v = 2" "ref_at h (vrow_smap v) p qs"
    and "\<forall>pl \<in> set ps. length pl = 64" "ps \<noteq> []"
  shows "\<exists>v'. vrow_serve pf f g ps v h = Inr (v', h(p \<mapsto> ref_clear (vrow_smap v) qs)) \<and>
    vrow_states v' = (if even (length ps) then 2 else 0x32) \<and>
    bank v' 0 = last ps \<and> bank v' 1 = last ps \<and> bank v' 2 = last ps"
proof -
  have "vrow_is_filled v 0 = 0" using assms(5) by (simp add: vrow_is_filled_def)
  note serve = serve_all [where f = f, OF assms(1,2,3,4) this assms(6,7,8), of g]
  have l: "length (last ps) = 64" using assms(7,8) by simp
  let ?v = "v\<lparr>vrow_base := banks_of (last ps) (last ps) (last ps) (bank v 3),
             vrow_states := (if even (length ps) then vrow_states v else vrow_states v XOR 0x30)\<rparr>"
  have "vrow_base ?v = banks_of (last ps) (last ps) (last ps) (bank v 3)" by simp
  note b = bank_banks_of [OF this l l l banks_obtain(5) [OF assms(3)]]
  show ?thesis using serve b(1-3) assms(5) by (intro exI [of _ ?v]) simp
qed

lemma vrow_serve_states_witness:
  "\<exists>v'. vrow_serve wit_platform wit_translate wit_host [replicate 64 1] (wit_row 2) (wit_mheap [8]) =
      Inr (v', (wit_mheap [8])(7 \<mapsto> [0])) \<and> vrow_states v' = 0x32 \<and> bank v' 2 = replicate 64 1"
proof -
  have f: "\<exists>r n. wit_translate i c l = Inr (r, n) \<and> opcode r \<noteq> ir_opcode_val IR_INVALID_OPCODE" for i c l
    by (simp add: wit_translate_def)
  have s: "vrow_states (wit_row 2) = 2" by (simp add: wit_row_def)
  have ps: "\<forall>pl \<in> set [replicate 64 (1 :: u8)]. length pl = 64" "[replicate 64 (1 :: u8)] \<noteq> []" by simp_all
  show ?thesis
    using vrow_serve_states [where f = wit_translate and g = wit_host,
      OF wit_platform_ok f wit_row_facts(1,2) s wit_row_facts(3) ps] wit_row_facts(4) by auto
qed

text \<open>\<^verbatim>\<open>vrow_create\<close> returns a row whose states say that the thread is in bank 0, which the start of
  the thread asserts; its close flag is what the memory held. While the thread runs \<^verbatim>\<open>vrow_delete\<close> waits;
  the first round of the thread after the row was closed ends it and empties the row, and then
  \<^verbatim>\<open>vrow_delete\<close> returns.\<close>

theorem vrow_lifecycle:
  assumes "platform_ok pf" "length (vrow_base mem) = VROW_BASE_SIZE"
  shows "\<exists>v. vrow_create (Some ir) i (Some s) True (Some mem) 0 0 = Inr (AX_SUCC, Some v) \<and>
    vrow_closed v = vrow_closed mem \<and> vrow_states v = 2 \<and>
    vrow_thread_start (Some v) = Inr (Some (call_guest_to_ir ir), Some (call_ir_to_host ir)) \<and>
    vrow_delete (Some v) = Inl Diverges \<and>
    (\<exists>v' v''. vrow_thread_round pf b0 b2 (vrow_close v) h = Inr (Round_Exit, v', h) \<and>
       vrow_delete (Some v') = Inr (Some v''))"
proof -
  obtain r where r: "sync_map_ref_init (Some s) i (Some (vrow_smap mem)) = (AX_SUCC, Some r)"
    by (simp add: sync_map_ref_init_def)
  define v where "v = mem\<lparr>vrow_states := 2, vrow_smap := r, vrow_stack := \<lparr>stack_ir = Some ir, curr_bank = 0\<rparr>\<rparr>"
  have "vrow_create (Some ir) i (Some s) True (Some mem) 0 0 = Inr (AX_SUCC, Some v)"
    by (simp add: vrow_create_def r vrow_thread_init_def vrow_active_switch_def VROW_STATE_EMPTY_def v_def Let_def)
  moreover have "vrow_thread_start (Some v) = Inr (Some (call_guest_to_ir ir), Some (call_ir_to_host ir))"
    by (simp add: vrow_thread_start_def vrow_is_active_def v_def)
  moreover have "vrow_delete (Some v) = Inl Diverges" by (simp add: vrow_delete_def vrow_close_def v_def VROW_STATE_EMPTY_def)
  moreover have "length (vrow_base (vrow_close v)) = VROW_BASE_SIZE" "vrow_closed (vrow_close v)"
    using assms(2) by (simp_all add: vrow_close_def v_def)
  note round_closed [OF assms(1) this, of b0 b2 h]
  moreover have "vrow_closed v = vrow_closed mem" "vrow_states v = 2" by (simp_all add: v_def)
  ultimately show ?thesis by (auto simp: vrow_delete_def vrow_close_def VROW_STATE_EMPTY_def)
qed

definition wit_ir :: ir_context where
  "wit_ir = \<lparr>guest_base = [], guest_capacity = 0, host_base = [], host_capacity = 0, guest_ptr = 0, host_ptr = 0,
     guest_map = None, host_map = None, guest_to_ir = Some wit_translate, ir_to_host = None, guest_reg_fetch = None,
     guest_arch = MIPS32, host_arch = INTEL64, version = 0, blocked = False\<rparr>"

lemma vrow_lifecycle_witness:
  "\<exists>v. vrow_create (Some wit_ir) 3 (Some wit_smap) True (Some (wit_row 9)) 0 0 = Inr (AX_SUCC, Some v) \<and>
    vrow_delete (Some v) = Inl Diverges"
  using vrow_lifecycle [OF wit_platform_ok wit_row_facts(1), of wit_ir 3 wit_smap 9] by blast

end
