(* ===== verification/Sched.thy ===== *)
theory Sched
  imports Vrow Bitpool
begin

text \<open>
  The scheduler (\<^verbatim>\<open>pipe/sched.h\<close>, \<^verbatim>\<open>sched.c\<close>): a queue of payloads, which is a pool of 64 buckets of
  64 bytes, a bitmap of busy rows, and a thread that moves payloads from the queue to free rows. The
  theory has creation and deletion, pushing, popping and one round of the thread's loop, as they run
  without interference, and the consequences of one interleaving of a push with a round.
\<close>

section \<open>Payloads and the scheduler's state\<close>

fun mte_prior_val :: "mte_prior \<Rightarrow> u8" where
  "mte_prior_val MTE_PRIOR_MIN = 0"
| "mte_prior_val PRIOR_MIN = 1"
| "mte_prior_val PRIOR_LOW = 2"
| "mte_prior_val PRIOR_MOD = 3"
| "mte_prior_val PRIOR_MED = 4"
| "mte_prior_val PRIOR_HIGH = 5"
| "mte_prior_val PRIOR_VERY_HIGH = 6"
| "mte_prior_val PRIOR_REAL = 7"
| "mte_prior_val PRIOR_MAX = 8"
| "mte_prior_val MTE_PRIOR_MAX = 9"

record vrow_payload =
  pl_state :: u8
  pl_priority :: mte_prior
  pl_control :: "u8 list"
  pl_data :: "u8 list"

text \<open>The 64 bytes of a payload: state, priority, 14 control bytes and 48 data bytes.\<close>

definition payload_bytes :: "vrow_payload \<Rightarrow> u8 list" where
  "payload_bytes p = [pl_state p, mte_prior_val (pl_priority p)] @ pl_control p @ pl_data p"

definition payload_wf :: "vrow_payload \<Rightarrow> bool" where
  "payload_wf p \<longleftrightarrow> length (pl_control p) = 0xe \<and> length (pl_data p) = 0x30"

definition VROW_PAYLOAD_SIZE :: u32 where "VROW_PAYLOAD_SIZE = 64"

record sched_context =
  sched_ir :: "ir_context option"
  sched_queue :: "bitpool_desc option"
  sched_smap :: sync_map_desc
  sched_rows :: "vrow_desc option list"
  sched_count :: u8
  sched_state :: u8

definition sched_is_terminated :: "sched_context \<Rightarrow> u8" where "sched_is_terminated s = sched_state s AND 0x02"
definition sched_terminate :: "sched_context \<Rightarrow> sched_context" where "sched_terminate s = s\<lparr>sched_state := sched_state s OR 0x02\<rparr>"
definition sched_close :: "sched_context \<Rightarrow> sched_context" where "sched_close s = s\<lparr>sched_state := sched_state s OR 0x01\<rparr>"
definition sched_is_closed :: "sched_context \<Rightarrow> u8" where "sched_is_closed s = sched_state s AND 0x01"

definition sched_context_inv :: "sched_context option \<Rightarrow> bool res" where
  "sched_context_inv sched =
    (case sched of None \<Rightarrow> Inr True
     | Some s \<Rightarrow>
       and_then (asrt (sched_ir s \<noteq> None)) (\<lambda>_. and_then (asrt (sched_queue s \<noteq> None)) (\<lambda>_.
       and_then (deref (sched_queue s)) (\<lambda>q. and_then (asrt (bucket_size q = VROW_PAYLOAD_SIZE)) (\<lambda>_. Inr False)))))"

section \<open>Pushing and popping\<close>

definition sched_push ::
  "simd_store \<Rightarrow> sched_context option \<Rightarrow> vrow_payload \<Rightarrow> u32 option \<Rightarrow> map_heap
    \<Rightarrow> (bool \<times> sched_context option \<times> u32 option \<times> map_heap) res" where
  "sched_push simd sched pl queue_index h =
    and_then (sched_context_inv sched) (\<lambda>bad.
      if bad then Inr (False, sched, queue_index, h)
      else
        and_then (deref sched) (\<lambda>s.
        and_then (bitpool_prior_load simd (sched_queue s) (Some (payload_bytes pl)) (pl_priority pl) h) (\<lambda>(r, q, h).
          (let s' = Some (s\<lparr>sched_queue := q\<rparr>)
           in if load_code r \<noteq> AX_SUCC then Inr (False, s', queue_index, h)
              else Inr (True, s', map_option (\<lambda>_. load_index r) queue_index, h)))))"

text \<open>
  \<^verbatim>\<open>sched_pop\<close> returns a \<^verbatim>\<open>bool\<close> and two of its branches return an error code, which is not 0 and so
  becomes true.
\<close>

definition axres_bool :: "axres \<Rightarrow> bool" where "axres_bool r = (r \<noteq> AX_SUCC)"

definition bucket_payload :: "bitpool_desc \<Rightarrow> u32 \<Rightarrow> u8 list res" where
  "bucket_payload q i =
    and_then (bitpool_index_to_bucket q i) (\<lambda>off. and_then (deref (bucket_base q)) (\<lambda>base.
      buf_read base off (unat VROW_PAYLOAD_SIZE)))"

definition sched_pop ::
  "platform \<Rightarrow> sched_context option \<Rightarrow> u8 \<Rightarrow> u32 \<Rightarrow> map_heap \<Rightarrow> (bool \<times> sched_context option \<times> map_heap) res" where
  "sched_pop pf sched vrow_index queue_index h =
    and_then (sched_context_inv sched) (\<lambda>bad.
      if bad then Inr (axres_bool AX_INV_ARG, sched, h)
      else
        and_then (deref sched) (\<lambda>s. and_then (deref (sched_queue s)) (\<lambda>q.
          if sched_count s \<le> vrow_index \<or> bucket_count q \<le> queue_index then Inr (axres_bool AX_INV_DATA, sched, h)
          else
            and_then (arr (sched_rows s) (unat vrow_index)) (\<lambda>row.
            and_then (bucket_payload q queue_index) (\<lambda>pl.
            and_then (vrow_bank_load pf row 0 pl) (\<lambda>(ok, row').
            and_then (arr_set (sched_rows s) (unat vrow_index) row') (\<lambda>rows.
              if \<not> ok then Inr (False, Some (s\<lparr>sched_rows := rows\<rparr>), h)
              else
                and_then (bitpool_prior_unload (Some q) queue_index h) (\<lambda>(q', h).
                  Inr (True, Some (s\<lparr>sched_rows := rows, sched_queue := q'\<rparr>), h)))))))))"

section \<open>The scheduler's thread (sched_main)\<close>

text \<open>
  \<open>any\<close> stands for the library's comparison of the four presence counters with 0. One round of the
  loop either ends the thread or goes on.
\<close>

definition sched_main_round ::
  "(u32 list \<Rightarrow> bool) \<Rightarrow> platform \<Rightarrow> sched_context \<Rightarrow> u32 list \<Rightarrow> map_heap
    \<Rightarrow> (bool \<times> sched_context \<times> u32 list \<times> map_heap) res" where
  "sched_main_round any pf s disp h =
    (if sched_is_closed s \<noteq> 0 then Inr (False, sched_terminate s, disp, h)
     else
       and_then (deref (sched_queue s)) (\<lambda>q.
        if \<not> any (presence q) then Inr (True, s, disp, h)
        else
          and_then (sync_map_sig_first 0 (ucast (sched_count s)) (Some (sched_smap s)) (Some 0) h) (\<lambda>(found, vrow_i, h).
           if \<not> found then Inr (True, s, disp, h)
           else
             and_then (deref vrow_i) (\<lambda>vrow_i.
             and_then (bitpool_prior_unload_disp (Some q) disp h) (\<lambda>(r, disp, h).
              if \<not> disp_succ r
              then and_then (sync_map_sigoff (sched_smap s) vrow_i h) (\<lambda>h. Inr (True, s, disp, h))
              else
                and_then (sched_pop pf (Some s) (ucast vrow_i) (ucast (disp_bucket_i r)) h) (\<lambda>(_, s', h).
                and_then (deref s') (\<lambda>s'. Inr (True, s', disp, h))))))))"

section \<open>Creation and deletion\<close>

definition sched_delete :: "sched_context option \<Rightarrow> map_heap \<Rightarrow> map_heap res" where
  "sched_delete sched h =
    (case sched of None \<Rightarrow> Inr h
     | Some s0 \<Rightarrow>
       (let s = sched_close s0
        in if sched_is_terminated s = 0 then Inl Diverges
           else
             and_then (fold_res (\<lambda>i _. and_then (arr (sched_rows s) i) (\<lambda>row. and_then (vrow_delete row) (\<lambda>_. Inr ())))
                [0..<unat (sched_count s)] ()) (\<lambda>_.
              (let h1 = bitpool_delete (sched_queue s) h
               in Inr (snd (sync_map_disp (Some (sched_smap s)) h1))))))"

text \<open>
  The loop that creates the rows. \<open>mem\<close> gives the memory of each row, \<open>attr\<close> and \<open>thr\<close> the results of
  its pthread calls.
\<close>

fun create_rows ::
  "ir_context option \<Rightarrow> sync_map_desc \<Rightarrow> (nat \<Rightarrow> vrow_desc option) \<Rightarrow> (nat \<Rightarrow> 32 word) \<Rightarrow> (nat \<Rightarrow> 32 word)
    \<Rightarrow> nat list \<Rightarrow> vrow_desc option list \<Rightarrow> (axres \<times> vrow_desc option list) res" where
  "create_rows ir smap mem attr thr [] rows = Inr (AX_SUCC, rows)"
| "create_rows ir smap mem attr thr (i # is) rows =
    and_then (vrow_create ir (of_nat i) (Some smap) True (mem i) (attr i) (thr i)) (\<lambda>(r, row).
      if r \<noteq> AX_SUCC then Inr (r, rows)
      else and_then (arr_set rows i row) (\<lambda>rows'. create_rows ir smap mem attr thr is rows'))"

text \<open>
  \<open>rows0\<close> is the content of the fresh row array, \<open>mp\<close> and \<open>map_mem\<close> the memory of the row bitmap; the
  parameters after them are those of \<open>create_rows\<close> and of \<open>bitpool_create\<close>. The thread that is started
  at the end is \<open>sched_main_round\<close>; the result of \<^verbatim>\<open>pthread_create\<close> is not looked at.
\<close>

definition sched_create ::
  "ir_context option \<Rightarrow> u8 \<Rightarrow> bool \<Rightarrow> vrow_desc option list \<Rightarrow> nat option \<Rightarrow> u64 list
    \<Rightarrow> (nat \<Rightarrow> vrow_desc option) \<Rightarrow> (nat \<Rightarrow> 32 word) \<Rightarrow> (nat \<Rightarrow> 32 word)
    \<Rightarrow> bitpool_desc option \<Rightarrow> nat option \<Rightarrow> u64 list \<Rightarrow> (nat \<Rightarrow> u8 list option) \<Rightarrow> map_heap
    \<Rightarrow> (axres \<times> sched_context option \<times> map_heap) res" where
  "sched_create ir vrow_count has_buf rows0 mp map_mem mem attr thr qmem qp qmap_mem base h =
    (if ir = None \<or> vrow_count = 0 then Inr (AX_INV_ARG, None, h)
     else if \<not> has_buf then Inr (AX_INV_BUF, None, h)
     else
      (let s = \<lparr>sched_ir = ir, sched_queue = None, sched_smap = sync_map_desc_zero, sched_rows = rows0,
                sched_count = vrow_count, sched_state = 0\<rparr>
       in case sync_map_init ((ucast vrow_count div 64 + 1) * 64) (Some (sched_smap s)) mp map_mem h of
            (r, None, h1) \<Rightarrow> Inr (r, None, h1)
          | (r, Some smap, h1) \<Rightarrow>
             (let s1 = s\<lparr>sched_smap := smap\<rparr>
              in if r \<noteq> AX_SUCC then and_then (sched_delete (Some s1) h1) (\<lambda>h2. Inr (r, None, h2))
                 else
                   and_then (create_rows ir smap mem attr thr [0..<unat vrow_count] rows0) (\<lambda>(r2, rows).
                     (let s2 = s1\<lparr>sched_rows := rows\<rparr>
                      in if r2 \<noteq> AX_SUCC then and_then (sched_delete (Some s2) h1) (\<lambda>h2. Inr (r2, None, h2))
                         else
                           and_then (bitpool_create 64 BITPOOL_BUCKET_AVX512 BITPOOL_PERC_DEFAULT True qmem qp qmap_mem base h1)
                             (\<lambda>(r3, q, h3).
                               (let s3 = s2\<lparr>sched_queue := q\<rparr>
                                in if r3 \<noteq> AX_SUCC then and_then (sched_delete (Some s3) h3) (\<lambda>h4. Inr (r3, None, h4))
                                   else Inr (AX_SUCC, Some s3, h3))))))))"

section \<open>Well-formed schedulers\<close>

definition sched_ok :: "sched_context \<Rightarrow> bitpool_desc \<Rightarrow> map_heap \<Rightarrow> nat \<Rightarrow> u64 list \<Rightarrow> nat \<Rightarrow> u64 list \<Rightarrow> bool" where
  "sched_ok s q h p qs pv vs \<longleftrightarrow>
     sched_ir s \<noteq> None \<and> sched_queue s = Some q \<and> bucket_size q = VROW_PAYLOAD_SIZE \<and> bucket_count q \<le> 256 \<and>
     pool_ok q h p qs \<and> smap_at h (sched_smap s) pv vs \<and> p \<noteq> pv \<and>
     length (sched_rows s) = unat (sched_count s) \<and> unat (sched_count s) \<le> 64 * length vs"

lemma sched_ok_inv: "sched_ok s q h p qs pv vs \<Longrightarrow> sched_context_inv (Some s) = Inr False"
  by (simp add: sched_ok_def sched_context_inv_def del: and_then_Inr_iff)

lemma pool_ok_other: "pool_ok q h p qs \<Longrightarrow> p \<noteq> pv \<Longrightarrow> pool_ok q (h(pv \<mapsto> vs)) p qs"
  by (simp add: pool_ok_def smap_at_def)

lemma bucket_payload_at:
  assumes "pool_ok q h p qs" "bucket_size q = VROW_PAYLOAD_SIZE" "j < 64 * length qs"
  shows "bucket_payload q (of_nat j) = Inr (bucket_at q j)" "length (bucket_at q j) = 64"
proof -
  obtain base where base: "bucket_base q = Some base" "length base = 64 * unat (bucket_count q)"
    using assms(1,2) by (auto simp: pool_ok_def VROW_PAYLOAD_SIZE_def)
  have c: "64 * length qs = unat (bucket_count q)" using assms(1) by (simp add: pool_ok_def)
  have "64 * j + 64 \<le> length base" using base(2) assms(3) c by simp
  then show "bucket_payload q (of_nat j) = Inr (bucket_at q j)" "length (bucket_at q j) = 64"
    using pool_bucket_offset(2) [OF assms(1,3)] assms(2) base(1)
    by (simp_all add: bucket_payload_def bucket_at_def chunk_def buf_read_def VROW_PAYLOAD_SIZE_def)
qed

lemma clear_sig_again [simp]: "clear_sig (clear_sig qs j) j = clear_sig qs j"
proof (cases "j div 64 < length qs")
  case True
  then show ?thesis by (simp add: clear_sig_def and.assoc)
next
  case False
  then show ?thesis by (simp add: clear_sig_def not_less list_update_beyond)
qed

text \<open>The row after a payload was loaded into its bank 0.\<close>

definition row_loaded :: "vrow_desc \<Rightarrow> u8 list \<Rightarrow> vrow_desc" where
  "row_loaded v pl = v\<lparr>vrow_base := banks_of pl (bank v 1) (bank v 2) (bank v 3), vrow_states := vrow_states v XOR 1\<rparr>"

definition row_ready :: "vrow_desc \<Rightarrow> bool" where
  "row_ready v \<longleftrightarrow> length (vrow_base v) = VROW_BASE_SIZE \<and> vrow_is_filled v 0 = 0"

lemma row_loaded_bank:
  assumes "row_ready v" "length pl = 64"
  shows "bank (row_loaded v pl) 0 = pl" "vrow_is_filled (row_loaded v pl) 0 \<noteq> 0"
proof -
  have len: "length (vrow_base v) = VROW_BASE_SIZE" using assms(1) by (simp add: row_ready_def)
  have "vrow_base (row_loaded v pl) = banks_of pl (bank v 1) (bank v 2) (bank v 3)" by (simp add: row_loaded_def)
  from bank_banks_of(1) [OF this assms(2) banks_obtain(3-5) [OF len]] show "bank (row_loaded v pl) 0 = pl" .
  have "\<not> bit (vrow_states v) 0"
    using assms(1) and_BIT_eq_0_iff [of "vrow_states v" 0] by (simp add: row_ready_def vrow_is_filled_def BIT_def)
  then have "bit (vrow_states (row_loaded v pl) AND 1) 0" by (simp add: row_loaded_def bit_simps)
  then show "vrow_is_filled (row_loaded v pl) 0 \<noteq> 0" by (auto simp: vrow_is_filled_def)
qed

text \<open>Popping bucket \<open>j\<close> into row \<open>i\<close>.\<close>

lemma sched_pop_result:
  assumes ok: "sched_ok s q h p qs pv vs" and pf: "platform_ok pf"
    and i: "unat vi = i" "i < unat (sched_count s)" "sched_rows s ! i = Some v" "row_ready v"
    and r: "r < 4" "range_mem (ranges q ! r) j"
  defines "q' \<equiv> q\<lparr>presence := (presence q)[r := presence q ! r - 1]\<rparr>"
  shows "sched_pop pf (Some s) vi (of_nat j) h =
    Inr (True, Some (s\<lparr>sched_rows := (sched_rows s)[i := Some (row_loaded v (bucket_at q j))], sched_queue := Some q'\<rparr>),
      h(p \<mapsto> clear_sig qs j))"
    and "pool_ok q' (h(p \<mapsto> clear_sig qs j)) p (clear_sig qs j)"
proof -
  have q: "sched_queue s = Some q" "bucket_size q = VROW_PAYLOAD_SIZE" and pool: "pool_ok q h p qs"
    and rows: "length (sched_rows s) = unat (sched_count s)" using ok by (simp_all add: sched_ok_def)
  have j: "j < 64 * length qs" using pool_range(2) [OF pool r(1)] r(2) by (simp add: range_mem_def)
  note payload = bucket_payload_at [OF pool q(2) j]
  note unload = prior_unload_result [OF pool r, folded q'_def]
  show "pool_ok q' (h(p \<mapsto> clear_sig qs j)) p (clear_sig qs j)" by (rule unload(2))
  have "\<not> sched_count s \<le> vi" using i(1,2) by (simp add: word_le_nat_alt)
  moreover have "\<not> bucket_count q \<le> of_nat j"
    using j pool by (simp add: word_le_nat_alt pool_bucket_offset(1) [OF pool j] pool_ok_def)
  moreover have "vrow_bank_load pf (Some v) 0 (bucket_at q j) = Inr (True, Some (row_loaded v (bucket_at q j)))"
    unfolding row_loaded_def using i(4) payload(2) by (intro vrow_load_0 [OF pf]) (simp_all add: row_ready_def)
  ultimately show "sched_pop pf (Some s) vi (of_nat j) h =
    Inr (True, Some (s\<lparr>sched_rows := (sched_rows s)[i := Some (row_loaded v (bucket_at q j))], sched_queue := Some q'\<rparr>),
      h(p \<mapsto> clear_sig qs j))"
    using i rows by (simp add: sched_pop_def sched_ok_inv [OF ok] q payload(1) unload(1) del: and_then_Inr_iff)
qed

text \<open>Indices of 8 bits.\<close>

lemma unat_u8: "j < 256 \<Longrightarrow> unat (of_nat j :: u8) = j"
  by (rule unat_of_nat_small) simp

lemma ucast_u8_u32: "j < 256 \<Longrightarrow> ucast (of_nat j :: u8) = (of_nat j :: u32)"
  by (simp add: word_unat_eq_iff unat_ucast_up unat_u8 unat32)

lemma ucast_u32_u8: "ucast (of_nat i :: u32) = (of_nat i :: u8)"
  by (rule bit_word_eqI) (auto simp: bit_simps)

lemma queue_index:
  assumes "sched_ok s q h p qs pv vs" "r < 4" "range_mem (ranges q ! r) j"
  shows "j < 64 * length qs" "j < unat (bucket_count q)" "unat (of_nat j :: u8) = j" "ucast (of_nat j :: u8) = (of_nat j :: u32)"
proof -
  have pool: "pool_ok q h p qs" and cnt: "bucket_count q \<le> 256" using assms(1) by (simp_all add: sched_ok_def)
  show j: "j < 64 * length qs" using assms(3) pool_range(2) [OF pool assms(2)] by (simp add: range_mem_def)
  moreover have "64 * length qs = unat (bucket_count q)" using pool by (simp add: pool_ok_def)
  ultimately show "j < unat (bucket_count q)" by simp
  then have "j < 256" using cnt by (simp add: word_le_nat_alt)
  then show "unat (of_nat j :: u8) = j" "ucast (of_nat j :: u8) = (of_nat j :: u32)"
    by (rule unat_u8, rule ucast_u8_u32)
qed

lemma clear_set_clear: "j < 64 * length qs \<Longrightarrow> clear_sig (set_sig (clear_sig qs j) j) j = clear_sig qs j"
proof -
  assume j: "j < 64 * length qs"
  have "(w OR quad_bit k) AND NOT (quad_bit k) = w AND NOT (quad_bit k)" for w k
    by (auto simp: bit_eq_iff bit_simps)
  then show ?thesis using index_in [OF j] by (simp add: clear_sig_def set_sig_def and.assoc)
qed

section \<open>Rounds\<close>

lemma row_search:
  assumes ok: "sched_ok s q h p qs pv vs"
    and free: "find (\<lambda>i. \<not> signaled vs i) [0..<unat (sched_count s)] = Some i"
  shows "sync_map_sig_first 0 (ucast (sched_count s)) (Some (sched_smap s)) (Some 0) h =
      Inr (True, Some (of_nat i), h(pv \<mapsto> set_sig vs i))"
    and "i < unat (sched_count s)" "i < 256"
proof -
  have at: "smap_at h (sched_smap s) pv vs" and le: "unat (sched_count s) \<le> 64 * length vs"
    using ok by (simp_all add: sched_ok_def)
  have u: "unat (ucast (sched_count s) :: u32) = unat (sched_count s)" by (simp add: unat_ucast_up)
  show "sync_map_sig_first 0 (ucast (sched_count s)) (Some (sched_smap s)) (Some 0) h =
      Inr (True, Some (of_nat i), h(pv \<mapsto> set_sig vs i))"
    unfolding sig_first_finds [OF at] claimed_alt u using free le by (simp add: min_absorb1)
  show "i < unat (sched_count s)" using free by (simp add: find_upt_Some)
  then show "i < 256" using unsigned_less [of "sched_count s", where 'a = nat] by simp
qed

lemma sched_ok_heap:
  assumes "sched_ok s q h p qs pv vs"
  shows "length vs' = length vs \<Longrightarrow> sched_ok s q (h(pv \<mapsto> vs')) p qs pv vs'"
    and "length qs' = length qs \<Longrightarrow> sched_ok s q (h(p \<mapsto> qs')) p qs' pv vs"
  using assms by (auto simp: sched_ok_def pool_ok_def smap_at_def)

text \<open>The bucket the round decides on: the first used one of the first priority with a raised counter.\<close>

definition next_bucket :: "bitpool_desc \<Rightarrow> u64 list \<Rightarrow> nat \<Rightarrow> bool" where
  "next_bucket q qs j \<longleftrightarrow> (\<forall>i < 3. 0 < bit_disp (ranges q ! i)) \<and> first_used q qs (top_prior q) = Some j \<and>
     (\<exists>k. unat (bit_i (ranges q ! top_prior q)) \<le> k \<and>
        k < 64 * (unat (bit_i (ranges q ! top_prior q)) div 64) + 64 \<and> \<not> signaled qs k)"

lemma next_bucket_mem:
  "next_bucket q qs j \<Longrightarrow> range_mem (ranges q ! top_prior q) j \<and> signaled qs j"
  by (auto simp: next_bucket_def first_used_def find_upt_Some range_mem_def)

text \<open>The bucket an unload takes: the first used one of that priority, behind a first quad that is full.\<close>

definition unload_pick :: "bitpool_desc \<Rightarrow> u64 list \<Rightarrow> nat option" where
  "unload_pick q qs = find (signaled qs)
     [unsig_start qs (unat (bit_i (ranges q ! top_prior q)))..<range_end (ranges q ! top_prior q)]"

lemma unload_pick_mem:
  assumes "unload_pick q qs = Some j"
  shows "range_mem (ranges q ! top_prior q) j" "signaled qs j"
proof -
  have "unat (bit_i (ranges q ! top_prior q)) \<le> unsig_start qs (unat (bit_i (ranges q ! top_prior q)))"
    by (auto simp: unsig_start_def)
  then show "range_mem (ranges q ! top_prior q) j" "signaled qs j"
    using assms by (auto simp: unload_pick_def find_upt_Some range_mem_def)
qed

lemma next_bucket_pick:
  assumes "next_bucket q qs j"
  shows "\<forall>i < 3. 0 < bit_disp (ranges q ! i)" "unload_pick q qs = Some j"
proof -
  have "unsig_start qs (unat (bit_i (ranges q ! top_prior q))) = unat (bit_i (ranges q ! top_prior q))"
    using assms by (auto simp: next_bucket_def unsig_start_def)
  then show "unload_pick q qs = Some j" using assms by (simp add: unload_pick_def next_bucket_def first_used_def)
  show "\<forall>i < 3. 0 < bit_disp (ranges q ! i)" using assms by (simp add: next_bucket_def)
qed

lemma unload_picks:
  assumes "pool_ok q h p qs" "\<forall>i < 3. 0 < bit_disp (ranges q ! i)"
  shows "bitpool_prior_unload_disp (Some q) [0, 0, 0, 0] h =
    Inr (case unload_pick q qs of
           Some j \<Rightarrow> (\<lparr>disp_succ = True, disp_presence_i = of_nat (top_prior q), disp_bucket_i = of_nat j\<rparr>,
                       [0, 0, 0, 0], h(p \<mapsto> clear_sig qs j))
         | None \<Rightarrow> (\<lparr>disp_succ = False, disp_presence_i = 0, disp_bucket_i = 0\<rparr>, [0, 0, 0, 0], h))"
  unfolding unload_pick_def by (rule unload_disp_result [OF assms])

lemma unload_next:
  assumes "pool_ok q h p qs" "next_bucket q qs j"
  shows "bitpool_prior_unload_disp (Some q) [0, 0, 0, 0] h =
    Inr (\<lparr>disp_succ = True, disp_presence_i = of_nat (top_prior q), disp_bucket_i = of_nat j\<rparr>,
      [0, 0, 0, 0], h(p \<mapsto> clear_sig qs j))"
  using unload_picks [OF assms(1) next_bucket_pick(1) [OF assms(2)]] next_bucket_pick(2) [OF assms(2)] by simp

lemma sched_round_result:
  assumes ok: "sched_ok s q h p qs pv vs" and pf: "platform_ok pf" and run: "sched_is_closed s = 0" "any (presence q)"
    and row: "find (\<lambda>i. \<not> signaled vs i) [0..<unat (sched_count s)] = Some i" "sched_rows s ! i = Some v" "row_ready v"
    and disp: "\<forall>i < 3. 0 < bit_disp (ranges q ! i)" and bucket: "unload_pick q qs = Some j"
  defines "q' \<equiv> q\<lparr>presence := (presence q)[top_prior q := presence q ! top_prior q - 1]\<rparr>"
  shows "sched_main_round any pf s [0, 0, 0, 0] h =
    Inr (True, s\<lparr>sched_rows := (sched_rows s)[i := Some (row_loaded v (bucket_at q j))], sched_queue := Some q'\<rparr>,
      [0, 0, 0, 0], h(pv \<mapsto> set_sig vs i, p \<mapsto> clear_sig qs j))"
    and "sched_ok (s\<lparr>sched_rows := (sched_rows s)[i := Some (row_loaded v (bucket_at q j))], sched_queue := Some q'\<rparr>)
      q' (h(pv \<mapsto> set_sig vs i, p \<mapsto> clear_sig qs j)) p (clear_sig qs j) pv (set_sig vs i)"
    and "counts_ok q qs \<Longrightarrow> counts_ok q' (clear_sig qs j)"
proof -
  note sig = row_search [OF ok row(1)]
  have q: "sched_queue s = Some q" using ok by (simp add: sched_ok_def)
  define h1 where "h1 = h(pv \<mapsto> set_sig vs i)"
  have ok1: "sched_ok s q h1 p qs pv (set_sig vs i)" unfolding h1_def by (rule sched_ok_heap(1) [OF ok]) simp
  then have pool1: "pool_ok q h1 p qs" by (simp add: sched_ok_def)
  define h2 where "h2 = h1(p \<mapsto> clear_sig qs j)"
  have ok2: "sched_ok s q h2 p (clear_sig qs j) pv (set_sig vs i)" unfolding h2_def by (rule sched_ok_heap(2) [OF ok1]) simp
  note mem = unload_pick_mem [OF bucket]
  note idx = queue_index(4) [OF ok top_prior_less mem(1)]
  have vi: "unat (of_nat i :: u8) = i" using sig(3) by (rule unat_u8)
  note pop = sched_pop_result [OF ok2 pf vi sig(2) row(2,3) top_prior_less mem(1), folded q'_def]
  have h2': "h2(p \<mapsto> clear_sig qs j) = h2" by (simp add: h2_def)
  have h2_eq: "h2 = h(pv \<mapsto> set_sig vs i, p \<mapsto> clear_sig qs j)" by (simp add: h2_def h1_def)
  show "sched_main_round any pf s [0, 0, 0, 0] h =
    Inr (True, s\<lparr>sched_rows := (sched_rows s)[i := Some (row_loaded v (bucket_at q j))], sched_queue := Some q'\<rparr>,
      [0, 0, 0, 0], h(pv \<mapsto> set_sig vs i, p \<mapsto> clear_sig qs j))"
    unfolding h2_eq [symmetric]
    using run pop(1)
    by (simp add: sched_main_round_def q sig(1) unload_picks [OF pool1 disp] bucket h2_def [symmetric] ucast_u32_u8 idx h2'
        del: and_then_Inr_iff flip: h1_def)
  have "pool_ok q' h2 p (clear_sig qs j)" using pop(2) by (simp add: h2')
  then show "sched_ok (s\<lparr>sched_rows := (sched_rows s)[i := Some (row_loaded v (bucket_at q j))], sched_queue := Some q'\<rparr>)
      q' (h(pv \<mapsto> set_sig vs i, p \<mapsto> clear_sig qs j)) p (clear_sig qs j) pv (set_sig vs i)"
    unfolding h2_eq [symmetric] using ok2 by (simp add: sched_ok_def q'_def)
  show "counts_ok q' (clear_sig qs j)" if "counts_ok q qs"
    using prior_unload_result(3) [OF pool1 top_prior_less mem(1) that mem(2)] by (simp add: q'_def)
qed

section \<open>Pushes\<close>

lemma payload_length: "payload_wf pl \<Longrightarrow> length (payload_bytes pl) = 64"
  by (simp add: payload_wf_def payload_bytes_def)

lemma sched_push_result:
  assumes ok: "sched_ok s q h p qs pv vs" and simd: "simd_copies simd" and pl: "payload_wf pl"
    and r: "prior_index (pl_priority pl) = Inr r" "first_free q qs r = Some j"
  shows "\<exists>q'. sched_push simd (Some s) pl idx h =
      Inr (True, Some (s\<lparr>sched_queue := Some q'\<rparr>), map_option (\<lambda>_. of_nat j) idx, h(p \<mapsto> set_sig qs j)) \<and>
    loaded q r j (payload_bytes pl) q' \<and>
    sched_ok (s\<lparr>sched_queue := Some q'\<rparr>) q' (h(p \<mapsto> set_sig qs j)) p (set_sig qs j) pv vs"
proof -
  have q: "sched_queue s = Some q" and sz: "bucket_size q = VROW_PAYLOAD_SIZE" and pool: "pool_ok q h p qs"
    using ok by (simp_all add: sched_ok_def)
  have len: "length (payload_bytes pl) = unat (bucket_size q)"
    using payload_length [OF pl] sz by (simp add: VROW_PAYLOAD_SIZE_def)
  from prior_load_result(2) [OF pool simd len r] obtain q' where
    q': "bitpool_prior_load simd (Some q) (Some (payload_bytes pl)) (pl_priority pl) h =
      Inr (\<lparr>load_code = AX_SUCC, load_index = of_nat j\<rparr>, Some q', h(p \<mapsto> set_sig qs j))"
    and l: "loaded q r j (payload_bytes pl) q'" and pool': "pool_ok q' (h(p \<mapsto> set_sig qs j)) p (set_sig qs j)" by blast
  have "sched_ok (s\<lparr>sched_queue := Some q'\<rparr>) q' (h(p \<mapsto> set_sig qs j)) p (set_sig qs j) pv vs"
    using ok pool' l by (simp add: sched_ok_def loaded_def smap_at_def)
  then show ?thesis
    using l q' by (intro exI [of _ q']) (simp add: sched_push_def sched_ok_inv [OF ok] q del: and_then_Inr_iff)
qed

text \<open>
  A push into the bucket at the start of a range whose bit was just cleared, followed by the pop of
  that bucket: the row gets the pushed payload and the counters are back where they were.
\<close>

lemma push_pop_same_bucket:
  assumes ok: "sched_ok s q h p qs pv vs" and pf: "platform_ok pf" and simd: "simd_copies simd"
    and row: "unat vi = i" "i < unat (sched_count s)" "sched_rows s ! i = Some v" "row_ready v"
    and r: "r < 4" and mem: "range_mem (ranges q ! r) j" and first: "j = unat (bit_i (ranges q ! r))"
    and pl: "payload_wf pl" "prior_index (pl_priority pl) = Inr r"
  shows "\<exists>s1 s2 q2. sched_push simd (Some s) pl None (h(p \<mapsto> clear_sig qs j)) =
      Inr (True, Some s1, None, h(p \<mapsto> set_sig (clear_sig qs j) j)) \<and>
    sched_pop pf (Some s1) vi (of_nat j) (h(p \<mapsto> set_sig (clear_sig qs j) j)) = Inr (True, Some s2, h(p \<mapsto> clear_sig qs j)) \<and>
    sched_rows s2 ! i = Some (row_loaded v (payload_bytes pl)) \<and> sched_queue s2 = Some q2 \<and>
    presence q2 = presence q \<and> ranges q2 = ranges q \<and>
    sched_ok s2 q2 (h(p \<mapsto> clear_sig qs j)) p (clear_sig qs j) pv vs"
proof -
  note j = queue_index(1,2) [OF ok r mem]
  have len: "length (presence q) = 4" and rows: "length (sched_rows s) = unat (sched_count s)"
    using ok by (simp_all add: sched_ok_def pool_ok_def)
  have ok1: "sched_ok s q (h(p \<mapsto> clear_sig qs j)) p (clear_sig qs j) pv vs" by (rule sched_ok_heap(2) [OF ok]) simp
  have "\<not> signaled (clear_sig qs j) j" using j(1) by (simp add: signaled_set_sig)
  then have free: "first_free q (clear_sig qs j) r = Some j" using mem first by (auto simp: first_free_Some range_mem_def)
  from sched_push_result [OF ok1 simd pl free, of None] obtain q1 where
    push: "sched_push simd (Some s) pl None (h(p \<mapsto> clear_sig qs j)) =
      Inr (True, Some (s\<lparr>sched_queue := Some q1\<rparr>), None, h(p \<mapsto> set_sig (clear_sig qs j) j))"
    and l: "loaded q r j (payload_bytes pl) q1"
    and ok2: "sched_ok (s\<lparr>sched_queue := Some q1\<rparr>) q1 (h(p \<mapsto> set_sig (clear_sig qs j) j)) p (set_sig (clear_sig qs j) j) pv vs"
    by auto
  define s1 where "s1 = s\<lparr>sched_queue := Some q1\<rparr>"
  define q2 where "q2 = q1\<lparr>presence := (presence q1)[r := presence q1 ! r - 1]\<rparr>"
  have rng: "ranges q1 = ranges q" and bytes: "bucket_at q1 j = payload_bytes pl" and
    pres: "presence q1 = (presence q)[r := presence q ! r + 1]" using l j(2) by (simp_all add: loaded_def)
  have row1: "i < unat (sched_count s1)" "sched_rows s1 ! i = Some v" using row by (simp_all add: s1_def)
  have mem1: "range_mem (ranges q1 ! r) j" using mem rng by simp
  note pop = sched_pop_result [OF ok2 [folded s1_def] pf row(1) row1 row(4) r mem1,
      unfolded bytes fun_upd_upd clear_set_clear [OF j(1)], folded q2_def]
  define s2 where "s2 = s1\<lparr>sched_rows := (sched_rows s1)[i := Some (row_loaded v (payload_bytes pl))], sched_queue := Some q2\<rparr>"
  have "sched_ok s2 q2 (h(p \<mapsto> clear_sig qs j)) p (clear_sig qs j) pv vs"
    using ok2 pop(2) by (auto simp: sched_ok_def s2_def s1_def q2_def smap_at_def)
  moreover have "presence q2 = presence q" using len r by (simp add: q2_def pres)
  ultimately show ?thesis
    using push pop(1) row(2) rows rng
    by (intro exI [of _ s1] exI [of _ s2] exI [of _ q2] conjI) (simp_all add: s1_def s2_def q2_def)
qed

text \<open>A push into an empty queue: the next round will pick the pushed payload.\<close>

lemma push_into_empty:
  assumes ok: "sched_ok s q h p qs pv vs" and simd: "simd_copies simd" and cnt: "counts_ok q qs"
    and empty: "\<And>j. j < 64 * length qs \<Longrightarrow> \<not> signaled qs j" and disp: "\<forall>i < 3. 0 < bit_disp (ranges q ! i)"
    and pl: "payload_wf pl" "prior_index (pl_priority pl) = Inr r" "unat (bit_i (ranges q ! r)) mod 64 < 63"
  defines "j \<equiv> unat (bit_i (ranges q ! r))"
  shows "\<exists>q1. sched_push simd (Some s) pl None h = Inr (True, Some (s\<lparr>sched_queue := Some q1\<rparr>), None, h(p \<mapsto> set_sig qs j)) \<and>
    sched_ok (s\<lparr>sched_queue := Some q1\<rparr>) q1 (h(p \<mapsto> set_sig qs j)) p (set_sig qs j) pv vs \<and>
    next_bucket q1 (set_sig qs j) j \<and> bucket_at q1 j = payload_bytes pl \<and> (\<exists>x \<in> set (presence q1). x \<noteq> 0)"
proof -
  have r4: "r < 4" using pl(2) by (rule prior_index_less)
  have pool: "pool_ok q h p qs" using ok by (simp add: sched_ok_def)
  have tile: "ranges_tile (64 * length qs) (ranges q)" using pool by (simp add: pool_ok_def)
  have mem: "range_mem (ranges q ! r) j" using tile_range(3) [OF tile r4] by (simp add: range_mem_def j_def)
  note jlt = queue_index(1,2) [OF ok r4 mem]
  have free: "first_free q qs r = Some j" using mem empty [OF jlt(1)] by (auto simp: first_free_Some range_mem_def j_def)
  from sched_push_result [OF ok simd pl(1,2) free, of None] obtain q1 where
    push: "sched_push simd (Some s) pl None h = Inr (True, Some (s\<lparr>sched_queue := Some q1\<rparr>), None, h(p \<mapsto> set_sig qs j))"
    and l: "loaded q r j (payload_bytes pl) q1"
    and ok1: "sched_ok (s\<lparr>sched_queue := Some q1\<rparr>) q1 (h(p \<mapsto> set_sig qs j)) p (set_sig qs j) pv vs" by auto
  have rng: "ranges q1 = ranges q" and bytes: "bucket_at q1 j = payload_bytes pl" using l jlt(2) by (simp_all add: loaded_def)
  have counts1: "counts_ok q1 (set_sig qs j)" by (rule loaded_counts [OF pool cnt l r4 mem empty [OF jlt(1)]])
  have zero: "presence q1 ! k = 0 \<longleftrightarrow> k \<noteq> r" if "k < 4" for k
  proof -
    have "range_used qs (ranges q ! k) = {}"
      using empty pool_range(2) [OF pool that] by (auto simp: range_used_def range_mem_def)
    then have "range_used (set_sig qs j) (ranges q ! k) = (if k = r then {j} else {})"
      using range_used_set(1) [OF jlt(1) pool_range(2) [OF pool that]] tile_covers [OF tile jlt(1)] mem r4 that by auto
    then have "unat (presence q1 ! k) = (if k = r then 1 else 0)" using counts1 that by (simp add: counts_ok_def rng)
    then show ?thesis by (auto simp: unat_eq_0 split: if_splits)
  qed
  have top: "top_prior q1 = r"
    using less_4_cases [OF r4] zero [of 0] zero [of 1] zero [of 2] by (auto simp: top_prior_def word_neq_0_conv)
  have sig: "signaled (set_sig qs j) k \<longleftrightarrow> k = j" if "k < 64 * length qs" for k
    using signaled_set_sig(1) [OF jlt(1) that] empty [OF that] by simp
  have fu: "first_used q1 (set_sig qs j) r = Some j"
    unfolding first_used_def rng find_upt_Some j_def [symmetric] using mem sig [OF jlt(1)] leD by (auto simp: range_mem_def)
  have "j mod 64 < 63" using pl(3) by (simp add: j_def)
  moreover have "64 * (j div 64) + j mod 64 = j" by (rule mult_div_mod_eq)
  ultimately have near: "Suc j < 64 * (j div 64) + 64" by linarith
  then have "Suc j < 64 * length qs" using index_in [OF jlt(1)] by linarith
  then have "\<not> signaled (set_sig qs j) (Suc j)" using sig by simp
  then have "next_bucket q1 (set_sig qs j) j"
    unfolding next_bucket_def top rng using disp fu near
    by (intro conjI exI [of _ "Suc j"]) (simp_all add: j_def)
  moreover have "presence q1 ! r \<in> set (presence q1)" using ok1 r4 by (intro nth_mem) (simp add: sched_ok_def pool_ok_def)
  then have "\<exists>x \<in> set (presence q1). x \<noteq> 0" using zero [OF r4] by auto
  ultimately show ?thesis using push ok1 bytes by blast
qed

text \<open>A pool whose chosen range has no used bucket yields nothing, whatever its counters say.\<close>

lemma unload_empty_range:
  assumes "pool_ok q h p qs" "\<forall>i < 3. 0 < bit_disp (ranges q ! i)" "range_used qs (ranges q ! top_prior q) = {}"
  shows "bitpool_prior_unload_disp (Some q) [0, 0, 0, 0] h =
    Inr (\<lparr>disp_succ = False, disp_presence_i = 0, disp_bucket_i = 0\<rparr>, [0, 0, 0, 0], h)"
proof -
  have "unat (bit_i (ranges q ! top_prior q)) \<le> unsig_start qs (unat (bit_i (ranges q ! top_prior q)))"
    by (auto simp: unsig_start_def)
  then have "find (signaled qs) [unsig_start qs (unat (bit_i (ranges q ! top_prior q)))..<range_end (ranges q ! top_prior q)] = None"
    using assms(3) by (auto simp: find_None_iff range_used_def range_mem_def)
  then show ?thesis using unload_disp_result [OF assms(1,2)] by simp
qed

section \<open>A priority whose counter stays raised\<close>

text \<open>
  What the scheduler may do later: pushes of payloads of a lower priority than \<open>t\<close> (a larger number) and
  rounds of its thread, in any order.
\<close>

inductive later ::
  "simd_store \<Rightarrow> (u32 list \<Rightarrow> bool) \<Rightarrow> platform \<Rightarrow> nat \<Rightarrow> sched_context \<Rightarrow> map_heap \<Rightarrow> sched_context \<Rightarrow> map_heap \<Rightarrow> bool"
  for simd any pf t s0 h0 where
  now: "later simd any pf t s0 h0 s0 h0"
| push: "later simd any pf t s0 h0 s h \<Longrightarrow> payload_wf pl \<Longrightarrow> prior_index (pl_priority pl) = Inr r \<Longrightarrow> t < r \<Longrightarrow>
    sched_push simd (Some s) pl idx h = Inr (b, Some s', idx', h') \<Longrightarrow> later simd any pf t s0 h0 s' h'"
| round: "later simd any pf t s0 h0 s h \<Longrightarrow>
    sched_main_round any pf s [0, 0, 0, 0] h = Inr (b, s', disp, h') \<Longrightarrow> later simd any pf t s0 h0 s' h'"

text \<open>The counter of priority \<open>t\<close> is raised and the highest one raised, but its range is empty.\<close>

definition starved :: "nat \<Rightarrow> vrow_desc option list \<Rightarrow> nat \<Rightarrow> nat \<Rightarrow> sched_context \<Rightarrow> map_heap \<Rightarrow> bool" where
  "starved t rows p pv s h \<longleftrightarrow>
    (\<exists>q qs vs. sched_ok s q h p qs pv vs \<and> top_prior q = t \<and> presence q ! t \<noteq> 0 \<and>
      range_used qs (ranges q ! t) = {} \<and> (\<forall>i < 3. 0 < bit_disp (ranges q ! i)) \<and> sched_rows s = rows)"

lemma starved_unload:
  assumes "starved t rows p pv s h"
  shows "\<exists>q. sched_queue s = Some q \<and> bitpool_prior_unload_disp (Some q) [0, 0, 0, 0] h =
    Inr (\<lparr>disp_succ = False, disp_presence_i = 0, disp_bucket_i = 0\<rparr>, [0, 0, 0, 0], h)"
proof -
  from assms obtain q qs vs where "sched_ok s q h p qs pv vs" "top_prior q = t"
    "range_used qs (ranges q ! t) = {}" "\<forall>i < 3. 0 < bit_disp (ranges q ! i)" unfolding starved_def by blast
  then show ?thesis using unload_empty_range [of q h p qs] by (auto simp: sched_ok_def)
qed

lemma top_prior_lower:
  assumes "top_prior q = t" "presence q ! t \<noteq> 0" "t < r" "presence q' = (presence q)[r := x]"
  shows "top_prior q' = t" "presence q' ! t = presence q ! t"
  using assms by (auto simp: top_prior_def word_neq_0_conv split: if_splits)

lemma starved_push:
  assumes st: "starved t rows p pv s h" and simd: "simd_copies simd" and pl: "payload_wf pl"
    and r: "prior_index (pl_priority pl) = Inr r" "t < r"
    and run: "sched_push simd (Some s) pl idx h = Inr (b, Some s', idx', h')"
  shows "starved t rows p pv s' h'"
proof -
  from st obtain q qs vs where ok: "sched_ok s q h p qs pv vs" and top: "top_prior q = t" "presence q ! t \<noteq> 0"
    and none: "range_used qs (ranges q ! t) = {}" and disp: "\<forall>i < 3. 0 < bit_disp (ranges q ! i)"
    and rows: "sched_rows s = rows" unfolding starved_def by blast
  have q: "sched_queue s = Some q" and sz: "bucket_size q = VROW_PAYLOAD_SIZE" and pool: "pool_ok q h p qs"
    using ok by (simp_all add: sched_ok_def)
  have r4: "r < 4" using r(1) by (rule prior_index_less)
  have len: "length (payload_bytes pl) = unat (bucket_size q)"
    using payload_length [OF pl] sz by (simp add: VROW_PAYLOAD_SIZE_def)
  show ?thesis
  proof (cases "first_free q qs r")
    case None
    then have "bitpool_prior_load simd (Some q) (Some (payload_bytes pl)) (pl_priority pl) h = Inl Diverges"
      using prior_load_result(1) [OF pool simd len r(1)] by simp
    then have "sched_push simd (Some s) pl idx h = Inl Diverges"
      by (simp add: sched_push_def sched_ok_inv [OF ok] q del: and_then_Inr_iff)
    with run show ?thesis by simp
  next
    case (Some j)
    from sched_push_result [OF ok simd pl r(1) Some, of idx] obtain q' where
      push: "sched_push simd (Some s) pl idx h =
        Inr (True, Some (s\<lparr>sched_queue := Some q'\<rparr>), map_option (\<lambda>_. of_nat j) idx, h(p \<mapsto> set_sig qs j))"
      and l: "loaded q r j (payload_bytes pl) q'"
      and ok': "sched_ok (s\<lparr>sched_queue := Some q'\<rparr>) q' (h(p \<mapsto> set_sig qs j)) p (set_sig qs j) pv vs" by blast
    have mem: "range_mem (ranges q ! r) j" using Some by (simp add: first_free_Some)
    then have j: "j < 64 * length qs" using pool_range(2) [OF pool r4] by (simp add: range_mem_def)
    have tile: "ranges_tile (64 * length qs) (ranges q)" using pool by (simp add: pool_ok_def)
    have "\<not> range_mem (ranges q ! t) j" using tile_covers [OF tile j] mem r4 r(2) less_trans [OF r(2) r4] by (metis nat_less_le)
    then have "range_used (set_sig qs j) (ranges q ! t) = {}"
      using range_used_set(1) [OF j pool_range(2) [OF pool]] none r(2) r4 by simp
    moreover have "ranges q' = ranges q" "presence q' = (presence q)[r := presence q ! r + 1]"
      using l by (simp_all add: loaded_def)
    moreover note top_prior_lower [OF top r(2) this(2)]
    ultimately have "starved t rows p pv (s\<lparr>sched_queue := Some q'\<rparr>) (h(p \<mapsto> set_sig qs j))"
      unfolding starved_def using ok' disp top(2) rows
      by (intro exI [of _ q'] exI [of _ "set_sig qs j"] exI [of _ vs]) simp
    with push run show ?thesis by simp
  qed
qed

lemma starved_round:
  assumes st: "starved t rows p pv s h" and run: "sched_main_round any pf s [0, 0, 0, 0] h = Inr (b, s', disp, h')"
  shows "starved t rows p pv s' h'"
proof -
  from st obtain q qs vs where ok: "sched_ok s q h p qs pv vs" and top: "top_prior q = t" "presence q ! t \<noteq> 0"
    and none: "range_used qs (ranges q ! t) = {}" and disp: "\<forall>i < 3. 0 < bit_disp (ranges q ! i)"
    and rows: "sched_rows s = rows" unfolding starved_def by blast
  have q: "sched_queue s = Some q" and at: "smap_at h (sched_smap s) pv vs" and le: "unat (sched_count s) \<le> 64 * length vs"
    using ok by (simp_all add: sched_ok_def)
  have same: "starved t rows p pv s (h(pv \<mapsto> vs'))" if "length vs' = length vs" for vs'
    unfolding starved_def using sched_ok_heap(1) [OF ok that] top none disp rows by blast
  have closed: "starved t rows p pv (sched_terminate s) h"
    unfolding starved_def using ok top none disp rows by (fastforce simp: sched_terminate_def sched_ok_def)
  show ?thesis
  proof (cases "find (\<lambda>i. \<not> signaled vs i) [0..<unat (sched_count s)]")
    case None
    then have "sync_map_sig_first 0 (ucast (sched_count s)) (Some (sched_smap s)) (Some 0) h = Inr (False, Some 0, h)"
      unfolding sig_first_finds [OF at] claimed_alt using le by (simp add: min_absorb1 unat_ucast_up)
    with run st closed show ?thesis by (auto simp: sched_main_round_def q split: if_splits)
  next
    case (Some i)
    note sig = row_search [OF ok Some]
    define h1 where "h1 = h(pv \<mapsto> set_sig vs i)"
    have "starved t rows p pv s h1" unfolding h1_def by (rule same) simp
    from starved_unload [OF this] have un: "bitpool_prior_unload_disp (Some q) [0, 0, 0, 0] h1 =
      Inr (\<lparr>disp_succ = False, disp_presence_i = 0, disp_bucket_i = 0\<rparr>, [0, 0, 0, 0], h1)" by (simp add: q)
    have at1: "smap_at h1 (sched_smap s) pv (set_sig vs i)" unfolding h1_def by (rule smap_at_update [OF at]) simp
    have i: "unat (of_nat i :: u32) = i" using sig(3) by (intro unat32) simp
    have off: "sync_map_sigoff (sched_smap s) (of_nat i) h1 = Inr (h(pv \<mapsto> clear_sig (set_sig vs i) i))"
      using sync_map_signals(2) [OF at1, of "of_nat i"] sig(2) le i by (simp add: h1_def)
    have "starved t rows p pv s (h(pv \<mapsto> clear_sig (set_sig vs i) i))" by (rule same) simp
    with run st closed sig(1) un off show ?thesis
      by (auto simp: sched_main_round_def q h1_def split: if_splits)
  qed
qed

lemma starved_later:
  assumes "later simd any pf t s0 h0 s h" "starved t rows p pv s0 h0" "simd_copies simd"
  shows "starved t rows p pv s h"
  using assms by (induction rule: later.induct) (auto intro: starved_push starved_round)

section \<open>Properties\<close>

text \<open>A round of the scheduler with a free, empty row and a non-empty queue moves the payload of the
  first used bucket of the highest used priority into bank 0 of the first free row, marks the row as
  busy and its bank as filled, frees the bucket and lowers the counter of its priority; nothing else
  changes, and the scheduler stays well-formed with exact counters.\<close>

theorem sched_round_delivers:
  assumes "sched_ok s q h p qs pv vs" "platform_ok pf" "sched_is_closed s = 0" "any (presence q)" "counts_ok q qs"
    and "find (\<lambda>i. \<not> signaled vs i) [0..<unat (sched_count s)] = Some i" "sched_rows s ! i = Some v" "row_ready v"
    and "next_bucket q qs j"
  shows "\<exists>q' v'. sched_main_round any pf s [0, 0, 0, 0] h =
      Inr (True, s\<lparr>sched_rows := (sched_rows s)[i := Some v'], sched_queue := Some q'\<rparr>, [0, 0, 0, 0],
        h(pv \<mapsto> set_sig vs i, p \<mapsto> clear_sig qs j)) \<and>
    bank v' 0 = bucket_at q j \<and> vrow_is_filled v' 0 \<noteq> 0 \<and>
    q' = q\<lparr>presence := (presence q)[top_prior q := presence q ! top_prior q - 1]\<rparr> \<and>
    sched_ok (s\<lparr>sched_rows := (sched_rows s)[i := Some v'], sched_queue := Some q'\<rparr>) q'
      (h(pv \<mapsto> set_sig vs i, p \<mapsto> clear_sig qs j)) p (clear_sig qs j) pv (set_sig vs i) \<and>
    counts_ok q' (clear_sig qs j)"
proof -
  have q: "bucket_size q = VROW_PAYLOAD_SIZE" and pool: "pool_ok q h p qs" using assms(1) by (simp_all add: sched_ok_def)
  have "j < 64 * length qs"
    using next_bucket_mem [OF assms(9)] pool_range(2) [OF pool, of "top_prior q"] by (auto simp: range_mem_def)
  note row = row_loaded_bank [OF assms(8) bucket_payload_at(2) [OF pool q this]]
  note round = sched_round_result [where any = any, OF assms(1-4,6-8) next_bucket_pick [OF assms(9)]]
  show ?thesis using round(1,2) round(3) [OF assms(5)] row by blast
qed

text \<open>C16: a push between the moment the scheduler's thread takes a bucket off the queue and the moment it
  reads that bucket loses a payload and starves the lower priorities. The scenario: the only payload of the
  highest used priority lies in the first bucket of its range. \<^verbatim>\<open>bitpool_prior_unload_disp\<close> has cleared the bit of
  the bucket, so a push of the same priority stores its payload there; \<^verbatim>\<open>sched_pop\<close> then delivers the new payload
  in place of the old one and \<^verbatim>\<open>bitpool_prior_unload\<close> clears the bit a second time. The counter stays at 1
  although the range is empty. From then on, whatever pushes of lower priorities and rounds of the thread
  follow, in any order and number, no round delivers anything: the rows as the scheduler sees them are those
  after the pop, and every choice of a bucket fails.\<close>

theorem sched_push_race_loses_payload:
  assumes ok: "sched_ok s q h p qs pv vs" and pf: "platform_ok pf" and simd: "simd_copies simd" and cnt: "counts_ok q qs"
    and row: "unat vi = i" "i < unat (sched_count s)" "sched_rows s ! i = Some v" "row_ready v"
    and bucket: "next_bucket q qs j" "j = unat (bit_i (ranges q ! top_prior q))"
    and single: "range_used qs (ranges q ! top_prior q) = {j}"
    and pl: "payload_wf pl" "prior_index (pl_priority pl) = Inr (top_prior q)"
  shows "\<exists>r h1 s1 h2 s2 q2 h3. bitpool_prior_unload_disp (Some q) [0, 0, 0, 0] h = Inr (r, [0, 0, 0, 0], h1) \<and>
    disp_succ r \<and> unat (disp_bucket_i r) = j \<and>
    sched_push simd (Some s) pl None h1 = Inr (True, Some s1, None, h2) \<and>
    sched_pop pf (Some s1) vi (ucast (disp_bucket_i r)) h2 = Inr (True, Some s2, h3) \<and>
    sched_rows s2 ! i = Some (row_loaded v (payload_bytes pl)) \<and>
    sched_queue s2 = Some q2 \<and> presence q2 ! top_prior q = 1 \<and>
    (\<forall>any s4 h4. later simd any pf (top_prior q) s2 h3 s4 h4 \<longrightarrow>
      sched_rows s4 = sched_rows s2 \<and>
      (\<exists>q4. sched_queue s4 = Some q4 \<and> bitpool_prior_unload_disp (Some q4) [0, 0, 0, 0] h4 =
        Inr (\<lparr>disp_succ = False, disp_presence_i = 0, disp_bucket_i = 0\<rparr>, [0, 0, 0, 0], h4)))"
proof -
  note mem = conjunct1 [OF next_bucket_mem [OF bucket(1)]]
  note idx = queue_index [OF ok top_prior_less mem]
  have pool: "pool_ok q h p qs" using ok by (simp add: sched_ok_def)
  define h3 where "h3 = h(p \<mapsto> clear_sig qs j)"
  from push_pop_same_bucket [OF ok pf simd row top_prior_less mem bucket(2) pl]
  obtain s1 s2 q2 where push: "sched_push simd (Some s) pl None h3 =
      Inr (True, Some s1, None, h(p \<mapsto> set_sig (clear_sig qs j) j))"
    and pop: "sched_pop pf (Some s1) vi (of_nat j) (h(p \<mapsto> set_sig (clear_sig qs j) j)) = Inr (True, Some s2, h3)"
    and s2: "sched_rows s2 ! i = Some (row_loaded v (payload_bytes pl))" "sched_queue s2 = Some q2"
    and q2: "presence q2 = presence q" "ranges q2 = ranges q"
    and ok2: "sched_ok s2 q2 h3 p (clear_sig qs j) pv vs" unfolding h3_def by metis
  have pres: "presence q2 ! top_prior q = 1"
    using cnt single q2(1) by (simp add: counts_ok_def word_unat_eq_iff)
  have "top_prior q2 = top_prior q" using q2(1) by (simp add: top_prior_def)
  moreover have "range_used (clear_sig qs j) (ranges q2 ! top_prior q) = {}"
    using range_used_set(2) [OF idx(1) pool_range(2) [OF pool top_prior_less]] single q2(2) by simp
  moreover have "\<forall>i < 3. 0 < bit_disp (ranges q2 ! i)" using bucket(1) q2(2) by (simp add: next_bucket_def)
  ultimately have st: "starved (top_prior q) (sched_rows s2) p pv s2 h3"
    unfolding starved_def using ok2 pres by (intro exI [of _ q2] exI [of _ "clear_sig qs j"] exI [of _ vs]) simp
  have "sched_rows s4 = sched_rows s2 \<and> (\<exists>q4. sched_queue s4 = Some q4 \<and>
      bitpool_prior_unload_disp (Some q4) [0, 0, 0, 0] h4 =
        Inr (\<lparr>disp_succ = False, disp_presence_i = 0, disp_bucket_i = 0\<rparr>, [0, 0, 0, 0], h4))"
    if "later simd any pf (top_prior q) s2 h3 s4 h4" for any s4 h4
    using starved_later [OF that st simd] starved_unload [of "top_prior q" "sched_rows s2" p pv s4 h4]
    by (auto simp: starved_def)
  then show ?thesis
    using unload_next [OF pool bucket(1), folded h3_def] push pop s2 pres idx(3,4)
    by (intro exI [of _ "\<lparr>disp_succ = True, disp_presence_i = of_nat (top_prior q), disp_bucket_i = of_nat j\<rparr>"]
        exI [of _ h3] exI [of _ s1] exI [of _ "h(p \<mapsto> set_sig (clear_sig qs j) j)"] exI [of _ s2] exI [of _ q2] conjI)
      simp_all
qed

text \<open>C11: on an idle scheduler a pushed payload is delivered unchanged: the next round of the thread puts
  its 64 bytes into bank 0 of the first free row, and the queue is empty again.\<close>

theorem sched_push_delivered:
  assumes ok: "sched_ok s q h p qs pv vs" and pf: "platform_ok pf" and simd: "simd_copies simd" and cnt: "counts_ok q qs"
    and any: "\<And>xs. any xs \<longleftrightarrow> (\<exists>x \<in> set xs. x \<noteq> 0)" and run: "sched_is_closed s = 0"
    and empty: "\<And>j. j < 64 * length qs \<Longrightarrow> \<not> signaled qs j" and disp: "\<forall>i < 3. 0 < bit_disp (ranges q ! i)"
    and row: "find (\<lambda>i. \<not> signaled vs i) [0..<unat (sched_count s)] = Some i" "sched_rows s ! i = Some v" "row_ready v"
    and pl: "payload_wf pl" "prior_index (pl_priority pl) = Inr r" "unat (bit_i (ranges q ! r)) mod 64 < 63"
  shows "\<exists>s1 h1 s2 h2 v'. sched_push simd (Some s) pl None h = Inr (True, Some s1, None, h1) \<and>
    sched_main_round any pf s1 [0, 0, 0, 0] h1 = Inr (True, s2, [0, 0, 0, 0], h2) \<and>
    sched_rows s2 ! i = Some v' \<and> bank v' 0 = payload_bytes pl \<and> vrow_is_filled v' 0 \<noteq> 0 \<and>
    (\<exists>qs' q'. sched_ok s2 q' h2 p qs' pv (set_sig vs i) \<and> (\<forall>j < 64 * length qs'. \<not> signaled qs' j))"
proof -
  have pool: "pool_ok q h p qs" and rows: "length (sched_rows s) = unat (sched_count s)"
    using ok by (simp_all add: sched_ok_def)
  define j where "j = unat (bit_i (ranges q ! r))"
  from push_into_empty [OF ok simd cnt empty disp pl] obtain q1 where
    push: "sched_push simd (Some s) pl None h = Inr (True, Some (s\<lparr>sched_queue := Some q1\<rparr>), None, h(p \<mapsto> set_sig qs j))"
    and ok1: "sched_ok (s\<lparr>sched_queue := Some q1\<rparr>) q1 (h(p \<mapsto> set_sig qs j)) p (set_sig qs j) pv vs"
    and next1: "next_bucket q1 (set_sig qs j) j" and bytes: "bucket_at q1 j = payload_bytes pl"
    and nonempty: "\<exists>x \<in> set (presence q1). x \<noteq> 0" unfolding j_def by auto
  define s1 where "s1 = s\<lparr>sched_queue := Some q1\<rparr>"
  have s1: "sched_is_closed s1 = 0" "sched_count s1 = sched_count s" "sched_rows s1 = sched_rows s"
    using run by (simp_all add: s1_def sched_is_closed_def)
  have row1: "find (\<lambda>i. \<not> signaled vs i) [0..<unat (sched_count s1)] = Some i" "sched_rows s1 ! i = Some v"
    and "any (presence q1)" using row any nonempty by (simp_all add: s1)
  note round = sched_round_result [where any = any, OF ok1 [folded s1_def] pf s1(1) this(3) row1 row(3) next_bucket_pick [OF next1], unfolded bytes]
  obtain s2 q2 h2 where "sched_main_round any pf s1 [0, 0, 0, 0] (h(p \<mapsto> set_sig qs j)) = Inr (True, s2, [0, 0, 0, 0], h2)"
    "sched_ok s2 q2 h2 p (clear_sig (set_sig qs j) j) pv (set_sig vs i)"
    "sched_rows s2 = (sched_rows s1)[i := Some (row_loaded v (payload_bytes pl))]"
    using that [OF round(1,2)] by simp
  moreover have "i < length (sched_rows s)" using row(1) rows by (simp add: find_upt_Some)
  then have "(sched_rows s1)[i := Some (row_loaded v (payload_bytes pl))] ! i = Some (row_loaded v (payload_bytes pl))"
    by (simp add: s1)
  moreover have "j < 64 * length qs"
    using queue_index(1) [OF ok1 top_prior_less conjunct1 [OF next_bucket_mem [OF next1]]] by simp
  then have "\<not> signaled (clear_sig (set_sig qs j) j) k" if "k < 64 * length (clear_sig (set_sig qs j) j)" for k
    using that empty signaled_set_sig [of j qs k] signaled_set_sig(2) [of j "set_sig qs j" k] by simp
  moreover have "sched_push simd (Some s) pl None h = Inr (True, Some s1, None, h(p \<mapsto> set_sig qs j))"
    using push by (simp add: s1_def)
  ultimately show ?thesis using row_loaded_bank [OF row(3) payload_length [OF pl(1)]] by metis
qed

text \<open>The error paths: without a scheduler a push returns false but a pop returns true, because its
  error code is converted to a truth value; so does a pop of a row or a bucket that does not exist. They
  change nothing.\<close>

theorem sched_error_paths:
  assumes "sched_ok s q h p qs pv vs" "sched_count s \<le> vi \<or> bucket_count q \<le> qi"
  shows "sched_push simd None pl idx h = Inr (False, None, idx, h) \<and>
    sched_pop pf None vi qi h = Inr (True, None, h) \<and>
    sched_pop pf (Some s) vi qi h = Inr (True, Some s, h)"
  using assms sched_ok_inv [OF assms(1)]
  by (simp add: sched_push_def sched_pop_def sched_context_inv_def axres_bool_def sched_ok_def del: and_then_Inr_iff)

lemma create_rows_fail:
  assumes "\<exists>i \<in> set is. attr i \<noteq> 0 \<or> thr i \<noteq> 0" "\<forall>i \<in> set is. i < length rows \<and> mem i \<noteq> None"
  shows "\<exists>rows'. create_rows ir smap mem attr thr is rows = Inr (AX_UNK_ERR, rows')"
  using assms
proof (induction ir smap mem attr thr "is" rows rule: create_rows.induct)
  case (2 ir smap mem attr thr i "is" rows)
  obtain m where m: "mem i = Some m" using 2(3) by auto
  show ?case
  proof (cases "attr i \<noteq> 0 \<or> thr i \<noteq> 0")
    case True
    then show ?thesis
      by (auto simp: m vrow_create_def sync_map_ref_init_def vrow_thread_init_def Let_def)
  next
    case False
    then obtain row where row: "vrow_create ir (of_nat i) (Some smap) True (mem i) (attr i) (thr i) = Inr (AX_SUCC, row)"
      by (auto simp: m vrow_create_def sync_map_ref_init_def vrow_thread_init_def Let_def)
    have "arr_set rows i row = Inr (rows[i := row])" using 2(3) by simp
    moreover have "\<exists>rows'. create_rows ir smap mem attr thr is (rows[i := row]) = Inr (AX_UNK_ERR, rows')"
      using 2(2,3) False by (intro 2(1)) auto
    ultimately show ?thesis using row by (simp del: and_then_Inr_iff)
  qed
qed simp

text \<open>When the thread of one of the rows cannot be created, \<^verbatim>\<open>sched_create\<close> does not return the error:
  it calls \<^verbatim>\<open>sched_delete\<close>, which waits for the end of the scheduler's thread, and that thread was
  never started.\<close>

theorem sched_create_thread_failure_hangs:
  assumes "vrow_count \<noteq> 0" "length rows0 = unat vrow_count" "\<forall>i < unat vrow_count. mem i \<noteq> None"
    and "\<exists>i < unat vrow_count. attr i \<noteq> 0 \<or> thr i \<noteq> 0"
  shows "sched_create (Some ir) vrow_count True rows0 mp map_mem mem attr thr qmem qp qmap_mem base h = Inl Diverges"
proof -
  define w :: u32 where "w = ucast vrow_count div 64 + 1"
  define n where "n = w * 64"
  have "unat w \<le> 4"
    using unsigned_less [of vrow_count, where 'a = nat]
    by (simp add: w_def unat_word_ariths unat_div unat_ucast_up)
  then have "unat n = unat w * 64" by (simp add: n_def unat_word_ariths)
  then have "n mod 64 = 0" by (simp add: unat_mod flip: unat_eq_0)
  then obtain smap h1 where init: "sync_map_init n (Some sync_map_desc_zero) mp map_mem h = (AX_SUCC, Some smap, h1)"
    by (simp add: sync_map_init_def)
  have "\<exists>i \<in> set [0..<unat vrow_count]. attr i \<noteq> 0 \<or> thr i \<noteq> 0"
    "\<forall>i \<in> set [0..<unat vrow_count]. i < length rows0 \<and> mem i \<noteq> None" using assms by auto
  from create_rows_fail [OF this] obtain rows' where "create_rows (Some ir) smap mem attr thr [0..<unat vrow_count] rows0 = Inr (AX_UNK_ERR, rows')"
    by blast
  then show ?thesis
    using assms(1) init
    by (simp add: sched_create_def sched_delete_def sched_close_def sched_is_terminated_def flip: w_def n_def del: and_then_Inr_iff)
qed

section \<open>A concrete scheduler\<close>

definition wit_queue :: "u32 list \<Rightarrow> bitpool_desc" where
  "wit_queue pres = \<lparr>presence = pres, bucket_base = Some (replicate 4096 0), bucket_count = 64, bucket_size = 64,
     ranges = [\<lparr>bit_n = 6, bit_i = 58, bit_disp = 5\<rparr>, \<lparr>bit_n = 10, bit_i = 48, bit_disp = 3\<rparr>,
       \<lparr>bit_n = 16, bit_i = 32, bit_disp = 2\<rparr>, \<lparr>bit_n = 32, bit_i = 0, bit_disp = 1\<rparr>],
     qload = Bucket_Func_64byte, smap_desc = \<lparr>smap_map = Some 7, smap_size = 1\<rparr>\<rparr>"

definition wit_sched :: "u32 list \<Rightarrow> sched_context" where
  "wit_sched pres = \<lparr>sched_ir = Some wit_ir, sched_queue = Some (wit_queue pres),
     sched_smap = \<lparr>smap_map = Some 9, smap_size = 1\<rparr>, sched_rows = [Some (wit_row 2)], sched_count = 1, sched_state = 0\<rparr>"

definition wit_sheap :: "u64 list \<Rightarrow> map_heap" where
  "wit_sheap qs = (\<lambda>a. if a = 7 then Some qs else if a = 9 then Some [0] else None)"

definition wit_payload :: vrow_payload where
  "wit_payload = \<lparr>pl_state = 0, pl_priority = PRIOR_HIGH, pl_control = replicate 14 1, pl_data = replicate 48 2\<rparr>"

abbreviation some_used :: "u32 list \<Rightarrow> bool" where
  "some_used xs \<equiv> (\<exists>x \<in> set xs. x \<noteq> 0)"

lemma wit_sched_ok:
  assumes "length pres = 4" "length qs = 1"
  shows "sched_ok (wit_sched pres) (wit_queue pres) (wit_sheap qs) 7 qs 9 [0]"
proof -
  have "smap_at (wit_sheap qs) (smap_desc (wit_queue pres)) 7 qs" "smap_at (wit_sheap qs) (sched_smap (wit_sched pres)) 9 [0]"
    using assms(2) by (simp_all add: smap_at_def wit_sheap_def wit_queue_def wit_sched_def)
  moreover have "ranges_tile 64 (ranges (wit_queue pres))"
    by (simp add: ranges_tile_def range_end_def wit_queue_def)
  ultimately show ?thesis
    using assms by (simp add: sched_ok_def pool_ok_def) (simp add: wit_sched_def wit_queue_def VROW_PAYLOAD_SIZE_def
      bitpool_bucket_func_of_def)
qed

text \<open>The queue with one payload, of high priority, in the first bucket of its range.\<close>

lemma signaled_zero [simp]: "\<not> signaled [0] j" if "j < 64" for j
  using that by (simp add: signaled_def)

lemma wit_signaled: "j < 64 \<Longrightarrow> signaled (set_sig [0] 48) j \<longleftrightarrow> j = 48"
  using signaled_set_sig(1) [of 48 "[0]" j] by simp

lemma wit_used:
  "range_used (set_sig [0] 48) (ranges (wit_queue pres) ! 0) = {}"
  "range_used (set_sig [0] 48) (ranges (wit_queue pres) ! 1) = {48}"
  "range_used (set_sig [0] 48) (ranges (wit_queue pres) ! 2) = {}"
  "range_used (set_sig [0] 48) (ranges (wit_queue pres) ! 3) = {}"
  using wit_signaled by (auto simp: range_used_def range_mem_def range_end_def wit_queue_def)

lemma wit_queue_counts: "counts_ok (wit_queue [0, 1, 0, 0]) (set_sig [0] 48)"
  unfolding counts_ok_def all_below_4 wit_used by (simp add: wit_queue_def)

lemma wit_next: "next_bucket (wit_queue [0, 1, 0, 0]) (set_sig [0] 48) 48"
proof -
  have top: "top_prior (wit_queue [0, 1, 0, 0]) = 1" by (simp add: top_prior_def wit_queue_def)
  have "first_used (wit_queue [0, 1, 0, 0]) (set_sig [0] 48) 1 = Some 48"
    using wit_signaled [of 48] by (auto simp: first_used_def find_upt_Some wit_queue_def range_end_def)
  moreover have "\<not> signaled (set_sig [0] 48) 49" using wit_signaled [of 49] by simp
  ultimately show ?thesis
    unfolding next_bucket_def top by (intro conjI exI [of _ 49]) (simp_all add: wit_queue_def all_below_3)
qed

lemma wit_row_ready: "row_ready (wit_row 2)"
  using wit_row_facts(1) by (simp add: row_ready_def vrow_is_filled_def) (simp add: wit_row_def)

lemma wit_free: "find (\<lambda>i. \<not> signaled [0] i) [0..<unat (sched_count (wit_sched pres))] = Some 0"
  by (simp add: wit_sched_def)

lemma wit_rows: "sched_rows (wit_sched pres) ! 0 = Some (wit_row 2)" "sched_is_closed (wit_sched pres) = 0"
  by (simp_all add: wit_sched_def sched_is_closed_def)

lemma sched_round_delivers_witness:
  "\<exists>q' v' h'. sched_main_round some_used wit_platform (wit_sched [0, 1, 0, 0]) [0, 0, 0, 0] (wit_sheap (set_sig [0] 48)) =
      Inr (True, (wit_sched [0, 1, 0, 0])\<lparr>sched_rows := [Some v'], sched_queue := Some q'\<rparr>, [0, 0, 0, 0], h') \<and>
    bank v' 0 = bucket_at (wit_queue [0, 1, 0, 0]) 48"
proof -
  have ok: "sched_ok (wit_sched [0, 1, 0, 0]) (wit_queue [0, 1, 0, 0]) (wit_sheap (set_sig [0] 48)) 7 (set_sig [0] 48) 9 [0]"
    by (rule wit_sched_ok) simp_all
  have any: "some_used (presence (wit_queue [0, 1, 0, 0]))" by (simp add: wit_queue_def)
  have rows: "(sched_rows (wit_sched [0, 1, 0, 0]))[0 := x] = [x]" for x by (simp add: wit_sched_def)
  from sched_round_delivers [where any = some_used, OF ok wit_platform_ok wit_rows(2) any wit_queue_counts wit_free wit_rows(1)
      wit_row_ready wit_next] show ?thesis unfolding rows by blast
qed

lemma sched_push_race_loses_payload_witness:
  "\<exists>s1 h1 h2 s2 h3. sched_push (\<lambda>n bs. bs) (Some (wit_sched [0, 1, 0, 0])) wit_payload None h1 = Inr (True, Some s1, None, h2) \<and>
    sched_pop wit_platform (Some s1) 0 48 h2 = Inr (True, Some s2, h3) \<and>
    sched_rows s2 ! 0 = Some (row_loaded (wit_row 2) (payload_bytes wit_payload))"
proof -
  have ok: "sched_ok (wit_sched [0, 1, 0, 0]) (wit_queue [0, 1, 0, 0]) (wit_sheap (set_sig [0] 48)) 7 (set_sig [0] 48) 9 [0]"
    by (rule wit_sched_ok) simp_all
  have top: "top_prior (wit_queue [0, 1, 0, 0]) = 1" by (simp add: top_prior_def wit_queue_def)
  have simd: "simd_copies (\<lambda>n bs. bs)" by (simp add: simd_copies_def)
  have i: "unat (0 :: u8) = 0" "0 < unat (sched_count (wit_sched [0, 1, 0, 0]))" by (simp_all add: wit_sched_def)
  have j: "48 = unat (bit_i (ranges (wit_queue [0, 1, 0, 0]) ! top_prior (wit_queue [0, 1, 0, 0])))"
    unfolding top by (simp add: wit_queue_def)
  have single: "range_used (set_sig [0] 48) (ranges (wit_queue [0, 1, 0, 0]) ! top_prior (wit_queue [0, 1, 0, 0])) = {48}"
    unfolding top by (rule wit_used)
  have pl: "payload_wf wit_payload" "prior_index (pl_priority wit_payload) = Inr (top_prior (wit_queue [0, 1, 0, 0]))"
    unfolding top by (simp_all add: wit_payload_def payload_wf_def)
  have idx: "ucast (d :: u8) = (48 :: u32)" if "unat d = 48" for d
    using that by (simp add: word_unat_eq_iff unat_ucast_up)
  from sched_push_race_loses_payload [OF ok wit_platform_ok simd wit_queue_counts i wit_rows(1) wit_row_ready wit_next j single pl]
  show ?thesis using idx by fastforce
qed

lemma sched_push_delivered_witness:
  "\<exists>s1 h1 s2 h2 v'. sched_push (\<lambda>n bs. bs) (Some (wit_sched [0, 0, 0, 0])) wit_payload None (wit_sheap [0]) =
      Inr (True, Some s1, None, h1) \<and>
    sched_main_round some_used wit_platform s1 [0, 0, 0, 0] h1 = Inr (True, s2, [0, 0, 0, 0], h2) \<and>
    sched_rows s2 ! 0 = Some v' \<and> bank v' 0 = payload_bytes wit_payload"
proof -
  have ok: "sched_ok (wit_sched [0, 0, 0, 0]) (wit_queue [0, 0, 0, 0]) (wit_sheap [0]) 7 [0] 9 [0]"
    by (rule wit_sched_ok) simp_all
  have simd: "simd_copies (\<lambda>n bs. bs)" by (simp add: simd_copies_def)
  have empty: "\<not> signaled [0] j" if "j < 64" for j using that by simp
  have counts: "counts_ok (wit_queue [0, 0, 0, 0]) [0]"
    by (simp add: counts_ok_def all_below_4 range_used_def range_mem_def range_end_def wit_queue_def)
  have disp: "\<forall>i < 3. 0 < bit_disp (ranges (wit_queue [0, 0, 0, 0]) ! i)" by (simp add: wit_queue_def all_below_3)
  have pl: "payload_wf wit_payload" "prior_index (pl_priority wit_payload) = Inr 1"
    "unat (bit_i (ranges (wit_queue [0, 0, 0, 0]) ! 1)) mod 64 < 63"
    by (simp_all add: wit_payload_def payload_wf_def wit_queue_def)
  from sched_push_delivered [where any = some_used, OF ok wit_platform_ok simd counts refl wit_rows(2) empty disp wit_free wit_rows(1)
      wit_row_ready pl] show ?thesis by fastforce
qed

lemma sched_error_paths_witness:
  "sched_pop wit_platform None 5 0 (wit_sheap [0]) = Inr (True, None, wit_sheap [0]) \<and>
   sched_pop wit_platform (Some (wit_sched [0, 0, 0, 0])) 5 0 (wit_sheap [0]) = Inr (True, Some (wit_sched [0, 0, 0, 0]), wit_sheap [0])"
proof -
  have ok: "sched_ok (wit_sched [0, 0, 0, 0]) (wit_queue [0, 0, 0, 0]) (wit_sheap [0]) 7 [0] 9 [0]"
    by (rule wit_sched_ok) simp_all
  have "sched_count (wit_sched [0, 0, 0, 0]) \<le> 5 \<or> bucket_count (wit_queue [0, 0, 0, 0]) \<le> 0" by (simp add: wit_sched_def)
  from sched_error_paths [OF ok this] show ?thesis by blast
qed

lemma sched_create_thread_failure_hangs_witness:
  "sched_create (Some wit_ir) 1 True [None] (Some 9) [0] (\<lambda>_. Some (wit_row 0)) (\<lambda>_. 0) (\<lambda>_. 1) None None [] (\<lambda>_. None) (wit_sheap [0]) =
    Inl Diverges"
proof -
  have "(1 :: u8) \<noteq> 0" "length [None :: vrow_desc option] = unat (1 :: u8)" "\<forall>i < unat (1 :: u8). Some (wit_row 0) \<noteq> None"
    "\<exists>i < unat (1 :: u8). (0 :: 32 word) \<noteq> 0 \<or> (1 :: 32 word) \<noteq> 0" by simp_all
  from sched_create_thread_failure_hangs [OF this, of wit_ir "Some 9" "[0]" None None "[]" "\<lambda>_. None" "wit_sheap [0]"]
  show ?thesis by simp
qed

end
