(* ===== verification/Pipeline.thy ===== *)
theory Pipeline
  imports Sched MIPS32 "HOL-Library.Multiset"
begin

text \<open>
  The parts of the pipeline together: clients that push payloads, the scheduler's thread and the threads of
  the rows, whose calls and rounds happen in any order, each of them as a whole. \<open>pp_pushed\<close> and \<open>pp_finished\<close>
  are histories that the code does not keep: the payloads accepted from clients and those a row's thread took
  through its round, whether or not the round ended with an invalid opcode. The translator is a field of the environment;
  \<open>env_mips\<close> makes it \<open>mips32_to_ir\<close>.
\<close>

section \<open>States and steps\<close>

record pipeline =
  pp_sched :: sched_context
  pp_disp :: "u32 list"
  pp_heap :: map_heap
  pp_alive :: "bool list"
  pp_pushed :: "u8 list list"
  pp_finished :: "u8 list list"

text \<open>
  What the steps depend on: the library's test of the counters, its vector functions and the layout of the
  platform, and the two translations the threads of the rows fetch from the context.
\<close>

record pipe_env =
  env_any :: "u32 list \<Rightarrow> bool"
  env_platform :: platform
  env_simd :: simd_store
  env_b0 :: guest_to_ir_call
  env_b2 :: ir_to_host_call

definition row_step :: "pipeline \<Rightarrow> nat \<Rightarrow> vrow_desc \<Rightarrow> round \<Rightarrow> vrow_desc \<Rightarrow> map_heap \<Rightarrow> pipeline" where
  "row_step P i v r v' h =
    P\<lparr>pp_sched := (pp_sched P)\<lparr>sched_rows := (sched_rows (pp_sched P))[i := Some v']\<rparr>, pp_heap := h,
      pp_alive := (if r = Round_Exit then (pp_alive P)[i := False] else pp_alive P),
      pp_finished := (if r = Round_Wait then pp_finished P else bank v 0 # pp_finished P)\<rparr>"

inductive pipe_step :: "pipe_env \<Rightarrow> pipeline \<Rightarrow> pipeline \<Rightarrow> bool" for E :: pipe_env where
  pipe_push: "payload_wf pl \<Longrightarrow>
    sched_push (env_simd E) (Some (pp_sched P)) pl None (pp_heap P) = Inr (done, Some s, idx, h) \<Longrightarrow>
    pipe_step E P (P\<lparr>pp_sched := s, pp_heap := h,
      pp_pushed := (if done then payload_bytes pl # pp_pushed P else pp_pushed P)\<rparr>)"
| pipe_round: "sched_is_terminated (pp_sched P) = 0 \<Longrightarrow>
    sched_main_round (env_any E) (env_platform E) (pp_sched P) (pp_disp P) (pp_heap P) = Inr (go, s, d, h) \<Longrightarrow>
    pipe_step E P (P\<lparr>pp_sched := s, pp_disp := d, pp_heap := h\<rparr>)"
| pipe_row: "i < length (sched_rows (pp_sched P)) \<Longrightarrow> pp_alive P ! i \<Longrightarrow> sched_rows (pp_sched P) ! i = Some v \<Longrightarrow>
    vrow_thread_round (env_platform E) (Some (env_b0 E)) (Some (env_b2 E)) v (pp_heap P) = Inr (r, v', h) \<Longrightarrow>
    pipe_step E P (row_step P i v r v' h)"
| pipe_close: "pipe_step E P (P\<lparr>pp_sched := sched_close (pp_sched P)\<rparr>)"

abbreviation pipe_reach :: "pipe_env \<Rightarrow> pipeline \<Rightarrow> pipeline \<Rightarrow> bool" where
  "pipe_reach E \<equiv> (pipe_step E)\<^sup>*\<^sup>*"

section \<open>Where the payloads are\<close>

definition queued :: "bitpool_desc \<Rightarrow> u64 list \<Rightarrow> u8 list multiset" where
  "queued q qs = image_mset (bucket_at q) (mset_set {j. j < 64 * length qs \<and> signaled qs j})"

fun held :: "vrow_desc option \<Rightarrow> u8 list multiset" where
  "held None = {#}"
| "held (Some v) = (if vrow_is_filled v 0 \<noteq> 0 then {#bank v 0#} else {#})"

definition rows_held :: "vrow_desc option list \<Rightarrow> u8 list multiset" where
  "rows_held rows = sum_list (map held rows)"

lemma rows_held_update:
  "i < length rows \<Longrightarrow> rows_held (rows[i := x]) + held (rows ! i) = rows_held rows + held x"
proof -
  assume i: "i < length rows"
  have "rows_held rows = rows_held (take i rows) + held (rows ! i) + rows_held (drop (Suc i) rows)"
    unfolding rows_held_def by (subst id_take_nth_drop [OF i]) (simp add: union_assoc)
  moreover have "rows_held (rows[i := x]) = rows_held (take i rows) + held x + rows_held (drop (Suc i) rows)"
    unfolding rows_held_def upd_conv_take_nth_drop [OF i] by (simp add: union_assoc)
  ultimately show ?thesis by simp
qed

lemma queued_push:
  assumes "64 * length qs = unat (bucket_count q)" "j < 64 * length qs" "\<not> signaled qs j" "loaded q r j bytes q'"
  shows "queued q' (set_sig qs j) = add_mset bytes (queued q qs)"
proof -
  let ?S = "{k. k < 64 * length qs \<and> signaled qs k}"
  have S: "{k. k < 64 * length (set_sig qs j) \<and> signaled (set_sig qs j) k} = insert j ?S"
    using assms(2) signaled_set_sig(1) [OF assms(2)] by auto
  have "image_mset (bucket_at q') (mset_set ?S) = image_mset (bucket_at q) (mset_set ?S)"
    using assms by (intro image_mset_cong) (auto simp: loaded_def)
  moreover have "bucket_at q' j = bytes" using assms by (simp add: loaded_def)
  ultimately show ?thesis using assms(3) unfolding queued_def S by simp
qed

lemma queued_pop:
  assumes "j < 64 * length qs" "signaled qs j" "bucket_at q' = bucket_at q"
  shows "queued q qs = add_mset (bucket_at q j) (queued q' (clear_sig qs j))"
proof -
  let ?S = "{k. k < 64 * length qs \<and> signaled qs k}"
  have S: "{k. k < 64 * length (clear_sig qs j) \<and> signaled (clear_sig qs j) k} = ?S - {j}"
    using signaled_set_sig(2) [OF assms(1)] by auto
  have "mset_set ?S = add_mset j (mset_set (?S - {j}))"
    using assms(1,2) by (intro mset_set.remove) simp_all
  then show ?thesis unfolding queued_def S assms(3) by simp
qed

section \<open>The invariant\<close>

text \<open>
  Row \<open>i\<close> refers to bit \<open>i\<close> of the bitmap of busy rows, and that bit is set exactly while a payload lies in its
  bank 0.
\<close>

definition row_at :: "nat \<Rightarrow> u64 list \<Rightarrow> nat \<Rightarrow> vrow_desc \<Rightarrow> bool" where
  "row_at pv vs i v \<longleftrightarrow> length (vrow_base v) = VROW_BASE_SIZE \<and> \<not> vrow_closed v \<and>
     ref_map (vrow_smap v) = Some pv \<and> unat (bit_index (vrow_smap v)) < 64 \<and>
     64 * unat (quad_index (vrow_smap v)) + unat (bit_index (vrow_smap v)) = i \<and>
     (vrow_is_filled v 0 \<noteq> 0 \<longleftrightarrow> signaled vs i)"

definition rows_at :: "sched_context \<Rightarrow> nat \<Rightarrow> u64 list \<Rightarrow> bool" where
  "rows_at s pv vs \<longleftrightarrow> (\<forall>i < unat (sched_count s). \<exists>v. sched_rows s ! i = Some v \<and> row_at pv vs i v)"

definition pipe_at :: "pipeline \<Rightarrow> bitpool_desc \<Rightarrow> nat \<Rightarrow> u64 list \<Rightarrow> nat \<Rightarrow> u64 list \<Rightarrow> bool" where
  "pipe_at P q p qs pv vs \<longleftrightarrow>
     sched_ok (pp_sched P) q (pp_heap P) p qs pv vs \<and> counts_ok q qs \<and> (\<forall>i < 3. 0 < bit_disp (ranges q ! i)) \<and>
     pp_disp P = [0, 0, 0, 0] \<and> length (pp_alive P) = unat (sched_count (pp_sched P)) \<and> rows_at (pp_sched P) pv vs \<and>
     mset (pp_pushed P) = queued q qs + rows_held (sched_rows (pp_sched P)) + mset (pp_finished P)"

definition env_ok :: "pipe_env \<Rightarrow> bool" where
  "env_ok E \<longleftrightarrow> platform_ok (env_platform E) \<and> simd_copies (env_simd E) \<and> (\<forall>xs. env_any E xs \<longleftrightarrow> (\<exists>x \<in> set xs. x \<noteq> 0))"

lemma row_at_ref:
  assumes "row_at pv vs i v" "i < 64 * length vs" "h pv = Some vs"
  shows "ref_at h (vrow_smap v) pv vs" "ref_clear (vrow_smap v) vs = clear_sig vs i"
proof -
  have i: "64 * unat (quad_index (vrow_smap v)) + unat (bit_index (vrow_smap v)) = i" and
    b: "unat (bit_index (vrow_smap v)) < 64" using assms(1) by (simp_all add: row_at_def)
  then have "unat (quad_index (vrow_smap v)) < length vs" using assms(2) by linarith
  with assms b show "ref_at h (vrow_smap v) pv vs" by (simp add: ref_at_def row_at_def)
  show "ref_clear (vrow_smap v) vs = clear_sig vs i" by (simp add: ref_clear_def i)
qed

lemma rows_at_update:
  assumes "rows_at s pv vs" "row_at pv vs' i v'" "\<And>k. k < unat (sched_count s) \<Longrightarrow> k \<noteq> i \<Longrightarrow> signaled vs' k = signaled vs k"
    and "i < length (sched_rows s)" "sched_count s' = sched_count s" "sched_rows s' = (sched_rows s)[i := Some v']"
  shows "rows_at s' pv vs'"
  unfolding rows_at_def
proof (intro allI impI)
  fix k assume k: "k < unat (sched_count s')"
  show "\<exists>v. sched_rows s' ! k = Some v \<and> row_at pv vs' k v"
  proof (cases "k = i")
    case True
    then show ?thesis using assms(2,4,6) by simp
  next
    case False
    from assms(1,5) k obtain v where "sched_rows s ! k = Some v" "row_at pv vs k v" by (auto simp: rows_at_def)
    with assms(3) [of k] False k assms(5,6) show ?thesis by (auto simp: row_at_def)
  qed
qed

text \<open>Setting or clearing the bit of one row leaves those of the others.\<close>

lemma other_rows:
  assumes "sched_ok s q h p qs pv vs" "i < unat (sched_count s)" "k < unat (sched_count s)" "k \<noteq> i"
  shows "signaled (set_sig vs i) k = signaled vs k" "signaled (clear_sig vs i) k = signaled vs k"
  using assms signaled_set_sig [of i vs k] by (auto simp: sched_ok_def)

lemma clear_set_free:
  assumes "i < 64 * length vs" "\<not> signaled vs i"
  shows "clear_sig (set_sig vs i) i = vs"
proof -
  have "(w OR quad_bit k) AND NOT (quad_bit k) = w" if "\<not> bit w k" for w :: u64 and k
    using that by (intro bit_word_eqI) (auto simp: bit_simps quad_bit_def)
  then show ?thesis using assms index_in [OF assms(1)] by (simp add: clear_sig_def set_sig_def signaled_def)
qed

section \<open>Pushes\<close>

text \<open>A push is accepted, or waits for a free bucket, or fails the assertion on its priority.\<close>

lemma push_cases:
  assumes ok: "sched_ok s q h p qs pv vs" and simd: "simd_copies simd" and pl: "payload_wf pl"
    and push: "sched_push simd (Some s) pl idx h = Inr (b, s', idx', h')"
  obtains r j q' where "prior_index (pl_priority pl) = Inr r" "first_free q qs r = Some j" "b" "h' = h(p \<mapsto> set_sig qs j)"
    "s' = Some (s\<lparr>sched_queue := Some q'\<rparr>)" "loaded q r j (payload_bytes pl) q'"
    "sched_ok (s\<lparr>sched_queue := Some q'\<rparr>) q' h' p (set_sig qs j) pv vs"
proof -
  have q: "sched_queue s = Some q" and pool: "pool_ok q h p qs" and sz: "bucket_size q = VROW_PAYLOAD_SIZE"
    using ok by (simp_all add: sched_ok_def)
  have len: "length (payload_bytes pl) = unat (bucket_size q)"
    using payload_length [OF pl] sz by (simp add: VROW_PAYLOAD_SIZE_def)
  show ?thesis
  proof (cases "prior_index (pl_priority pl)")
    case (Inl e)
    then have "sched_push simd (Some s) pl idx h = Inl e"
      by (simp add: sched_push_def sched_ok_inv [OF ok] q bitpool_prior_load_def bitpool_prior_to_presence_def asrt_def)
    with push show ?thesis by simp
  next
    case r: (Inr r)
    show ?thesis
    proof (cases "first_free q qs r")
      case None
      then have "bitpool_prior_load simd (Some q) (Some (payload_bytes pl)) (pl_priority pl) h = Inl Diverges"
        using prior_load_result(1) [OF pool simd len r] by simp
      then have "sched_push simd (Some s) pl idx h = Inl Diverges"
        by (simp add: sched_push_def sched_ok_inv [OF ok] q)
      with push show ?thesis by simp
    next
      case (Some j)
      from sched_push_result [OF ok simd pl r Some, of idx] push that [OF r Some] show ?thesis by auto
    qed
  qed
qed

lemma pipe_at_push:
  assumes P: "pipe_at P q p qs pv vs" and E: "env_ok E" and pl: "payload_wf pl"
    and push: "sched_push (env_simd E) (Some (pp_sched P)) pl None (pp_heap P) = Inr (b, Some s, idx, h)"
  shows "\<exists>q qs. pipe_at (P\<lparr>pp_sched := s, pp_heap := h,
    pp_pushed := (if b then payload_bytes pl # pp_pushed P else pp_pushed P)\<rparr>) q p qs pv vs"
proof -
  have ok: "sched_ok (pp_sched P) q (pp_heap P) p qs pv vs" and simd: "simd_copies (env_simd E)" and cnt: "counts_ok q qs"
    using P E by (simp_all add: pipe_at_def env_ok_def)
  then have pool: "pool_ok q (pp_heap P) p qs" by (simp add: sched_ok_def)
  from push_cases [OF ok simd pl push] obtain r j q' where r: "prior_index (pl_priority pl) = Inr r"
    and j: "first_free q qs r = Some j" "b" "h = (pp_heap P)(p \<mapsto> set_sig qs j)" "s = (pp_sched P)\<lparr>sched_queue := Some q'\<rparr>"
    and l: "loaded q r j (payload_bytes pl) q'" and ok': "sched_ok s q' h p (set_sig qs j) pv vs" by (metis option.inject)
  have r4: "r < 4" using r by (rule prior_index_less)
  have mem: "range_mem (ranges q ! r) j" "\<not> signaled qs j" using j(1) by (simp_all add: first_free_Some)
  note jlt = queue_index(1,2) [OF ok r4 mem(1)]
  have c: "64 * length qs = unat (bucket_count q)" using pool by (simp add: pool_ok_def)
  have counts: "counts_ok q' (set_sig qs j)" by (rule loaded_counts [OF pool cnt l r4 mem])
  have queue: "queued q' (set_sig qs j) = add_mset (payload_bytes pl) (queued q qs)"
    by (rule queued_push [OF c jlt(1) mem(2) l])
  have "ranges q' = ranges q" using l by (simp add: loaded_def)
  then show ?thesis
    using P ok' counts queue j(2) unfolding pipe_at_def
    by (intro exI [of _ q'] exI [of _ "set_sig qs j"]) (simp add: j(4) rows_at_def)
qed

section \<open>Rounds of the scheduler\<close>

lemma no_free_row:
  assumes "sched_ok s q h p qs pv vs" "find (\<lambda>i. \<not> signaled vs i) [0..<unat (sched_count s)] = None"
  shows "sync_map_sig_first 0 (ucast (sched_count s)) (Some (sched_smap s)) (Some 0) h = Inr (False, Some 0, h)"
proof -
  have at: "smap_at h (sched_smap s) pv vs" and le: "unat (sched_count s) \<le> 64 * length vs"
    using assms(1) by (simp_all add: sched_ok_def)
  have u: "unat (ucast (sched_count s) :: u32) = unat (sched_count s)" by (simp add: unat_ucast_up)
  show ?thesis unfolding sig_first_finds [OF at] claimed_alt u using assms(2) le by (simp add: min_absorb1)
qed

text \<open>A row found free has an empty bank 0.\<close>

lemma free_row_ready:
  assumes "rows_at s pv vs" "find (\<lambda>i. \<not> signaled vs i) [0..<unat (sched_count s)] = Some i"
  obtains v where "i < unat (sched_count s)" "\<not> signaled vs i" "sched_rows s ! i = Some v" "row_at pv vs i v" "row_ready v"
proof -
  have i: "i < unat (sched_count s)" "\<not> signaled vs i" using assms(2) by (simp_all add: find_upt_Some)
  with assms(1) obtain v where "sched_rows s ! i = Some v" "row_at pv vs i v" by (auto simp: rows_at_def)
  with i that show ?thesis by (simp add: row_at_def row_ready_def)
qed

text \<open>
  A round ends the loop, or leaves everything as it was, or moves one payload. It never waits and never faults.
\<close>

lemma round_cases:
  assumes ok: "sched_ok s q h p qs pv vs" and rows: "rows_at s pv vs" and pf: "platform_ok pf"
    and disp: "\<forall>i < 3. 0 < bit_disp (ranges q ! i)"
  obtains "sched_is_closed s \<noteq> 0" "sched_main_round any pf s [0, 0, 0, 0] h = Inr (False, sched_terminate s, [0, 0, 0, 0], h)"
  | "sched_is_closed s = 0"
      "\<not> any (presence q) \<or> find (\<lambda>i. \<not> signaled vs i) [0..<unat (sched_count s)] = None \<or> unload_pick q qs = None"
      "sched_main_round any pf s [0, 0, 0, 0] h = Inr (True, s, [0, 0, 0, 0], h)"
  | i v j q' where "sched_is_closed s = 0" "any (presence q)"
      "find (\<lambda>i. \<not> signaled vs i) [0..<unat (sched_count s)] = Some i" "unload_pick q qs = Some j"
      "sched_rows s ! i = Some v" "row_ready v" "q' = q\<lparr>presence := (presence q)[top_prior q := presence q ! top_prior q - 1]\<rparr>"
      "sched_main_round any pf s [0, 0, 0, 0] h =
        Inr (True, s\<lparr>sched_rows := (sched_rows s)[i := Some (row_loaded v (bucket_at q j))], sched_queue := Some q'\<rparr>,
          [0, 0, 0, 0], h(pv \<mapsto> set_sig vs i, p \<mapsto> clear_sig qs j))"
proof (cases "sched_is_closed s = 0")
  case False
  then show ?thesis using that(1) by (simp add: sched_main_round_def)
next
  case run: True
  have q: "sched_queue s = Some q" and at: "smap_at h (sched_smap s) pv vs" and cnt: "unat (sched_count s) \<le> 64 * length vs"
    using ok by (simp_all add: sched_ok_def)
  consider "\<not> any (presence q)" | "any (presence q)" "find (\<lambda>i. \<not> signaled vs i) [0..<unat (sched_count s)] = None"
    | i where "any (presence q)" "find (\<lambda>i. \<not> signaled vs i) [0..<unat (sched_count s)] = Some i" by blast
  then show ?thesis
  proof cases
    case 1
    then show ?thesis using that(2) run by (simp add: sched_main_round_def q)
  next
    case 2
    then show ?thesis using that(2) run no_free_row [OF ok 2(2)] by (simp add: sched_main_round_def q)
  next
    case 3
    note sig = row_search [OF ok 3(2)]
    from free_row_ready [OF rows 3(2)] obtain v where v: "\<not> signaled vs i" "sched_rows s ! i = Some v" "row_ready v" by metis
    show ?thesis
    proof (cases "unload_pick q qs")
      case (Some j)
      with that(3) [OF run 3 Some v(2,3) refl] sched_round_result(1) [where any = any, OF ok pf run 3(1,2) v(2,3) disp Some]
      show ?thesis by simp
    next
      case None
      have i: "i < 64 * length vs" using sig(2) cnt by simp
      define h1 where "h1 = h(pv \<mapsto> set_sig vs i)"
      have ok1: "sched_ok s q h1 p qs pv (set_sig vs i)" unfolding h1_def by (rule sched_ok_heap(1) [OF ok]) simp
      then have pool: "pool_ok q h1 p qs" and at1: "smap_at h1 (sched_smap s) pv (set_sig vs i)" by (simp_all add: sched_ok_def)
      have "h1(pv \<mapsto> vs) = h" using at by (auto simp: h1_def smap_at_def)
      moreover have "unat (of_nat i :: u32) = i" using sig(3) by (intro unat_of_nat_small) simp
      ultimately have "sync_map_sigoff (sched_smap s) (of_nat i) h1 = Inr h"
        using sync_map_signals(2) [OF at1, of "of_nat i"] i by (simp add: clear_set_free [OF i v(1)])
      then have "sched_main_round any pf s [0, 0, 0, 0] h = Inr (True, s, [0, 0, 0, 0], h)"
        using run 3(1) by (simp add: sched_main_round_def q sig(1) unload_picks [OF pool disp] None flip: h1_def)
      then show ?thesis using that(2) run None by simp
    qed
  qed
qed

text \<open>The row a payload was loaded into.\<close>

lemma row_loaded_at:
  assumes "row_at pv vs i v" "row_ready v" "length pl = 64" "i < 64 * length vs"
  shows "row_at pv (set_sig vs i) i (row_loaded v pl)" "held (Some v) = {#}" "held (Some (row_loaded v pl)) = {#pl#}"
proof -
  have len: "length (vrow_base v) = VROW_BASE_SIZE" using assms(1) by (simp add: row_at_def)
  have "vrow_base (row_loaded v pl) = banks_of pl (bank v 1) (bank v 2) (bank v 3)" by (simp add: row_loaded_def)
  then have "length (vrow_base (row_loaded v pl)) = VROW_BASE_SIZE"
    using bank_banks_of(5) assms(3) banks_obtain(3-5) [OF len] by blast
  moreover note loaded = row_loaded_bank [OF assms(2,3)]
  moreover have "signaled (set_sig vs i) i" using assms(4) by (simp add: signaled_set_sig)
  ultimately show "row_at pv (set_sig vs i) i (row_loaded v pl)" using assms(1) by (simp add: row_at_def) (simp add: row_loaded_def)
  show "held (Some v) = {#}" "held (Some (row_loaded v pl)) = {#pl#}" using loaded assms(2) by (simp_all add: row_ready_def)
qed

text \<open>A round that moves the payload of bucket \<open>j\<close> into row \<open>i\<close>.\<close>

lemma pipe_at_moved:
  assumes P: "pipe_at P q p qs pv vs" and E: "env_ok E"
    and run: "sched_is_closed (pp_sched P) = 0" "env_any E (presence q)"
    and free: "find (\<lambda>i. \<not> signaled vs i) [0..<unat (sched_count (pp_sched P))] = Some i"
    and pick: "unload_pick q qs = Some j" and v: "sched_rows (pp_sched P) ! i = Some v"
  defines "q' \<equiv> q\<lparr>presence := (presence q)[top_prior q := presence q ! top_prior q - 1]\<rparr>"
  defines "s \<equiv> (pp_sched P)\<lparr>sched_rows := (sched_rows (pp_sched P))[i := Some (row_loaded v (bucket_at q j))], sched_queue := Some q'\<rparr>"
  defines "h \<equiv> (pp_heap P)(pv \<mapsto> set_sig vs i, p \<mapsto> clear_sig qs j)"
  shows "sched_main_round (env_any E) (env_platform E) (pp_sched P) (pp_disp P) (pp_heap P) = Inr (True, s, [0, 0, 0, 0], h)"
    and "pipe_at (P\<lparr>pp_sched := s, pp_disp := [0, 0, 0, 0], pp_heap := h\<rparr>) q' p (clear_sig qs j) pv (set_sig vs i)"
    and "queued q qs = add_mset (bucket_at q j) (queued q' (clear_sig qs j))"
proof -
  have ok: "sched_ok (pp_sched P) q (pp_heap P) p qs pv vs" and rows: "rows_at (pp_sched P) pv vs"
    and disp: "\<forall>i < 3. 0 < bit_disp (ranges q ! i)" and d0: "pp_disp P = [0, 0, 0, 0]" and cnt: "counts_ok q qs"
    using P by (simp_all add: pipe_at_def)
  have pf: "platform_ok (env_platform E)" using E by (simp add: env_ok_def)
  from free_row_ready [OF rows free] v have i: "i < unat (sched_count (pp_sched P))"
    and at: "row_at pv vs i v" "row_ready v" by auto
  have i': "i < 64 * length vs" "i < length (sched_rows (pp_sched P))" using ok i by (simp_all add: sched_ok_def)
  note mem = unload_pick_mem [OF pick]
  have j: "j < 64 * length qs" by (rule queue_index(1) [OF ok top_prior_less mem(1)])
  have pl: "length (bucket_at q j) = 64"
    using ok bucket_payload_at(2) [of q "pp_heap P" p, OF _ _ j] by (simp add: sched_ok_def)
  define w where "w = row_loaded v (bucket_at q j)"
  note w = row_loaded_at [OF at pl i'(1), folded w_def]
  note result = sched_round_result [where any = "env_any E", OF ok pf run free v at(2) disp pick, folded q'_def, folded s_def, folded h_def]
  from result(1) d0 show "sched_main_round (env_any E) (env_platform E) (pp_sched P) (pp_disp P) (pp_heap P) = Inr (True, s, [0, 0, 0, 0], h)"
    by simp
  show queue: "queued q qs = add_mset (bucket_at q j) (queued q' (clear_sig qs j))"
    by (intro queued_pop [OF j mem(2)]) (simp add: q'_def bucket_at_def fun_eq_iff)
  have "rows_at s pv (set_sig vs i)"
    by (rule rows_at_update [OF rows w(1) other_rows(1) [OF ok i] i'(2)]) (simp_all add: s_def w_def)
  moreover have "rows_held (sched_rows s) = rows_held (sched_rows (pp_sched P)) + {#bucket_at q j#}"
    using rows_held_update [OF i'(2), of "Some w"] w(2,3) v by (simp add: s_def w_def)
  moreover have "sched_count s = sched_count (pp_sched P)" "ranges q' = ranges q" by (simp_all add: s_def q'_def)
  ultimately show "pipe_at (P\<lparr>pp_sched := s, pp_disp := [0, 0, 0, 0], pp_heap := h\<rparr>) q' p (clear_sig qs j) pv (set_sig vs i)"
    using P result(2) result(3) [OF cnt] queue by (simp add: pipe_at_def)
qed

lemma pipe_at_round:
  assumes P: "pipe_at P q p qs pv vs" and E: "env_ok E"
    and round: "sched_main_round (env_any E) (env_platform E) (pp_sched P) (pp_disp P) (pp_heap P) = Inr (go, s, d, h)"
  shows "\<exists>q qs vs. pipe_at (P\<lparr>pp_sched := s, pp_disp := d, pp_heap := h\<rparr>) q p qs pv vs"
proof -
  have ok: "sched_ok (pp_sched P) q (pp_heap P) p qs pv vs" and rows: "rows_at (pp_sched P) pv vs"
    and disp: "\<forall>i < 3. 0 < bit_disp (ranges q ! i)" and d0: "pp_disp P = [0, 0, 0, 0]" and cnt: "counts_ok q qs"
    using P by (simp_all add: pipe_at_def)
  have pf: "platform_ok (env_platform E)" using E by (simp add: env_ok_def)
  show ?thesis
  proof (cases rule: round_cases [where any = "env_any E", OF ok rows pf disp])
    case 1
    then have "go = False" "s = sched_terminate (pp_sched P)" "d = [0, 0, 0, 0]" "h = pp_heap P" using round d0 by simp_all
    then have "pipe_at (P\<lparr>pp_sched := s, pp_disp := d, pp_heap := h\<rparr>) q p qs pv vs"
      using P by (simp add: pipe_at_def sched_terminate_def sched_ok_def rows_at_def)
    then show ?thesis by blast
  next
    case 2
    then have "s = pp_sched P" "d = [0, 0, 0, 0]" "h = pp_heap P" using round d0 by simp_all
    then have "pipe_at (P\<lparr>pp_sched := s, pp_disp := d, pp_heap := h\<rparr>) q p qs pv vs"
      using P by (simp add: pipe_at_def)
    then show ?thesis by blast
  next
    case (3 i v j q')
    note moved = pipe_at_moved [OF P E 3(1-5)]
    have "s = (pp_sched P)\<lparr>sched_rows := (sched_rows (pp_sched P))[i := Some (row_loaded v (bucket_at q j))], sched_queue := Some q'\<rparr>"
      "d = [0, 0, 0, 0]" "h = (pp_heap P)(pv \<mapsto> set_sig vs i, p \<mapsto> clear_sig qs j)"
      using moved(1) round 3(7) by simp_all
    with moved(2) 3(7) show ?thesis by blast
  qed
qed

section \<open>Rounds of the rows\<close>

lemma row_flushed:
  assumes "row_at pv vs i v" "i < 64 * length vs"
  shows "row_at pv (clear_sig vs i) i (v\<lparr>vrow_base := replicate VROW_BASE_SIZE 0, vrow_states := VROW_STATE_EMPTY\<rparr>)"
    "held (Some (v\<lparr>vrow_base := replicate VROW_BASE_SIZE 0, vrow_states := VROW_STATE_EMPTY\<rparr>)) = {#}"
  using assms by (simp_all add: row_at_def vrow_is_filled_def VROW_STATE_EMPTY_def signaled_set_sig)

lemma row_advanced:
  assumes "row_at pv vs i v" "i < 64 * length vs" "vrow_is_filled v 0 \<noteq> 0"
  defines "w \<equiv> v\<lparr>vrow_base := banks_of (bank v 0) (bank v 0) (bank v 0) (bank v 3), vrow_states := vrow_states v XOR 0x31\<rparr>"
  shows "row_at pv (clear_sig vs i) i w" "held (Some w) = {#}"
proof -
  have len: "length (vrow_base v) = VROW_BASE_SIZE" using assms(1) by (simp add: row_at_def)
  have "vrow_base w = banks_of (bank v 0) (bank v 0) (bank v 0) (bank v 3)" by (simp add: w_def)
  then have "length (vrow_base w) = VROW_BASE_SIZE" using bank_banks_of(5) banks_obtain(2-5) [OF len] by blast
  moreover have bit0: "vrow_is_filled u 0 \<noteq> 0 \<longleftrightarrow> bit (vrow_states u) 0" for u
    using and_BIT_eq_0_iff [of "vrow_states u" 0] by (simp add: vrow_is_filled_def BIT_def)
  have "vrow_is_filled w 0 = 0"
    using bit0 [of w] bit0 [of v] assms(3) by (simp add: w_def bit_simps)
  moreover have "\<not> signaled (clear_sig vs i) i" using assms(2) by (simp add: signaled_set_sig)
  ultimately show "row_at pv (clear_sig vs i) i w" "held (Some w) = {#}"
    using assms(1) by (simp_all add: row_at_def) (simp_all add: w_def)
qed

text \<open>A round of a row waits with an empty bank 0, or ends the thread, or takes the payload through the banks.\<close>

lemma row_cases:
  assumes v: "row_at pv vs i v" and i: "i < 64 * length vs" and h: "h pv = Some vs" and pf: "platform_ok pf"
    and f: "vrow_is_filled v 0 = 0 \<or> (\<exists>x. f (Some (b0_instr pf v)) (stack_ir (vrow_stack v) \<noteq> None) (Some 0) = Inr x)"
  obtains "vrow_is_filled v 0 = 0" "vrow_thread_round pf (Some f) (Some g) v h = Inr (Round_Wait, v, h)"
  | r w where "vrow_is_filled v 0 \<noteq> 0" "vrow_thread_round pf (Some f) (Some g) v h = Inr (r, w, h(pv \<mapsto> clear_sig vs i))"
      "r \<noteq> Round_Wait" "row_at pv (clear_sig vs i) i w" "held (Some w) = {#}" "vrow_stack w = vrow_stack v"
      "r = Round_Exit \<longleftrightarrow> (\<exists>ins n. f (Some (b0_instr pf v)) (stack_ir (vrow_stack v) \<noteq> None) (Some 0) = Inr (ins, n) \<and>
         opcode ins = ir_opcode_val IR_INVALID_OPCODE)"
proof (cases "vrow_is_filled v 0 = 0")
  case True
  with that(1) round_wait v show ?thesis by (simp add: row_at_def)
next
  case False
  note at = row_at_ref [where h = h, OF v i h]
  obtain h1 where on: "sync_map_ref_sigon (vrow_smap v) h = Inr h1" using ref_at_ops(1) [OF at(1)] by blast
  obtain ins n where x: "f (Some (b0_instr pf v)) (stack_ir (vrow_stack v) \<noteq> None) (Some 0) = Inr (ins, n)"
    using f False by (metis prod.exhaust)
  have open_row: "length (vrow_base v) = VROW_BASE_SIZE" "\<not> vrow_closed v" using v by (simp_all add: row_at_def)
  note round = round_filled [where f = f and g = g, OF pf open_row False on ref_at_ops(2) [OF at(1)] x, unfolded at(2)]
  show ?thesis
  proof (cases "opcode ins = ir_opcode_val IR_INVALID_OPCODE")
    case True
    with that(2) [OF False _ _ row_flushed [OF v i]] round x show ?thesis by simp
  next
    case valid: False
    with that(2) [OF False _ _ row_advanced [OF v i False]] round x show ?thesis by simp
  qed
qed

text \<open>A round that takes a payload fails when the translation does.\<close>

lemma round_fails:
  assumes "f (Some (b0_instr pf v)) (stack_ir (vrow_stack v) \<noteq> None) (Some 0) = Inl e" "\<not> vrow_closed v" "vrow_is_filled v 0 \<noteq> 0"
    and "length (vrow_base v) = VROW_BASE_SIZE" "sync_map_ref_sigon (vrow_smap v) h = Inr h1"
  shows "vrow_thread_round pf (Some f) (Some g) v h = Inl e"
proof -
  note b = banks_obtain [OF assms(4)]
  define w where "w = vrow_active_switch 0 v"
  have w: "vrow_base w = vrow_base v" "vrow_stack w = vrow_stack v" "vrow_smap w = vrow_smap v" by (simp_all add: w_def)
  have "buf_read (vrow_base v) 16 64 = Inr (drop 16 (bank v 0) @ take 16 (bank v 1))"
    using banks_write(7) [OF b(2-5) b(2)] unfolding b(1) [symmetric] .
  then have proc: "vrow_bank_0_proc pf (Some w) (Some f) = Inl e"
    using assms(1) by (simp add: vrow_bank_0_proc_def bank_offsets b0_instr_def w)
  show ?thesis
    by (simp only: vrow_thread_round_def assms(2,3) if_False and_then_simps w_def [symmetric] w(3) assms(5) proc)
qed

lemma round_translates:
  assumes "vrow_thread_round pf (Some f) (Some g) v h = Inr x" "\<not> vrow_closed v" "vrow_is_filled v 0 \<noteq> 0"
    and "length (vrow_base v) = VROW_BASE_SIZE" "sync_map_ref_sigon (vrow_smap v) h = Inr h1"
  shows "\<exists>y. f (Some (b0_instr pf v)) (stack_ir (vrow_stack v) \<noteq> None) (Some 0) = Inr y"
  using round_fails [where f = f, OF _ assms(2-5)] assms(1)
  by (cases "f (Some (b0_instr pf v)) (stack_ir (vrow_stack v) \<noteq> None) (Some 0)") auto

lemma pipe_row_at:
  assumes "pipe_at P q p qs pv vs" "i < length (sched_rows (pp_sched P))" "sched_rows (pp_sched P) ! i = Some v"
  shows "row_at pv vs i v" "i < 64 * length vs" "pp_heap P pv = Some vs" "i < unat (sched_count (pp_sched P))"
  using assms by (auto simp: pipe_at_def sched_ok_def rows_at_def smap_at_def)

lemma pipe_at_row:
  assumes P: "pipe_at P q p qs pv vs" and E: "env_ok E"
    and i: "i < length (sched_rows (pp_sched P))" "sched_rows (pp_sched P) ! i = Some v"
    and round: "vrow_thread_round (env_platform E) (Some (env_b0 E)) (Some (env_b2 E)) v (pp_heap P) = Inr (r, v', h)"
  shows "\<exists>vs'. pipe_at (row_step P i v r v' h) q p qs pv vs' \<and> vrow_stack v' = vrow_stack v \<and>
    (vrow_is_filled v 0 \<noteq> 0 \<longrightarrow> r \<noteq> Round_Wait) \<and>
    (r = Round_Exit \<longrightarrow> (\<exists>ins n. env_b0 E (Some (b0_instr (env_platform E) v)) (stack_ir (vrow_stack v) \<noteq> None) (Some 0) = Inr (ins, n) \<and>
       opcode ins = ir_opcode_val IR_INVALID_OPCODE))"
proof -
  note v = pipe_row_at [OF P i]
  have ok: "sched_ok (pp_sched P) q (pp_heap P) p qs pv vs" and rows: "rows_at (pp_sched P) pv vs" using P by (simp_all add: pipe_at_def)
  have pf: "platform_ok (env_platform E)" using E by (simp add: env_ok_def)
  obtain h1 where on: "sync_map_ref_sigon (vrow_smap v) (pp_heap P) = Inr h1"
    using ref_at_ops(1) [OF row_at_ref(1) [where h = "pp_heap P", OF v(1-3)]] by blast
  have trans: "vrow_is_filled v 0 = 0 \<or>
      (\<exists>x. env_b0 E (Some (b0_instr (env_platform E) v)) (stack_ir (vrow_stack v) \<noteq> None) (Some 0) = Inr x)"
    using round_translates [where f = "env_b0 E", OF round _ _ _ on] v(1) by (auto simp: row_at_def)
  show ?thesis
  proof (cases rule: row_cases [where f = "env_b0 E" and g = "env_b2 E" and h = "pp_heap P", OF v(1-3) pf trans])
    case 1
    then have "r = Round_Wait" "v' = v" "h = pp_heap P" using round by simp_all
    then have "row_step P i v r v' h = P" using i by (simp add: row_step_def list_update_same_conv)
    with P 1(1) \<open>r = Round_Wait\<close> \<open>v' = v\<close> show ?thesis by auto
  next
    case (2 r' w)
    then have eq: "v' = w" "h = (pp_heap P)(pv \<mapsto> clear_sig vs i)" "r \<noteq> Round_Wait" using round by simp_all
    have "sched_ok (pp_sched P) q h p qs pv (clear_sig vs i)" unfolding eq(2) by (rule sched_ok_heap(1) [OF ok]) simp
    moreover have "rows_at ((pp_sched P)\<lparr>sched_rows := (sched_rows (pp_sched P))[i := Some w]\<rparr>) pv (clear_sig vs i)"
      by (rule rows_at_update [OF rows 2(4) other_rows(2) [OF ok v(4)] i(1)]) simp_all
    moreover have "rows_held (sched_rows (pp_sched P)) = rows_held ((sched_rows (pp_sched P))[i := Some w]) + {#bank v 0#}"
      using rows_held_update [OF i(1), of "Some w"] 2(1,5) i(2) by simp
    ultimately have "pipe_at (row_step P i v r v' h) q p qs pv (clear_sig vs i)"
      using P eq by (simp add: pipe_at_def row_step_def sched_ok_def)
    moreover have "r = r'" using 2(2) round by simp
    ultimately show ?thesis using eq(1,3) 2(6,7) by blast
  qed
qed

lemma pipe_at_step:
  assumes "pipe_step E P P'" "pipe_at P q p qs pv vs" "env_ok E"
  shows "\<exists>q qs vs. pipe_at P' q p qs pv vs"
  using assms(1)
proof cases
  case (pipe_push pl b s idx h)
  with pipe_at_push [OF assms(2,3) pipe_push(2,3)] show ?thesis by blast
next
  case (pipe_round go s d h)
  with pipe_at_round [OF assms(2,3) pipe_round(3)] show ?thesis by blast
next
  case (pipe_row i v r v' h)
  with pipe_at_row [OF assms(2,3) pipe_row(2,4,5)] show ?thesis by blast
next
  case pipe_close
  have "pipe_at P' q p qs pv vs" using assms(2) by (simp add: pipe_close pipe_at_def sched_close_def sched_ok_def rows_at_def)
  then show ?thesis by blast
qed

lemma pipe_at_reach:
  assumes "pipe_reach E P P'" "pipe_at P q p qs pv vs" "env_ok E"
  shows "\<exists>q qs vs. pipe_at P' q p qs pv vs"
  using assms(1)
proof induction
  case base
  with assms(2) show ?case by blast
next
  case (step P1 P2)
  then show ?case using pipe_at_step [OF step(2) _ assms(3)] by blast
qed

text \<open>The rounds of the threads return, that of a row with a payload exactly if the translation does.\<close>

lemma pipe_rounds_return:
  assumes P: "pipe_at P q p qs pv vs" and E: "env_ok E"
  shows "\<exists>x. sched_main_round (env_any E) (env_platform E) (pp_sched P) (pp_disp P) (pp_heap P) = Inr x"
proof -
  have ok: "sched_ok (pp_sched P) q (pp_heap P) p qs pv vs" and rows: "rows_at (pp_sched P) pv vs"
    and disp: "\<forall>i < 3. 0 < bit_disp (ranges q ! i)" and d0: "pp_disp P = [0, 0, 0, 0]"
    using P by (simp_all add: pipe_at_def)
  have pf: "platform_ok (env_platform E)" using E by (simp add: env_ok_def)
  show ?thesis unfolding d0 by (cases rule: round_cases [where any = "env_any E", OF ok rows pf disp]) blast+
qed

lemma row_round_outcome:
  assumes P: "pipe_at P q p qs pv vs" and E: "env_ok E"
    and i: "i < length (sched_rows (pp_sched P))" "sched_rows (pp_sched P) ! i = Some v"
  defines "t \<equiv> env_b0 E (Some (b0_instr (env_platform E) v)) (stack_ir (vrow_stack v) \<noteq> None) (Some 0)"
  shows "vrow_is_filled v 0 = 0 \<or> (\<exists>y. t = Inr y) \<Longrightarrow>
      \<exists>x. vrow_thread_round (env_platform E) (Some (env_b0 E)) (Some (env_b2 E)) v (pp_heap P) = Inr x"
    and "vrow_is_filled v 0 \<noteq> 0 \<Longrightarrow> t = Inl e \<Longrightarrow>
      vrow_thread_round (env_platform E) (Some (env_b0 E)) (Some (env_b2 E)) v (pp_heap P) = Inl e"
proof -
  note v = pipe_row_at [OF P i]
  have pf: "platform_ok (env_platform E)" using E by (simp add: env_ok_def)
  assume "vrow_is_filled v 0 = 0 \<or> (\<exists>y. t = Inr y)"
  then have "vrow_is_filled v 0 = 0 \<or>
      (\<exists>x. env_b0 E (Some (b0_instr (env_platform E) v)) (stack_ir (vrow_stack v) \<noteq> None) (Some 0) = Inr x)"
    unfolding t_def by blast
  then show "\<exists>x. vrow_thread_round (env_platform E) (Some (env_b0 E)) (Some (env_b2 E)) v (pp_heap P) = Inr x"
    by (cases rule: row_cases [where f = "env_b0 E" and g = "env_b2 E" and h = "pp_heap P", OF v(1-3) pf]) blast+
next
  note v = pipe_row_at [OF P i]
  obtain h1 where on: "sync_map_ref_sigon (vrow_smap v) (pp_heap P) = Inr h1"
    using ref_at_ops(1) [OF row_at_ref(1) [where h = "pp_heap P", OF v(1-3)]] by blast
  assume "vrow_is_filled v 0 \<noteq> 0" "t = Inl e"
  then show "vrow_thread_round (env_platform E) (Some (env_b0 E)) (Some (env_b2 E)) v (pp_heap P) = Inl e"
    using v(1) unfolding t_def by (intro round_fails [where f = "env_b0 E", OF _ _ _ _ on]) (simp_all add: row_at_def)
qed

section \<open>The translator of the program\<close>

text \<open>
  The translator of the context is the one for MIPS (\<^verbatim>\<open>mips32_to_ir\<close>, the only one there is), and a \<^verbatim>\<open>mte_raw_instr\<close>
  is its architecture, four bytes, followed by its 60 bytes of payload. A payload that arrives in bank 0 holds the struct
  from byte 16 on, and so the instruction word in its bytes 20 to 23.
\<close>

definition env_mips :: "pipe_env \<Rightarrow> bool" where
  "env_mips E \<longleftrightarrow> env_b0 E = mips32_to_ir \<and>
     (\<forall>bs. length bs = 64 \<longrightarrow> payload (instr_of_bytes (env_platform E) bs) = drop 4 bs)"

definition payload_word :: "u8 list \<Rightarrow> u32" where
  "payload_word pl = le32 (drop 20 pl)"

text \<open>The payloads the translator accepts: register instructions with a function it knows.\<close>

definition translates :: "u8 list \<Rightarrow> bool" where
  "translates pl \<longleftrightarrow> mips32_get_instr_type (payload_word pl) = MIPS_R \<and>
     MIPS32_TO_IR_TABLE (mips32_funct (payload_word pl)) \<noteq> ir_opcode_val IR_INVALID_OPCODE"

lemma b0_translation:
  assumes "env_mips E" "length (vrow_base v) = VROW_BASE_SIZE"
  shows "env_b0 E (Some (b0_instr (env_platform E) v)) c (Some 0) =
    (if \<not> c then Inr (ir_raw_instr_zero, Some 0)
     else if mips32_get_instr_type (payload_word (bank v 0)) = MIPS_R then Inr (r_type_ir (payload_word (bank v 0)), Some 4)
     else Inl Assert_Fail)"
proof -
  note b = banks_obtain [OF assms(2)]
  have "payload (b0_instr (env_platform E) v) = drop 20 (bank v 0) @ take 16 (bank v 1)"
    using assms(1) b(2,3) by (simp add: env_mips_def b0_instr_def)
  then have "le32 (payload (b0_instr (env_platform E) v)) = payload_word (bank v 0)"
    using b(2) by (simp add: payload_word_def le32_def nth_append)
  then show ?thesis using assms(1) by (simp add: env_mips_def mips32_to_ir_result)
qed

section \<open>Draining\<close>

text \<open>
  No range is full from its first index to the end of that quad, which is where the search for a used bucket
  looks first.
\<close>

definition unblocked :: "bitpool_desc \<Rightarrow> u64 list \<Rightarrow> bool" where
  "unblocked q qs \<longleftrightarrow> (\<forall>r < 4. \<exists>k. unat (bit_i (ranges q ! r)) \<le> k \<and>
     k < 64 * (unat (bit_i (ranges q ! r)) div 64) + 64 \<and> k < 64 * length qs \<and> \<not> signaled qs k)"

definition pipe_live :: "pipeline \<Rightarrow> bitpool_desc \<Rightarrow> nat \<Rightarrow> u64 list \<Rightarrow> nat \<Rightarrow> u64 list \<Rightarrow> bool" where
  "pipe_live P q p qs pv vs \<longleftrightarrow> pipe_at P q p qs pv vs \<and> unblocked q qs \<and> list_all id (pp_alive P) \<and>
     sched_is_closed (pp_sched P) = 0 \<and> sched_is_terminated (pp_sched P) = 0 \<and> 0 < sched_count (pp_sched P) \<and>
     (\<forall>v. Some v \<in> set (sched_rows (pp_sched P)) \<longrightarrow> stack_ir (vrow_stack v) \<noteq> None) \<and>
     (\<forall>pl \<in># mset (pp_pushed P) - mset (pp_finished P). translates pl)"

lemma held_unfinished:
  assumes "pipe_at P q p qs pv vs" "i < unat (sched_count (pp_sched P))" "sched_rows (pp_sched P) ! i = Some v" "vrow_is_filled v 0 \<noteq> 0"
  shows "bank v 0 \<in># mset (pp_pushed P) - mset (pp_finished P)"
proof -
  have i: "i < length (sched_rows (pp_sched P))" using assms(1,2) by (simp add: pipe_at_def sched_ok_def)
  have "bank v 0 \<in># rows_held (sched_rows (pp_sched P))"
    using rows_held_update [OF i, of None] assms(3,4) by (metis held.simps union_iff add.right_neutral multi_member_last)
  moreover have "mset (pp_pushed P) - mset (pp_finished P) = queued q qs + rows_held (sched_rows (pp_sched P))"
    using assms(1) by (simp add: pipe_at_def)
  ultimately show ?thesis by simp
qed

lemma no_row_held:
  "(\<And>i v. i < length rows \<Longrightarrow> rows ! i = Some v \<Longrightarrow> vrow_is_filled v 0 = 0) \<Longrightarrow> rows_held rows = {#}"
proof (induction rows)
  case Nil
  then show ?case by (simp add: rows_held_def)
next
  case (Cons r rows)
  have "rows_held rows = {#}" using Cons.prems [of "Suc _"] by (intro Cons.IH) simp
  moreover have "held r = {#}" using Cons.prems [of 0] by (cases r) simp_all
  ultimately show ?case by (simp add: rows_held_def)
qed

text \<open>With a payload in the queue the scheduler finds one, whatever its priority.\<close>

lemma queued_picks:
  assumes ok: "pool_ok q h p qs" and cnt: "counts_ok q qs" and un: "unblocked q qs" and some: "queued q qs \<noteq> {#}"
  shows "(\<exists>x \<in> set (presence q). x \<noteq> 0) \<and> (\<exists>j. unload_pick q qs = Some j)"
proof -
  obtain j where j: "j < 64 * length qs" "signaled qs j" using some by (auto simp: queued_def mset_set_empty_iff)
  obtain r where r: "r < 4" "range_mem (ranges q ! r) j" by (rule pool_range_of [OF ok j(1)])
  have pos: "presence q ! r \<noteq> 0 \<longleftrightarrow> range_used qs (ranges q ! r) \<noteq> {}" if "r < 4" for r
    using cnt that unat_eq_0 [of "presence q ! r"] by (simp add: counts_ok_def)
  have "range_used qs (ranges q ! r) \<noteq> {}" using j r by (auto simp: range_used_def)
  then have pr: "presence q ! r \<noteq> 0" using pos r(1) by blast
  have "r = 0 \<or> r = 1 \<or> r = 2 \<or> r = 3" using r(1) by linarith
  then have "presence q ! top_prior q \<noteq> 0" using pr by (auto simp: top_prior_def word_neq_0_conv)
  then obtain k where k: "range_mem (ranges q ! top_prior q) k" "signaled qs k"
    using pos [OF top_prior_less] by (auto simp: range_used_def)
  obtain k' where "unat (bit_i (ranges q ! top_prior q)) \<le> k'" "\<not> signaled qs k'"
    "k' < 64 * (unat (bit_i (ranges q ! top_prior q)) div 64) + 64"
    using un top_prior_less [of q] unfolding unblocked_def by blast
  then have "unsig_start qs (unat (bit_i (ranges q ! top_prior q))) = unat (bit_i (ranges q ! top_prior q))"
    by (auto simp: unsig_start_def)
  then have "unload_pick q qs \<noteq> None" using k by (auto simp: unload_pick_def find_None_iff range_mem_def)
  moreover have "presence q ! r \<in> set (presence q)" using ok r(1) by (intro nth_mem) (simp add: pool_ok_def)
  ultimately show ?thesis using pr by blast
qed

lemma live_round:
  assumes live: "pipe_live P q p qs pv vs" and E: "env_ok E" and none: "rows_held (sched_rows (pp_sched P)) = {#}"
    and some: "queued q qs \<noteq> {#}"
  shows "\<exists>P' q' qs' vs'. pipe_step E P P' \<and> pipe_live P' q' p qs' pv vs' \<and> pp_pushed P' = pp_pushed P \<and>
    pp_finished P' = pp_finished P \<and> size (queued q' qs') < size (queued q qs)"
proof -
  have P: "pipe_at P q p qs pv vs" and un: "unblocked q qs" and run: "sched_is_closed (pp_sched P) = 0"
    "sched_is_terminated (pp_sched P) = 0" and pos: "0 < unat (sched_count (pp_sched P))"
    using live by (simp_all add: pipe_live_def word_less_nat_alt)
  have ok: "sched_ok (pp_sched P) q (pp_heap P) p qs pv vs" and cnt: "counts_ok q qs" and rows: "rows_at (pp_sched P) pv vs"
    using P by (simp_all add: pipe_at_def)
  have pool: "pool_ok q (pp_heap P) p qs" using ok by (simp add: sched_ok_def)
  obtain v0 where v0: "sched_rows (pp_sched P) ! 0 = Some v0" "row_at pv vs 0 v0" using rows pos by (auto simp: rows_at_def)
  have "0 < length (sched_rows (pp_sched P))" using ok pos by (simp add: sched_ok_def)
  from rows_held_update [OF this, of None] none v0(1) have "vrow_is_filled v0 0 = 0" by (auto split: if_splits)
  then have "\<not> signaled vs 0" using v0(2) by (simp add: row_at_def)
  then have free: "find (\<lambda>i. \<not> signaled vs i) [0..<unat (sched_count (pp_sched P))] = Some 0"
    using pos by (simp add: find_upt_Some)
  from queued_picks [OF pool cnt un some] E obtain j where any: "env_any E (presence q)" and pick: "unload_pick q qs = Some j"
    by (auto simp: env_ok_def)
  define q' where "q' = q\<lparr>presence := (presence q)[top_prior q := presence q ! top_prior q - 1]\<rparr>"
  define s where "s = (pp_sched P)\<lparr>sched_rows := (sched_rows (pp_sched P))[0 := Some (row_loaded v0 (bucket_at q j))], sched_queue := Some q'\<rparr>"
  define h where "h = (pp_heap P)(pv \<mapsto> set_sig vs 0, p \<mapsto> clear_sig qs j)"
  define P' where "P' = P\<lparr>pp_sched := s, pp_disp := [0, 0, 0, 0], pp_heap := h\<rparr>"
  note moved = pipe_at_moved [OF P E run(1) any free pick v0(1), folded q'_def, folded s_def, folded h_def, folded P'_def]
  have step: "pipe_step E P P'" unfolding P'_def by (rule pipe_round [OF run(2) moved(1)])
  have "j < 64 * length qs" by (rule queue_index(1) [OF ok top_prior_less unload_pick_mem(1) [OF pick]])
  then have "unblocked q' (clear_sig qs j)" using un signaled_set_sig(2) by (fastforce simp: unblocked_def q'_def)
  moreover have "stack_ir (vrow_stack v) \<noteq> None" if "Some v \<in> set (sched_rows (pp_sched P'))" for v
  proof -
    have "Some v0 \<in> set (sched_rows (pp_sched P))" using v0(1) \<open>0 < length (sched_rows (pp_sched P))\<close> nth_mem by metis
    moreover have "vrow_stack (row_loaded v0 (bucket_at q j)) = vrow_stack v0" by (simp add: row_loaded_def)
    ultimately show ?thesis using that live set_update_subset_insert by (fastforce simp: pipe_live_def P'_def s_def)
  qed
  ultimately have "pipe_live P' q' p (clear_sig qs j) pv (set_sig vs 0)"
    using moved(2) live by (simp add: pipe_live_def) (simp add: P'_def s_def sched_is_closed_def sched_is_terminated_def)
  moreover have "size (queued q' (clear_sig qs j)) < size (queued q qs)" using moved(3) by simp
  moreover have "pp_pushed P' = pp_pushed P" "pp_finished P' = pp_finished P" by (simp_all add: P'_def)
  ultimately show ?thesis using step by blast
qed

text \<open>The round of a row with a payload finishes it.\<close>

lemma live_translation:
  assumes live: "pipe_live P q p qs pv vs" and E: "env_mips E"
    and i: "i < length (sched_rows (pp_sched P))" "sched_rows (pp_sched P) ! i = Some v" "vrow_is_filled v 0 \<noteq> 0"
  shows "env_b0 E (Some (b0_instr (env_platform E) v)) (stack_ir (vrow_stack v) \<noteq> None) (Some 0) =
      Inr (r_type_ir (payload_word (bank v 0)), Some 4)"
    and "opcode (r_type_ir (payload_word (bank v 0))) \<noteq> ir_opcode_val IR_INVALID_OPCODE"
proof -
  have P: "pipe_at P q p qs pv vs" using live by (simp add: pipe_live_def)
  note v = pipe_row_at [OF P i(1,2)]
  have len: "length (vrow_base v) = VROW_BASE_SIZE" using v(1) by (simp add: row_at_def)
  have "stack_ir (vrow_stack v) \<noteq> None" using live i(1,2) nth_mem unfolding pipe_live_def by metis
  moreover have word: "translates (bank v 0)" using live held_unfinished [OF P v(4) i(2,3)] by (simp add: pipe_live_def)
  ultimately show "env_b0 E (Some (b0_instr (env_platform E) v)) (stack_ir (vrow_stack v) \<noteq> None) (Some 0) =
      Inr (r_type_ir (payload_word (bank v 0)), Some 4)"
    unfolding b0_translation [OF E len] by (simp add: translates_def)
  show "opcode (r_type_ir (payload_word (bank v 0))) \<noteq> ir_opcode_val IR_INVALID_OPCODE"
    using word by (simp add: translates_def r_type_ir_def)
qed

lemma live_row:
  assumes live: "pipe_live P q p qs pv vs" and E: "env_ok E" "env_mips E" and some: "rows_held (sched_rows (pp_sched P)) \<noteq> {#}"
  shows "\<exists>P' vs'. pipe_step E P P' \<and> pipe_live P' q p qs pv vs' \<and> pp_pushed P' = pp_pushed P \<and>
    length (pp_finished P') = Suc (length (pp_finished P))"
proof -
  have P: "pipe_at P q p qs pv vs" and alive: "list_all id (pp_alive P)" using live by (simp_all add: pipe_live_def)
  obtain i v where i: "i < length (sched_rows (pp_sched P))" "sched_rows (pp_sched P) ! i = Some v" "vrow_is_filled v 0 \<noteq> 0"
    using no_row_held some by blast
  note trans = live_translation [OF live E(2) i]
  obtain r v' h where round: "vrow_thread_round (env_platform E) (Some (env_b0 E)) (Some (env_b2 E)) v (pp_heap P) = Inr (r, v', h)"
    using row_round_outcome(1) [OF P E(1) i(1,2)] trans(1) by (metis prod.exhaust)
  from pipe_at_row [OF P E(1) i(1,2) round] i(3) trans obtain vs' where
    at: "pipe_at (row_step P i v r v' h) q p qs pv vs'" and stack: "vrow_stack v' = vrow_stack v" and
    r: "r \<noteq> Round_Wait" "r \<noteq> Round_Exit" by auto
  have "i < length (pp_alive P)" using i(1) P by (simp add: pipe_at_def sched_ok_def)
  then have "pp_alive P ! i" using alive by (simp add: list_all_length)
  note step = pipe_row [where E = E, OF i(1) this i(2) round]
  have "stack_ir (vrow_stack w) \<noteq> None" if "Some w \<in> set (sched_rows (pp_sched (row_step P i v r v' h)))" for w
  proof -
    have "Some v \<in> set (sched_rows (pp_sched P))" using i(1,2) nth_mem by metis
    then show ?thesis using that live stack set_update_subset_insert by (fastforce simp: pipe_live_def row_step_def)
  qed
  moreover have "translates pl" if "pl \<in># mset (pp_pushed P) - add_mset (bank v 0) (mset (pp_finished P))" for pl
  proof -
    have "pl \<in># (mset (pp_pushed P) - mset (pp_finished P)) - {#bank v 0#}" using that by simp
    then have "pl \<in># mset (pp_pushed P) - mset (pp_finished P)" by (rule in_diffD)
    then show ?thesis using live by (simp add: pipe_live_def)
  qed
  ultimately have "pipe_live (row_step P i v r v' h) q p qs pv vs'"
    using at live r by (simp add: pipe_live_def) (simp add: row_step_def sched_is_closed_def sched_is_terminated_def)
  moreover have "pp_pushed (row_step P i v r v' h) = pp_pushed P" "length (pp_finished (row_step P i v r v' h)) = Suc (length (pp_finished P))"
    using r by (simp_all add: row_step_def)
  ultimately show ?thesis using step by blast
qed

lemma pipe_drains:
  assumes "env_ok E" "env_mips E"
  shows "pipe_live P q p qs pv vs \<Longrightarrow>
    \<exists>P'. pipe_reach E P P' \<and> pp_pushed P' = pp_pushed P \<and> mset (pp_finished P') = mset (pp_pushed P)"
proof (induction "size (queued q qs) + (length (pp_pushed P) - length (pp_finished P))" arbitrary: P q qs vs rule: less_induct)
  case (less P q qs vs)
  have eq: "mset (pp_pushed P) = queued q qs + rows_held (sched_rows (pp_sched P)) + mset (pp_finished P)"
    using less.prems by (simp add: pipe_live_def pipe_at_def)
  have len: "length (pp_pushed P) = size (queued q qs) + size (rows_held (sched_rows (pp_sched P))) + length (pp_finished P)"
    using arg_cong [OF eq, of size] by simp
  consider "queued q qs = {#}" "rows_held (sched_rows (pp_sched P)) = {#}" | "rows_held (sched_rows (pp_sched P)) \<noteq> {#}"
    | "rows_held (sched_rows (pp_sched P)) = {#}" "queued q qs \<noteq> {#}" by blast
  then show ?case
  proof cases
    case 1
    then show ?thesis using eq by (intro exI [of _ P]) simp
  next
    case 2
    from live_row [OF less.prems assms 2] obtain P1 vs1 where P1: "pipe_step E P P1" "pipe_live P1 q p qs pv vs1"
      "pp_pushed P1 = pp_pushed P" "length (pp_finished P1) = Suc (length (pp_finished P))" by blast
    have "0 < size (rows_held (sched_rows (pp_sched P)))" using 2 by (simp add: nonempty_has_size)
    then have "size (queued q qs) + (length (pp_pushed P1) - length (pp_finished P1)) <
        size (queued q qs) + (length (pp_pushed P) - length (pp_finished P))" using len by (simp add: P1(3,4))
    from less.hyps [OF this P1(2)] P1(1,3) show ?thesis by (metis converse_rtranclp_into_rtranclp)
  next
    case 3
    from live_round [OF less.prems assms(1) 3] obtain P1 q1 qs1 vs1 where P1: "pipe_step E P P1" "pipe_live P1 q1 p qs1 pv vs1"
      "pp_pushed P1 = pp_pushed P" "pp_finished P1 = pp_finished P" "size (queued q1 qs1) < size (queued q qs)" by blast
    have "size (queued q1 qs1) + (length (pp_pushed P1) - length (pp_finished P1)) <
        size (queued q qs) + (length (pp_pushed P) - length (pp_finished P))" using P1(3-5) by simp
    from less.hyps [OF this P1(2)] P1(1,3) show ?thesis by (metis converse_rtranclp_into_rtranclp)
  qed
qed

section \<open>Rows without a thread\<close>

lemma dead_row_step:
  assumes step: "pipe_step E P P'" and P: "pipe_at P q p qs pv vs" and E: "env_ok E"
    and i: "i < unat (sched_count (pp_sched P))" "\<not> pp_alive P ! i" "sched_rows (pp_sched P) ! i = Some v" "vrow_is_filled v 0 \<noteq> 0"
  shows "sched_count (pp_sched P') = sched_count (pp_sched P) \<and> \<not> pp_alive P' ! i \<and> sched_rows (pp_sched P') ! i = Some v"
  using step
proof cases
  case (pipe_push pl b s idx h)
  have ok: "sched_ok (pp_sched P) q (pp_heap P) p qs pv vs" and simd: "simd_copies (env_simd E)" using P E by (simp_all add: pipe_at_def env_ok_def)
  from push_cases [OF ok simd pipe_push(2,3)] obtain q' where "s = (pp_sched P)\<lparr>sched_queue := Some q'\<rparr>" by (metis option.inject)
  then show ?thesis using i pipe_push(1) by simp
next
  case (pipe_round go s d h)
  have ok: "sched_ok (pp_sched P) q (pp_heap P) p qs pv vs" and rows: "rows_at (pp_sched P) pv vs"
    and disp: "\<forall>i < 3. 0 < bit_disp (ranges q ! i)" and d0: "pp_disp P = [0, 0, 0, 0]" and pf: "platform_ok (env_platform E)"
    using P E by (simp_all add: pipe_at_def env_ok_def)
  show ?thesis
  proof (cases rule: round_cases [where any = "env_any E", OF ok rows pf disp])
    case 1
    then have "s = sched_terminate (pp_sched P)" using pipe_round(3) d0 by simp
    then show ?thesis using pipe_round(1) i by (simp add: sched_terminate_def)
  next
    case 2
    then have "s = pp_sched P" using pipe_round(3) d0 by simp
    then show ?thesis using pipe_round(1) i by simp
  next
    case (3 k w j q')
    from 3(5,6) have "k \<noteq> i" using i(3,4) by (auto simp: row_ready_def)
    moreover have "s = (pp_sched P)\<lparr>sched_rows := (sched_rows (pp_sched P))[k := Some (row_loaded w (bucket_at q j))], sched_queue := Some q'\<rparr>"
      using 3(8) pipe_round(3) d0 by simp
    ultimately show ?thesis using pipe_round(1) i by simp
  qed
next
  case (pipe_row k w r v' h)
  then have "k \<noteq> i" using i(2) by auto
  then show ?thesis using pipe_row(1) i by (simp add: row_step_def)
next
  case pipe_close
  then show ?thesis using i by (simp add: sched_close_def)
qed

lemma dead_row_reach:
  assumes reach: "pipe_reach E P P'" and P: "pipe_at P q p qs pv vs" and E: "env_ok E"
    and i: "i < unat (sched_count (pp_sched P))" "\<not> pp_alive P ! i" "sched_rows (pp_sched P) ! i = Some v" "vrow_is_filled v 0 \<noteq> 0"
  shows "sched_count (pp_sched P') = sched_count (pp_sched P) \<and> \<not> pp_alive P' ! i \<and> sched_rows (pp_sched P') ! i = Some v"
  using reach
proof induction
  case base
  then show ?case using i by simp
next
  case (step P1 P2)
  from pipe_at_reach [OF step(1) P E] obtain q1 qs1 vs1 where P1: "pipe_at P1 q1 p qs1 pv vs1" by blast
  show ?case using dead_row_step [OF step(2) P1 E, of i v] step(3) i by simp
qed

section \<open>Properties\<close>

text \<open>
  C12: no payload is lost or duplicated as long as calls and rounds do not overlap. Whatever the order of pushes,
  rounds of the scheduler, rounds of the rows and closing, the scheduler stays well-formed, its counters are
  exact, a row's bit is set exactly while a payload lies in its bank 0, and the payloads accepted are
  those in the queue, those in the rows and those finished, each as often.
\<close>

theorem pipeline_conserves:
  assumes "pipe_at P q p qs pv vs" "env_ok E" "pipe_reach E P P'"
  shows "\<exists>q' qs' vs'. sched_ok (pp_sched P') q' (pp_heap P') p qs' pv vs' \<and> counts_ok q' qs' \<and> rows_at (pp_sched P') pv vs' \<and>
    mset (pp_pushed P') = queued q' qs' + rows_held (sched_rows (pp_sched P')) + mset (pp_finished P')"
  using pipe_at_reach [OF assms(3,1,2)] unfolding pipe_at_def by blast

text \<open>
  C15: the threads never wait for each other inside a round, and no round faults except on an instruction the translator
  does not accept. In every state that a well-formed pipeline with the MIPS translator and vector functions that copy and clear
  as they are named (\<open>env_ok\<close>) reaches, the round of the scheduler returns, since a
  row it finds free has an empty bank 0; and the round of a row returns unless its bank 0 is filled, its thread has a context
  and the instruction word of the payload is not a register instruction: then, and only then, the round stops the program
  with the translator's failed assertion.
\<close>

theorem pipeline_rounds_return:
  assumes "pipe_at P q p qs pv vs" "env_ok E" "env_mips E" "pipe_reach E P P'"
  shows "(\<exists>x. sched_main_round (env_any E) (env_platform E) (pp_sched P') (pp_disp P') (pp_heap P') = Inr x) \<and>
    (\<forall>v. Some v \<in> set (sched_rows (pp_sched P')) \<longrightarrow>
       (if vrow_is_filled v 0 \<noteq> 0 \<and> stack_ir (vrow_stack v) \<noteq> None \<and> mips32_get_instr_type (payload_word (bank v 0)) \<noteq> MIPS_R
        then vrow_thread_round (env_platform E) (Some (env_b0 E)) (Some (env_b2 E)) v (pp_heap P') = Inl Assert_Fail
        else \<exists>x. vrow_thread_round (env_platform E) (Some (env_b0 E)) (Some (env_b2 E)) v (pp_heap P') = Inr x))"
proof -
  from pipe_at_reach [OF assms(4,1,2)] obtain q' qs' vs' where P': "pipe_at P' q' p qs' pv vs'" by blast
  have "if vrow_is_filled v 0 \<noteq> 0 \<and> stack_ir (vrow_stack v) \<noteq> None \<and> mips32_get_instr_type (payload_word (bank v 0)) \<noteq> MIPS_R
        then vrow_thread_round (env_platform E) (Some (env_b0 E)) (Some (env_b2 E)) v (pp_heap P') = Inl Assert_Fail
        else \<exists>x. vrow_thread_round (env_platform E) (Some (env_b0 E)) (Some (env_b2 E)) v (pp_heap P') = Inr x"
    if mem: "Some v \<in> set (sched_rows (pp_sched P'))" for v
  proof -
    from mem obtain i where i: "i < length (sched_rows (pp_sched P'))" "sched_rows (pp_sched P') ! i = Some v"
      by (auto simp: in_set_conv_nth)
    have len: "length (vrow_base v) = VROW_BASE_SIZE" using pipe_row_at(1) [OF P' i] by (simp add: row_at_def)
    note outcome = row_round_outcome [OF P' assms(2) i]
    show ?thesis
    proof (cases "vrow_is_filled v 0 \<noteq> 0 \<and> stack_ir (vrow_stack v) \<noteq> None \<and> mips32_get_instr_type (payload_word (bank v 0)) \<noteq> MIPS_R")
      case True
      with outcome(2) [of Assert_Fail] show ?thesis by (simp add: b0_translation [OF assms(3) len])
    next
      case False
      then have "vrow_is_filled v 0 = 0 \<or>
          (\<exists>y. env_b0 E (Some (b0_instr (env_platform E) v)) (stack_ir (vrow_stack v) \<noteq> None) (Some 0) = Inr y)"
        unfolding b0_translation [OF assms(3) len] by auto
      with False outcome(1) show ?thesis by (simp only: if_False)
    qed
  qed
  with pipe_rounds_return [OF P' assms(2)] show ?thesis by blast
qed

text \<open>
  C13: the pipeline can always finish its work. From a well-formed state with at least one row, each with its context and its thread
  running, a scheduler that is neither closed nor terminated, the MIPS translator, vector functions that copy and clear as they are named, unfinished payloads that hold register instructions
  with a function the translator knows, and no range of the queue that is full from its first index to the end of that quad, there is
  a run without further pushes after which exactly the accepted payloads are finished.
\<close>

theorem pipeline_drains:
  assumes "pipe_at P q p qs pv vs" "env_ok E" "env_mips E" "unblocked q qs" "list_all id (pp_alive P)"
    and "sched_is_closed (pp_sched P) = 0" "sched_is_terminated (pp_sched P) = 0" "0 < sched_count (pp_sched P)"
    and "\<forall>v. Some v \<in> set (sched_rows (pp_sched P)) \<longrightarrow> stack_ir (vrow_stack v) \<noteq> None"
    and "\<forall>pl \<in># mset (pp_pushed P) - mset (pp_finished P). translates pl"
  shows "\<exists>P'. pipe_reach E P P' \<and> pp_pushed P' = pp_pushed P \<and> mset (pp_finished P') = mset (pp_pushed P)"
  using assms by (intro pipe_drains [OF assms(2,3)]) (simp add: pipe_live_def)

text \<open>
  C14: a row whose thread has ended swallows a payload. Nothing tells the scheduler that the thread of a row ended on an
  invalid opcode; its bit is off, so a round may hand it the next payload, which then stays unfinished in every later
  state.
\<close>

theorem pipeline_dead_row_swallows:
  assumes "pipe_at P q p qs pv vs" "env_ok E"
    and "sched_is_closed (pp_sched P) = 0" "sched_is_terminated (pp_sched P) = 0" "env_any E (presence q)"
    and "find (\<lambda>i. \<not> signaled vs i) [0..<unat (sched_count (pp_sched P))] = Some i" "\<not> pp_alive P ! i"
    and "unload_pick q qs = Some j"
  shows "\<exists>P1. pipe_step E P P1 \<and>
    (\<forall>P'. pipe_reach E P1 P' \<longrightarrow> bucket_at q j \<in># mset (pp_pushed P') - mset (pp_finished P'))"
proof -
  have ok: "sched_ok (pp_sched P) q (pp_heap P) p qs pv vs" and rows: "rows_at (pp_sched P) pv vs" using assms(1) by (simp_all add: pipe_at_def)
  from free_row_ready [OF rows assms(6)] obtain v where v: "i < unat (sched_count (pp_sched P))" "sched_rows (pp_sched P) ! i = Some v" "row_ready v"
    by metis
  have len: "length (bucket_at q j) = 64"
    using ok bucket_payload_at(2) [of q "pp_heap P" p qs j] queue_index(1) [OF ok top_prior_less unload_pick_mem(1) [OF assms(8)]]
    by (simp add: sched_ok_def)
  define w where "w = row_loaded v (bucket_at q j)"
  note w = row_loaded_bank [OF v(3) len, folded w_def]
  note moved = pipe_at_moved [OF assms(1-3,5,6,8) v(2), folded w_def]
  note step = pipe_round [where E = E, OF assms(4) moved(1)]
  show ?thesis
  proof (intro exI conjI allI impI)
    fix P' assume reach: "pipe_reach E (P\<lparr>pp_sched := (pp_sched P)\<lparr>sched_rows := (sched_rows (pp_sched P))[i := Some w],
        sched_queue := Some (q\<lparr>presence := (presence q)[top_prior q := presence q ! top_prior q - 1]\<rparr>)\<rparr>,
      pp_disp := [0, 0, 0, 0], pp_heap := (pp_heap P)(pv \<mapsto> set_sig vs i, p \<mapsto> clear_sig qs j)\<rparr>) P'"
    have "i < length (sched_rows (pp_sched P))" using v(1) ok by (simp add: sched_ok_def)
    then have "sched_count (pp_sched P') = sched_count (pp_sched P) \<and> \<not> pp_alive P' ! i \<and> sched_rows (pp_sched P') ! i = Some w"
      using dead_row_reach [OF reach moved(2) assms(2), of i w] v(1) assms(7) w(2) by simp
    moreover obtain q' qs' vs' where "pipe_at P' q' p qs' pv vs'" using pipe_at_reach [OF reach moved(2) assms(2)] by blast
    ultimately show "bucket_at q j \<in># mset (pp_pushed P') - mset (pp_finished P')"
      using held_unfinished [of P' q' p qs' pv vs' i w] v(1) w by simp
  qed (rule step)
qed

section \<open>A pipeline with one payload\<close>

text \<open>
  One row, whose thread runs or has ended, and one payload in the queue with a given instruction word. The translator is the one
  for MIPS.
\<close>

definition wit_bytes :: "u32 \<Rightarrow> u8 list" where
  "wit_bytes w = payload_bytes \<lparr>pl_state = 0, pl_priority = PRIOR_HIGH, pl_control = replicate 14 0,
     pl_data = le32_bytes (mte_arch_val MIPS32) @ le32_bytes w @ replicate 40 0\<rparr>"

definition wit_pipe_queue :: "u32 \<Rightarrow> bitpool_desc" where
  "wit_pipe_queue w = (wit_queue [0, 1, 0, 0])\<lparr>bucket_base := Some (replicate 3072 0 @ wit_bytes w @ replicate 960 0)\<rparr>"

definition wit_pipe_row :: vrow_desc where
  "wit_pipe_row = (wit_row 2)\<lparr>vrow_smap := \<lparr>ref_map = Some 9, quad_index = 0, byte_index = 0, bit_index = 0, ref_size = 1\<rparr>,
     vrow_stack := \<lparr>stack_ir = Some (wit_ir\<lparr>guest_to_ir := Some mips32_to_ir\<rparr>), curr_bank = 0\<rparr>\<rparr>"

definition wit_pipe :: "bool \<Rightarrow> u32 \<Rightarrow> pipeline" where
  "wit_pipe b w = \<lparr>pp_sched = (wit_sched [0, 1, 0, 0])\<lparr>sched_queue := Some (wit_pipe_queue w), sched_rows := [Some wit_pipe_row]\<rparr>,
     pp_disp = [0, 0, 0, 0], pp_heap = wit_sheap (set_sig [0] 48), pp_alive = [b], pp_pushed = [wit_bytes w], pp_finished = []\<rparr>"

definition wit_env :: pipe_env where
  "wit_env = \<lparr>env_any = some_used,
     env_platform = wit_platform\<lparr>instr_of_bytes := \<lambda>bs. \<lparr>raw_arch = MIPS32, payload = drop 4 bs\<rparr>\<rparr>,
     env_simd = \<lambda>n bs. bs, env_b0 = mips32_to_ir, env_b2 = wit_host\<rparr>"

lemma wit_env_ok: "env_ok wit_env" "env_mips wit_env"
  using wit_platform_ok by (simp_all add: env_ok_def env_mips_def wit_env_def simd_copies_def platform_ok_def)

lemma wit_bytes_length: "length (wit_bytes w) = 64"
  by (simp add: wit_bytes_def payload_bytes_def le32_bytes_def)

lemma wit_bytes_word: "payload_word (wit_bytes w) = w"
  using le32_le32_bytes [of w "replicate 40 0"] by (simp add: payload_word_def wit_bytes_def payload_bytes_def le32_bytes_def)

lemma wit_pipe_queue_simps [simp]:
  "presence (wit_pipe_queue w) = [0, 1, 0, 0]" "ranges (wit_pipe_queue w) = ranges (wit_queue [0, 1, 0, 0])"
  "bucket_count (wit_pipe_queue w) = bucket_count (wit_queue [0, 1, 0, 0])"
  "bucket_size (wit_pipe_queue w) = bucket_size (wit_queue [0, 1, 0, 0])"
  "qload (wit_pipe_queue w) = qload (wit_queue [0, 1, 0, 0])" "smap_desc (wit_pipe_queue w) = smap_desc (wit_queue [0, 1, 0, 0])"
  by (simp_all add: wit_pipe_queue_def wit_queue_def)

lemma wit_pipe_bucket: "bucket_at (wit_pipe_queue w) 48 = wit_bytes w"
  by (simp add: bucket_at_def chunk_def wit_pipe_queue_def wit_bytes_length) (simp add: wit_queue_def wit_bytes_length)

lemma wit_pipe_bits: "{k. k < 64 * length (set_sig [0] 48) \<and> signaled (set_sig [0] 48) k} = {48}"
  using wit_signaled by auto

lemma wit_pipe_row_facts: "row_ready wit_pipe_row" "row_at 9 [0] 0 wit_pipe_row"
  using wit_row_ready wit_row_facts(1,2) [of 2]
  by (simp_all add: wit_pipe_row_def row_ready_def row_at_def vrow_is_filled_def signaled_def)

lemma wit_pipe_ok: "sched_ok (pp_sched (wit_pipe b w)) (wit_pipe_queue w) (wit_sheap (set_sig [0] 48)) 7 (set_sig [0] 48) 9 [0]"
proof -
  have "sched_ok (wit_sched [0, 1, 0, 0]) (wit_queue [0, 1, 0, 0]) (wit_sheap (set_sig [0] 48)) 7 (set_sig [0] 48) 9 [0]"
    by (rule wit_sched_ok) simp_all
  moreover have "bucket_base (wit_pipe_queue w) = Some (replicate 3072 0 @ wit_bytes w @ replicate 960 0)"
    by (simp add: wit_pipe_queue_def)
  ultimately show ?thesis
    by (simp add: sched_ok_def pool_ok_def wit_pipe_def wit_bytes_length) (simp add: wit_queue_def wit_sched_def VROW_PAYLOAD_SIZE_def)
qed

lemma wit_pipe_counts: "counts_ok (wit_pipe_queue w) (set_sig [0] 48)"
  using wit_queue_counts by (simp add: counts_ok_def) (simp add: wit_queue_def)

lemma wit_pipe_at: "pipe_at (wit_pipe b w) (wit_pipe_queue w) 7 (set_sig [0] 48) 9 [0]"
proof -
  have cnt: "sched_count (wit_sched [0, 1, 0, 0]) = 1" by (simp add: wit_sched_def)
  have "queued (wit_pipe_queue w) (set_sig [0] 48) = {#wit_bytes w#}"
    unfolding queued_def wit_pipe_bits by (simp add: wit_pipe_bucket)
  moreover have "rows_held [Some wit_pipe_row] = {#}"
    using wit_pipe_row_facts(1) by (simp add: rows_held_def row_ready_def)
  moreover have "\<forall>i < 3. 0 < bit_disp (ranges (wit_pipe_queue w) ! i)" by (simp add: all_below_3) (simp add: wit_queue_def)
  ultimately show ?thesis
    using wit_pipe_ok [of b w] cnt wit_pipe_counts wit_pipe_row_facts(2)
    by (simp add: pipe_at_def) (simp add: wit_pipe_def rows_at_def)
qed

lemma wit_pipe_runs:
  "sched_is_closed (pp_sched (wit_pipe b w)) = 0" "sched_is_terminated (pp_sched (wit_pipe b w)) = 0"
  "0 < sched_count (pp_sched (wit_pipe b w))" "env_any wit_env (presence (wit_pipe_queue w))"
  "find (\<lambda>i. \<not> signaled [0] i) [0..<unat (sched_count (pp_sched (wit_pipe b w)))] = Some 0"
  by (simp_all add: wit_pipe_def wit_sched_def sched_is_closed_def sched_is_terminated_def wit_env_def)

lemma wit_pipe_pick: "unload_pick (wit_pipe_queue w) (set_sig [0] 48) = Some 48"
  using next_bucket_pick(2) [OF wit_next] by (simp add: unload_pick_def top_prior_def) (simp add: wit_queue_def)

text \<open>The state after the round that moves the payload to the row.\<close>

lemma wit_pipe_moved:
  obtains P' where "pipe_step wit_env (wit_pipe b w) P'" "pp_pushed P' = [wit_bytes w]" "pp_finished P' = []"
    "sched_rows (pp_sched P') = [Some (row_loaded wit_pipe_row (wit_bytes w))]"
proof -
  have row: "sched_rows (pp_sched (wit_pipe b w)) ! 0 = Some wit_pipe_row" by (simp add: wit_pipe_def)
  note moved = pipe_at_moved(1) [OF wit_pipe_at wit_env_ok(1) wit_pipe_runs(1,4,5) wit_pipe_pick row]
  show ?thesis
    by (rule that [OF pipe_round [where E = wit_env, OF wit_pipe_runs(2) moved]]) (simp_all add: wit_pipe_bucket, simp_all add: wit_pipe_def)
qed

theorem pipeline_conserves_witness:
  "\<exists>P' q' qs' vs'. pipe_step wit_env (wit_pipe True 0x012A4820) P' \<and> sched_ok (pp_sched P') q' (pp_heap P') 7 qs' 9 vs' \<and>
     queued q' qs' + rows_held (sched_rows (pp_sched P')) = {#wit_bytes 0x012A4820#}"
proof -
  obtain P' where P': "pipe_step wit_env (wit_pipe True 0x012A4820) P'" "pp_pushed P' = [wit_bytes 0x012A4820]" "pp_finished P' = []"
    by (rule wit_pipe_moved)
  from pipeline_conserves [OF wit_pipe_at wit_env_ok(1) r_into_rtranclp [where r = "pipe_step wit_env", OF P'(1)]]
  obtain q' qs' vs' where q': "sched_ok (pp_sched P') q' (pp_heap P') 7 qs' 9 vs'"
    "mset (pp_pushed P') = queued q' qs' + rows_held (sched_rows (pp_sched P')) + mset (pp_finished P')" by blast
  then have "queued q' qs' + rows_held (sched_rows (pp_sched P')) = {#wit_bytes 0x012A4820#}" by (simp add: P'(2,3))
  with P'(1) q'(1) show ?thesis by blast
qed

text \<open>The row is handed an addition, which it takes through its round, or a jump, on which its round stops the program.\<close>

lemma wit_pipe_loaded:
  "bank (row_loaded wit_pipe_row (wit_bytes w)) 0 = wit_bytes w" "vrow_is_filled (row_loaded wit_pipe_row (wit_bytes w)) 0 \<noteq> 0"
  "stack_ir (vrow_stack (row_loaded wit_pipe_row (wit_bytes w))) \<noteq> None"
  using row_loaded_bank [OF wit_pipe_row_facts(1) wit_bytes_length [of w]] by simp_all (simp add: row_loaded_def wit_pipe_row_def)

lemma wit_words:
  "mips32_get_instr_type 0x012A4820 = MIPS_R" "mips32_funct 0x012A4820 = 0x20" "mips32_get_instr_type 0x08000000 \<noteq> MIPS_R"
  by code_simp+

theorem pipeline_rounds_return_witness:
  "(\<exists>P' v x. pipe_step wit_env (wit_pipe True 0x012A4820) P' \<and> sched_rows (pp_sched P') = [Some v] \<and>
     bank v 0 = wit_bytes 0x012A4820 \<and>
     vrow_thread_round (env_platform wit_env) (Some mips32_to_ir) (Some wit_host) v (pp_heap P') = Inr x) \<and>
   (\<exists>P' v. pipe_step wit_env (wit_pipe True 0x08000000) P' \<and> sched_rows (pp_sched P') = [Some v] \<and>
     bank v 0 = wit_bytes 0x08000000 \<and>
     vrow_thread_round (env_platform wit_env) (Some mips32_to_ir) (Some wit_host) v (pp_heap P') = Inl Assert_Fail)"
proof (intro conjI)
  have env: "env_b0 wit_env = mips32_to_ir" "env_b2 wit_env = wit_host" by (simp_all add: wit_env_def)
  note outcome = pipeline_rounds_return [OF wit_pipe_at wit_env_ok r_into_rtranclp [where r = "pipe_step wit_env"],
    unfolded env, THEN conjunct2, rule_format]
  let ?v = "\<lambda>w. row_loaded wit_pipe_row (wit_bytes w)"
  obtain P1 where P1: "pipe_step wit_env (wit_pipe True 0x012A4820) P1" "sched_rows (pp_sched P1) = [Some (?v 0x012A4820)]"
    by (rule wit_pipe_moved)
  have "\<exists>x. vrow_thread_round (env_platform wit_env) (Some mips32_to_ir) (Some wit_host) (?v 0x012A4820) (pp_heap P1) = Inr x"
    using outcome [OF P1(1), of "?v 0x012A4820"] P1(2) wit_pipe_loaded by (simp add: wit_bytes_word wit_words)
  with P1 wit_pipe_loaded show "\<exists>P' v x. pipe_step wit_env (wit_pipe True 0x012A4820) P' \<and> sched_rows (pp_sched P') = [Some v] \<and>
     bank v 0 = wit_bytes 0x012A4820 \<and>
     vrow_thread_round (env_platform wit_env) (Some mips32_to_ir) (Some wit_host) v (pp_heap P') = Inr x" by blast
  obtain P2 where P2: "pipe_step wit_env (wit_pipe True 0x08000000) P2" "sched_rows (pp_sched P2) = [Some (?v 0x08000000)]"
    by (rule wit_pipe_moved)
  have "vrow_thread_round (env_platform wit_env) (Some mips32_to_ir) (Some wit_host) (?v 0x08000000) (pp_heap P2) = Inl Assert_Fail"
    using outcome [OF P2(1), of "?v 0x08000000"] P2(2) wit_pipe_loaded by (simp add: wit_bytes_word wit_words)
  with P2 wit_pipe_loaded show "\<exists>P' v. pipe_step wit_env (wit_pipe True 0x08000000) P' \<and> sched_rows (pp_sched P') = [Some v] \<and>
     bank v 0 = wit_bytes 0x08000000 \<and>
     vrow_thread_round (env_platform wit_env) (Some mips32_to_ir) (Some wit_host) v (pp_heap P') = Inl Assert_Fail" by blast
qed

theorem pipeline_drains_witness:
  "\<exists>P'. pipe_reach wit_env (wit_pipe True 0x012A4820) P' \<and> pp_finished P' = [wit_bytes 0x012A4820]"
proof -
  have "unblocked (wit_pipe_queue 0x012A4820) (set_sig [0] 48)"
    using wit_signaled [of 58] wit_signaled [of 49] wit_signaled [of 32] wit_signaled [of 0]
    unfolding unblocked_def all_below_4 wit_pipe_queue_simps
    by (intro conjI exI [of _ 58] exI [of _ 49] exI [of _ 32] exI [of _ 0]) (simp_all add: wit_queue_def)
  moreover have "list_all id (pp_alive (wit_pipe True 0x012A4820))" by (simp add: wit_pipe_def)
  moreover have "\<forall>v. Some v \<in> set (sched_rows (pp_sched (wit_pipe True 0x012A4820))) \<longrightarrow> stack_ir (vrow_stack v) \<noteq> None"
    by (simp add: wit_pipe_def wit_pipe_row_def)
  moreover have "translates (wit_bytes 0x012A4820)"
    by (simp add: translates_def wit_bytes_word wit_words MIPS32_TO_IR_TABLE_def) code_simp
  then have "\<forall>pl \<in># mset (pp_pushed (wit_pipe True 0x012A4820)) - mset (pp_finished (wit_pipe True 0x012A4820)). translates pl"
    by (simp add: wit_pipe_def)
  ultimately obtain P' where "pipe_reach wit_env (wit_pipe True 0x012A4820) P'"
    "mset (pp_finished P') = mset (pp_pushed (wit_pipe True 0x012A4820))"
    using pipeline_drains [OF wit_pipe_at wit_env_ok _ _ wit_pipe_runs(1-3)] by blast
  then show ?thesis by (auto simp: wit_pipe_def)
qed

theorem pipeline_dead_row_swallows_witness:
  "\<exists>P1. pipe_step wit_env (wit_pipe False 0x012A4820) P1 \<and>
    (\<forall>P'. pipe_reach wit_env P1 P' \<longrightarrow> wit_bytes 0x012A4820 \<in># mset (pp_pushed P') - mset (pp_finished P'))"
proof -
  have "\<not> pp_alive (wit_pipe False 0x012A4820) ! 0" by (simp add: wit_pipe_def)
  then show ?thesis
    using pipeline_dead_row_swallows [OF wit_pipe_at wit_env_ok(1) wit_pipe_runs(1,2,4,5) _ wit_pipe_pick] wit_pipe_bucket by metis
qed

end
