(* ===== verification/Block_Log.thy ===== *)
theory Block_Log
  imports Translate
begin

text \<open>
  The log of a block that the emission pass prints before it fails on an invalid instruction
  (\<^verbatim>\<open>ir/tblock/tblock_debug.h\<close>). What is printed is a list of lines, without the wording around the values.
\<close>

section \<open>Lines\<close>

datatype log_line =
    Log_Title string
  | Log_Liveness u8 "u8 list"
  | Log_State u8 asm_reg_state
  | Log_Assoc u8 u16

fun log_loop :: "(nat \<Rightarrow> log_line res) \<Rightarrow> nat list \<Rightarrow> log_line list res" where
  "log_loop f [] = Inr []"
| "log_loop f (i # is) = and_then (f i) (\<lambda>l. and_then (log_loop f is) (\<lambda>ls. Inr (l # ls)))"

lemma log_loop_ok:
  "(\<And>i. i \<in> set is \<Longrightarrow> f i = Inr (g i)) \<Longrightarrow> log_loop f is = Inr (map g is)"
  by (induction "is") simp_all

section \<open>The four logs\<close>

definition tblock_liveness_log :: "ir_context \<Rightarrow> tblock \<Rightarrow> log_line list res" where
  "tblock_liveness_log c block =
    and_then (deref (guest_map c)) (\<lambda>gm. log_loop (\<lambda>i.
      and_then (arr (reg_root gm) i) (\<lambda>r. and_then (arr (liveness block) (unat (reg_id r))) (\<lambda>l.
        Inr (Log_Liveness (reg_id r)
          (map (\<lambda>j. drop_bit j l AND 1) [0..<unat (tblock_frag_calc (tb_type block))])))))
      [0..<unat (reg_count gm)])"

definition tblock_state_log :: "cpu_reg_map option \<Rightarrow> tblock \<Rightarrow> log_line list res" where
  "tblock_state_log m block =
    and_then (deref m) (\<lambda>m. log_loop (\<lambda>i.
      and_then (arr (reg_root m) i) (\<lambda>r. and_then (arr (state block) (unat (reg_id r))) (\<lambda>s.
        Inr (Log_State (reg_id r) s))))
      [0..<unat (reg_count m)])"

definition tblock_assoc_log :: "ir_context \<Rightarrow> tblock \<Rightarrow> log_line list res" where
  "tblock_assoc_log c block =
    and_then (deref (host_map c)) (\<lambda>hm. log_loop (\<lambda>i.
      and_then (arr (reg_root hm) i) (\<lambda>r. and_then (arr (assoc block) (unat (reg_id r))) (\<lambda>a.
        Inr (Log_Assoc (reg_id r) (a_id a)))))
      [0..<unat (reg_count hm)])"

definition tblock_error_log :: "ir_context \<Rightarrow> tblock \<Rightarrow> log_line list res" where
  "tblock_error_log c block =
    and_then (tblock_liveness_log c block) (\<lambda>l1.
    and_then (tblock_state_log (guest_map c) block) (\<lambda>l2.
    and_then (tblock_state_log (host_map c) block) (\<lambda>l3.
    and_then (tblock_assoc_log c block) (\<lambda>l4.
      Inr (Log_Title ''Guest to Host liveness log:'' # l1 @ Log_Title ''Guest state log:'' # l2 @
        Log_Title ''Host state log:'' # l3 @ Log_Title ''Host association log:'' # l4)))))"

section \<open>What the log shows\<close>

text \<open>
  The log of a block under MIPS32 and Intel 64 never faults. The marks of the fragments from 8 on are 0, as a
  register has eight marks. The tables of states and associations are read at the numbers of both machines,
  although the states belong to host registers and the associations to guest registers: sixteen of the
  32 associations are shown.
\<close>

lemma tblock_error_log_lines:
  assumes "mips_i64 c" "block_shape b"
  shows "tblock_error_log c b = Inr
    (Log_Title ''Guest to Host liveness log:'' #
       map (\<lambda>g. Log_Liveness (of_nat g) (map (\<lambda>j. of_bool (j < 8 \<and> bit (liveness b ! g) j)) [0..<frag_bytes (tb_type b)])) [0..<32] @
     Log_Title ''Guest state log:'' # map (\<lambda>r. Log_State (of_nat r) (state b ! r)) [0..<32] @
     Log_Title ''Host state log:'' # map (\<lambda>r. Log_State (of_nat r) (state b ! r)) [0..<16] @
     Log_Title ''Host association log:'' # map (\<lambda>r. Log_Assoc (of_nat r) (a_id (assoc b ! r))) [0..<16])"
proof -
  have maps: "guest_map c = Some MIPS32_CPU_REG_MAP" "host_map c = Some I64_CPU_REG_MAP"
    using assms(1) by (simp_all add: mips_i64_def)
  have len: "length (liveness b) = IR_REG_LIMIT" "length (assoc b) = IR_REG_LIMIT" "length (state b) = IR_REG_LIMIT"
    using assms(2) by (simp_all add: block_shape_def)
  have cnt: "unat (reg_count MIPS32_CPU_REG_MAP) = 32" "unat (reg_count I64_CPU_REG_MAP) = 16" by code_simp+
  have nat: "unat (of_nat i :: u8) = i" if "i < 32" for i using that by (simp add: unat_of_nat)
  have ids: "reg_id (reg_root MIPS32_CPU_REG_MAP ! i) = of_nat i" if "i < 32" for i
    using that mips_reg_ids_wf nat [OF that] by (auto simp: reg_ids_wf_def list_all_iff intro: word_unat_eq_iff [THEN iffD2])
  have hids: "reg_id (reg_root I64_CPU_REG_MAP ! i) = of_nat i" if "i < 16" for i
    using that i64_reg_map_wf nat [of i] by (auto simp: reg_map_wf_def reg_ids_wf_def list_all_iff intro: word_unat_eq_iff [THEN iffD2])
  have mark: "drop_bit j l AND 1 = of_bool (j < 8 \<and> bit l j)" for j and l :: u8
    by (auto simp: and_one_eq mod_2_eq_odd simp flip: bit_iff_odd_drop_bit dest: bit_imp_le_length)
  have frag: "unat (tblock_frag_calc (tb_type b)) = frag_bytes (tb_type b)"
    by (cases "tb_type b") (simp_all add: tblock_frag_calc_def frag_bytes_def block_bytes_def TBLOCK_SIZE_def SIZEOF_IR_RAW_INSTR_def)
  have l1: "tblock_liveness_log c b = Inr (map (\<lambda>g. Log_Liveness (of_nat g)
      (map (\<lambda>j. of_bool (j < 8 \<and> bit (liveness b ! g) j)) [0..<frag_bytes (tb_type b)])) [0..<32])"
    unfolding tblock_liveness_log_def maps deref_simps and_then_simps cnt frag mark
    by (rule log_loop_ok) (simp add: ids nat len IR_REG_LIMIT_def)
  have l2: "tblock_state_log (guest_map c) b = Inr (map (\<lambda>r. Log_State (of_nat r) (state b ! r)) [0..<32])"
    unfolding tblock_state_log_def maps deref_simps and_then_simps cnt
    by (rule log_loop_ok) (simp add: ids nat len IR_REG_LIMIT_def)
  have l3: "tblock_state_log (host_map c) b = Inr (map (\<lambda>r. Log_State (of_nat r) (state b ! r)) [0..<16])"
    unfolding tblock_state_log_def maps deref_simps and_then_simps cnt
    by (rule log_loop_ok) (simp add: hids nat len IR_REG_LIMIT_def)
  have l4: "tblock_assoc_log c b = Inr (map (\<lambda>r. Log_Assoc (of_nat r) (a_id (assoc b ! r))) [0..<16])"
    unfolding tblock_assoc_log_def maps deref_simps and_then_simps cnt
    by (rule log_loop_ok) (simp add: hids nat len IR_REG_LIMIT_def)
  show ?thesis unfolding tblock_error_log_def l1 l2 l3 l4 by simp
qed

end
