(* ===== verification/I64_Decode.thy ===== *)
theory I64_Decode
  imports I64_Encode I64_Tables
begin

text \<open>
  The Intel 64 instruction decoder of \<^verbatim>\<open>asm/intel/instr/i64_instr.h\<close>. The sources keep it disabled with
  \<^verbatim>\<open>#if 0\<close>; the tables it reads are compiled and loaded. It takes an instruction of up to sixteen bytes apart
  into prefix, opcode, ModRM, SIB, displacement and immediate. The tables it reaches through
  \<^verbatim>\<open>modrm_tables\<close> and \<^verbatim>\<open>immd_tables\<close>, which the sources no longer declare, and the macro \<^verbatim>\<open>n_mask\<close> of the utility
  library are the environment of the definitions.
\<close>

section \<open>Data\<close>

text \<open>A raw instruction is its vector of bytes; a subscript outside the vector is a fault.\<close>

type_synonym i64_mte_raw_instr = "u8 list"

record decode_env =
  quick :: qtables
  modrm_tables :: modrm_tables_root
  immd_tables :: immd_tables_root
  n_mask :: "nat \<Rightarrow> u64"

record i64_opcode_info =
  info_x :: bool
  info_r :: bool
  info_l :: bool
  info_e :: bool

text \<open>The structure \<^verbatim>\<open>i64_opcode\<close>; the name is that of the enumeration of opcodes.\<close>

record i64_opcode_im =
  op_val :: u32
  op_info :: i64_opcode_info
  op_legacy :: u8
  op_rex :: u8
  op_len :: u8

record i64_sib =
  index_ext :: u8
  sib_index_of :: u8
  base_ext :: u8
  sib_base_of :: u8
  sib_val :: u8

definition i64_sib_zero :: i64_sib where
  "i64_sib_zero = \<lparr>index_ext = 0, sib_index_of = 0, base_ext = 0, sib_base_of = 0, sib_val = 0\<rparr>"

section \<open>Fields of bytes\<close>

definition rex_w :: "u8 \<Rightarrow> bool" where "rex_w r \<longleftrightarrow> r AND BIT 3 \<noteq> 0"
definition rex_r :: "u8 \<Rightarrow> bool" where "rex_r r \<longleftrightarrow> r AND BIT 2 \<noteq> 0"
definition rex_x :: "u8 \<Rightarrow> bool" where "rex_x r \<longleftrightarrow> r AND BIT 1 \<noteq> 0"
definition rex_b :: "u8 \<Rightarrow> bool" where "rex_b r \<longleftrightarrow> r AND 1 \<noteq> 0"

definition i64_modrm_mod :: "u8 \<Rightarrow> u8" where "i64_modrm_mod m = drop_bit 6 m"
definition i64_modrm_reg :: "u8 \<Rightarrow> u8" where "i64_modrm_reg m = drop_bit 3 m AND 7"
definition i64_modrm_rm :: "u8 \<Rightarrow> u8" where "i64_modrm_rm m = m AND 7"

definition sib_scale :: "u8 \<Rightarrow> u8" where "sib_scale m = drop_bit 6 m"
definition sib_index :: "u8 \<Rightarrow> u8" where "sib_index m = drop_bit 3 m AND 7"
definition sib_base :: "u8 \<Rightarrow> u8" where "sib_base m = m AND 7"

section \<open>Prefixes and opcode\<close>

definition i64_legacy_ext :: "qtables \<Rightarrow> i64_mte_raw_instr \<Rightarrow> bool res" where
  "i64_legacy_ext q instr = and_then (arr instr 0) (\<lambda>b. arr (LEG_PREF_EXT_LOOKUP q) (unat b))"

definition i64_get_legacy :: "qtables \<Rightarrow> i64_mte_raw_instr \<Rightarrow> u8 res" where
  "i64_get_legacy q instr = and_then (arr instr 0) (\<lambda>b. arr (LEG_PREF_LOOKUP q) (unat b))"

definition i64_get_rex :: "bool \<Rightarrow> i64_mte_raw_instr \<Rightarrow> u8 res" where
  "i64_get_rex is_legacy instr =
    and_then (arr instr (of_bool is_legacy)) (\<lambda>b.
      Inr (if (b XOR 0x4f) AND NOT 0x0f \<noteq> 0 then 0 else b))"

definition i64_opcode_len :: "bool \<Rightarrow> bool \<Rightarrow> i64_mte_raw_instr \<Rightarrow> u8 res" where
  "i64_opcode_len is_legacy is_rex instr =
    and_then (arr instr (of_bool is_legacy + of_bool is_rex)) (\<lambda>b0.
    and_then (arr instr (of_bool is_legacy + of_bool is_rex + 1)) (\<lambda>b1.
      let ext = (b0 = 0x0f) in
      Inr (if b1 = 0x38 \<or> b1 = 0x3a then 2 + of_bool is_legacy + of_bool ext
           else 1 + of_bool is_legacy + of_bool ext)))"

text \<open>A load of four bytes at an offset into the instruction.\<close>

definition instr_u32 :: "i64_mte_raw_instr \<Rightarrow> nat \<Rightarrow> u32 res" where
  "instr_u32 instr i = and_then (buf_read instr i 4) (\<lambda>bs. Inr (le32 bs))"

definition i64_get_opcode :: "decode_env \<Rightarrow> i64_mte_raw_instr \<Rightarrow> i64_opcode_im res" where
  "i64_get_opcode env instr =
    and_then (i64_get_legacy (quick env) instr) (\<lambda>legacy.
    and_then (i64_get_rex (legacy \<noteq> 0) instr) (\<lambda>rex.
    and_then (arr instr (of_bool (legacy \<noteq> 0) + of_bool (rex \<noteq> 0))) (\<lambda>b0.
    and_then (i64_legacy_ext (quick env) instr) (\<lambda>e.
      let info = \<lparr>info_x = (b0 XOR 0x0f = 0), info_r = (rex \<noteq> 0), info_l = (legacy \<noteq> 0), info_e = e\<rparr> in
    and_then (i64_opcode_len (info_l info) (info_r info) instr) (\<lambda>opcode_len.
      let msk = n_mask env (unat opcode_len) in
      if info_r info \<and> info_e info then
        and_then (instr_u32 instr 1) (\<lambda>w.
          Inr \<lparr>op_val = ucast ((ucast w AND (msk AND NOT 0xff)) OR ucast legacy), op_info = info,
               op_legacy = legacy, op_rex = rex, op_len = opcode_len\<rparr>)
      else
        and_then (instr_u32 instr (of_bool (info_r info))) (\<lambda>w.
          Inr \<lparr>op_val = ucast (ucast w AND msk), op_info = info,
               op_legacy = legacy, op_rex = rex, op_len = opcode_len\<rparr>))))))"

section \<open>ModRM and SIB\<close>

definition i64_modrm_check :: "decode_env \<Rightarrow> i64_opcode_im \<Rightarrow> bool" where
  "i64_modrm_check env oc =
    (if op_len oc = 4 then True
     else if op_len oc = 1 then
       I64_MODRM_VTB (modrm_l0_mask (modrm_tables env)) (unat (op_val oc AND 0xff)) \<noteq> 0
     else if op_len oc = 2 then
       I64_MODRM_VTB (modrm_l1_mask (modrm_tables env)) (unat (drop_bit 8 (op_val oc) AND 0xff)) \<noteq> 0
     else
       I64_MODRM_VTB (L2M_MASK_LOOKUP (quick env) ! unat (op_val oc AND 7))
         (unat (drop_bit 16 (op_val oc) AND 0xff)) \<noteq> 0)"

definition i64_get_modrm :: "decode_env \<Rightarrow> i64_opcode_im \<Rightarrow> i64_mte_raw_instr \<Rightarrow> u8 res" where
  "i64_get_modrm env oc instr =
    (if \<not> i64_modrm_check env oc then Inr 0
     else arr instr (unat (op_len oc) + of_bool (info_r (op_info oc))))"

definition i64_sib_ext :: "u8 \<Rightarrow> bool" where
  "i64_sib_ext modrm \<longleftrightarrow> i64_modrm_rm modrm = 4"

definition i64_get_sib :: "i64_opcode_im \<Rightarrow> u8 \<Rightarrow> i64_mte_raw_instr \<Rightarrow> i64_sib res" where
  "i64_get_sib oc modrm instr =
    (if \<not> i64_sib_ext modrm \<or> i64_modrm_mod modrm = 3 then Inr i64_sib_zero
     else and_then (arr instr (unat (op_len oc) + of_bool (info_r (op_info oc)) + 1)) (\<lambda>sib.
       Inr \<lparr>index_ext = of_bool (rex_x (op_rex oc)), sib_index_of = sib_index sib,
            base_ext = of_bool (rex_b (op_rex oc)), sib_base_of = sib_base sib, sib_val = sib\<rparr>))"

section \<open>Displacement\<close>

definition i64_get_disp_sib :: "u8 \<Rightarrow> u8 \<Rightarrow> i64_mte_raw_instr \<Rightarrow> u32 res" where
  "i64_get_disp_sib si modrm instr =
    (if i64_modrm_mod modrm = 3 \<or> i64_modrm_rm modrm \<noteq> 4 then Inr 0
     else and_then (arr instr (unat si)) (\<lambda>sib.
       if i64_modrm_mod modrm = 0 then
         (if sib_base sib = 5 then instr_u32 instr (unat si + 1) else Inr 0)
       else if i64_modrm_mod modrm = 1 then and_then (arr instr (unat si + 1)) (\<lambda>b. Inr (ucast b))
       else if i64_modrm_mod modrm = 2 then instr_u32 instr (unat si + 1)
       else Inr 0))"

definition i64_disp_len :: "qtables \<Rightarrow> u8 \<Rightarrow> u8 res" where
  "i64_disp_len q modrm =
    (if i64_modrm_mod modrm = 3 \<or> i64_modrm_rm modrm \<noteq> 4 then Inr 0
     else arr (MOD_DLEN_LOOKUP q) (unat (i64_modrm_mod modrm)))"

definition i64_get_disp :: "i64_opcode_im \<Rightarrow> u8 \<Rightarrow> i64_mte_raw_instr \<Rightarrow> u32 res" where
  "i64_get_disp oc modrm instr =
    (if i64_modrm_mod modrm = 3 then Inr 0
     else
      (let modrm_i = op_len oc + of_bool (info_r (op_info oc)) in
       if i64_modrm_rm modrm = 4 then i64_get_disp_sib (modrm_i + 1) modrm instr
       else if i64_modrm_mod modrm = 0 then
         (if i64_modrm_rm modrm = 5 then instr_u32 instr (unat modrm_i + 1) else Inr 0)
       else if i64_modrm_mod modrm = 1 then and_then (arr instr (unat modrm_i + 1)) (\<lambda>b. Inr (ucast b))
       else if i64_modrm_mod modrm = 2 then instr_u32 instr (unat modrm_i + 1)
       else Inr 0))"

section \<open>Immediate\<close>

text \<open>The length a submask gives when its mode bits, all of them, are those of the ModRM \<open>reg\<close> field.\<close>

definition submask_len :: "qtables \<Rightarrow> u8 \<Rightarrow> u8 \<Rightarrow> u8" where
  "submask_len q modrm sub =
    (if drop_bit (if sub AND 1 \<noteq> 0 then 1 else 4) sub = REG_TO_IMMD_SUBMASK (unat (i64_modrm_reg modrm))
     then SUBMASK_TO_LEN q sub else 0)"

text \<open>The subtraction is done on \<^verbatim>\<open>int\<close>: a smaller opcode byte is a subscript before the array.\<close>

definition submask_at :: "u8 list \<Rightarrow> u8 \<Rightarrow> u8 res" where
  "submask_at m b = (if b < 0x7f then Inl Out_Of_Bounds else arr m (unat b - 0x7f))"

definition i64_immd_len :: "decode_env \<Rightarrow> i64_opcode_im \<Rightarrow> u8 \<Rightarrow> u8 res" where
  "i64_immd_len env oc modrm =
    (let q = quick env; op0 = (ucast (op_val oc AND 0xff) :: u8) in
     if op_len oc = 1 then
      (let r = (ucast (I64_IMMD_VTB (immd_l0_mask (immd_tables env)) (unat op0)) :: u8) in
       if r = 3 \<and> 0x7f \<le> op0 then
         and_then (submask_at (immd_l0_submask (immd_tables env)) op0) (\<lambda>sub. Inr (submask_len q modrm sub))
       else Inr (MASK_TO_LEN q (ucast r)))
     else
      (let opi = (ucast (drop_bit ((unat (op_len oc) - 1) * 8) (op_val oc) AND 0xff) :: u8);
           r = (ucast (I64_IMMD_VTB (L2I_MASK_LOOKUP q ! unat (op0 AND 7)) (unat opi)) :: u8) in
       if r = 3 \<and> 0x3f \<le> opi then
         and_then (submask_at (L2I_SUBMASK_LOOKUP q ! unat (op0 AND 7)) opi) (\<lambda>sub. Inr (submask_len q modrm sub))
       else Inr (MASK_TO_LEN q (ucast r))))"

definition i64_get_immd :: "decode_env \<Rightarrow> i64_opcode_im \<Rightarrow> u8 \<Rightarrow> i64_mte_raw_instr \<Rightarrow> u64 res" where
  "i64_get_immd env oc modrm instr =
    and_then (i64_immd_len env oc modrm) (\<lambda>len.
    and_then (i64_disp_len (quick env) modrm) (\<lambda>dlen.
      let info = op_info oc;
          immd_i = of_bool (info_r info) + of_bool (info_l info \<and> \<not> info_e info) + op_len oc
            + of_bool (i64_sib_ext modrm) + dlen;
          immd_i = immd_i + of_bool (modrm \<noteq> 0)
      in and_then (fold_res (\<lambda>i buf. and_then (arr instr (unat immd_i + i)) (\<lambda>b. arr_set buf i b))
           [0..<unat len] (replicate 8 0)) (\<lambda>buf. Inr (le_word buf))))"

section \<open>The environment\<close>

text \<open>The tables the sources define, after loading.\<close>

definition i64_env :: "(nat \<Rightarrow> u64) \<Rightarrow> decode_env" where
  "i64_env nm = \<lparr>quick = i64_load_qtables qtables_init, modrm_tables = MODRM_TABLES, immd_tables = IMMD_TABLES, n_mask = nm\<rparr>"

lemma i64_env_simps [simp]:
  "quick (i64_env nm) = i64_load_qtables qtables_init" "modrm_tables (i64_env nm) = MODRM_TABLES"
  "immd_tables (i64_env nm) = IMMD_TABLES" "n_mask (i64_env nm) = nm"
  by (simp_all add: i64_env_def)

lemma LEG_PREF_EXT_LOOKUP_nth:
  "b < 255 \<Longrightarrow> LEG_PREF_EXT_LOOKUP (i64_load_qtables qtables_init) ! b \<longleftrightarrow> b \<in> {0x66, 0xf2, 0xf3}"
  by (auto simp: i64_load_qtables_def qtables_init_def Let_def nth_list_update)

lemma LEG_PREF_lengths [simp]:
  "length (LEG_PREF_LOOKUP (i64_load_qtables qtables_init)) = 255"
  "length (LEG_PREF_EXT_LOOKUP (i64_load_qtables qtables_init)) = 255"
  by (simp_all add: i64_load_qtables_def qtables_init_def Let_def)

lemma MOD_DLEN_eval: "MOD_DLEN_LOOKUP (i64_load_qtables qtables_init) = [4, 1, 4, 0]"
  by (simp add: i64_load_qtables_def qtables_init_def Let_def eval_nat_numeral)

section \<open>Instructions with a REX prefix\<close>

lemma byte_low:
  fixes b :: u8
  obtains n where "n < 2 ^ k" "b AND mask k = of_nat n"
proof (rule that)
  have "b AND mask k = take_bit k (of_nat (unat b))" by (simp add: take_bit_eq_mask)
  also have "\<dots> = of_nat (take_bit k (unat b))" by (rule take_bit_of_nat)
  finally show "b AND mask k = of_nat (take_bit k (unat b))" .
qed simp

lemma byte_and_255: "(b :: u8) AND 0xff = b"
proof -
  have "(0xff :: u8) = -1" by simp
  then show ?thesis by (simp only: and.right_neutral)
qed

lemma x86_alu_bytes:
  assumes "x86_alu_of b = Some alu"
  shows "b \<in> {0x00, 0x01, 0x02, 0x03, 0x08, 0x09, 0x0a, 0x0b, 0x20, 0x21, 0x22, 0x23, 0x28, 0x29, 0x2a, 0x2b,
    0x88, 0x89, 0x8a, 0x8b}"
proof -
  obtain n where n: "n < 4" "b AND 3 = of_nat n"
    by (rule byte_low [of 2 b]) (simp add: mask_eq_exp_minus_1)
  have "b AND 0xfc OR b AND 3 = b" by (simp add: byte_and_255 flip: bit.conj_disj_distrib)
  moreover have "b AND 0xfc \<in> {0x00, 0x08, 0x20, 0x28, 0x88}"
    using assms by (auto simp: x86_alu_of_def split: if_splits)
  moreover have "n = 0 \<or> n = 1 \<or> n = 2 \<or> n = 3" using n(1) by arith
  ultimately show ?thesis using n(2) by auto
qed

lemma rex_bytes:
  assumes "(b :: u8) AND 0xf0 = 0x40"
  shows "b \<in> {0x40, 0x41, 0x42, 0x43, 0x44, 0x45, 0x46, 0x47, 0x48, 0x49, 0x4a, 0x4b, 0x4c, 0x4d, 0x4e, 0x4f}"
proof -
  obtain n where n: "n < 16" "b AND 0x0f = of_nat n"
    by (rule byte_low [of 4 b]) (simp add: mask_eq_exp_minus_1)
  have "b AND 0xf0 OR b AND 0x0f = b" by (simp add: byte_and_255 flip: bit.conj_disj_distrib)
  moreover have "\<forall>n < 16. (0x40 OR of_nat n :: u8) \<in>
      {0x40, 0x41, 0x42, 0x43, 0x44, 0x45, 0x46, 0x47, 0x48, 0x49, 0x4a, 0x4b, 0x4c, 0x4d, 0x4e, 0x4f}"
    unfolding all_less_16 by simp
  ultimately show ?thesis using n assms by metis
qed

text \<open>The tables of prefixes at such a byte, and the tables of ModRM bytes and immediates at the opcodes.\<close>

lemma rex_tables:
  assumes "(b :: u8) AND 0xf0 = 0x40"
  shows "(b XOR 0x4f) AND NOT 0x0f = 0" "b \<noteq> 0" "unat b < 255"
    "LEG_PREF_LOOKUP (i64_load_qtables qtables_init) ! unat b = 0"
    "\<not> LEG_PREF_EXT_LOOKUP (i64_load_qtables qtables_init) ! unat b"
proof -
  note bs = rex_bytes [OF assms]
  from bs show "(b XOR 0x4f) AND NOT 0x0f = 0" "b \<noteq> 0" "unat b < 255" by auto
  from bs show "LEG_PREF_LOOKUP (i64_load_qtables qtables_init) ! unat b = 0"
    by (auto simp: LEG_PREF_LOOKUP_nth)
  from bs show "\<not> LEG_PREF_EXT_LOOKUP (i64_load_qtables qtables_init) ! unat b"
    by (auto simp: LEG_PREF_EXT_LOOKUP_nth)
qed

lemma alu_tables:
  assumes "x86_alu_of b = Some alu"
  shows "I64_MODRM_VTB (modrm_l0_mask MODRM_TABLES) (unat b) = 1"
    "I64_IMMD_VTB (immd_l0_mask IMMD_TABLES) (unat b) = 0" "b \<noteq> 0x0f"
  using x86_alu_bytes [OF assms] by (auto simp: I64_MODRM_VTB_def I64_IMMD_VTB_def IMMD_masks)

lemma le32_low:
  "ucast (ucast (le32 (a # b # c # d # bs)) AND mask 8 :: u64) = (ucast a :: u32)"
  "ucast (ucast (le32 (a # b # c # d # bs)) AND mask 16 :: u64) = (ucast a OR push_bit 8 (ucast b) :: u32)"
  by (rule bit_word_eqI; auto simp: le32_def bit_simps dest: bit_imp_le_length)+

text \<open>The opcode the decoder reads behind a REX prefix.\<close>

definition rex_opcode :: "u8 \<Rightarrow> u32 \<Rightarrow> u8 \<Rightarrow> i64_opcode_im" where
  "rex_opcode rex v len =
    \<lparr>op_val = v, op_info = \<lparr>info_x = False, info_r = True, info_l = False, info_e = False\<rparr>,
     op_legacy = 0, op_rex = rex, op_len = len\<rparr>"

lemma rex_opcode_simps [simp]:
  "op_val (rex_opcode rex v l) = v" "op_len (rex_opcode rex v l) = l" "op_rex (rex_opcode rex v l) = rex"
  "op_info (rex_opcode rex v l) = \<lparr>info_x = False, info_r = True, info_l = False, info_e = False\<rparr>"
  by (simp_all add: rex_opcode_def)

lemma i64_get_opcode_rex:
  assumes "rex AND 0xf0 = 0x40" "opc \<noteq> 0x0f" "3 \<le> length r"
  shows "i64_get_opcode (i64_env nm) (rex # opc # m # r) =
    Inr (let len = (if m = 0x38 \<or> m = 0x3a then 2 else 1)
         in rex_opcode rex (ucast (ucast (le32 (opc # m # r)) AND nm (unat len))) len)"
proof -
  note t = rex_tables [OF assms(1)]
  have read: "instr_u32 (rex # opc # n # r) (Suc 0) = Inr (le32 (opc # n # r))" for n
    using assms(3) by (simp add: instr_u32_def buf_read_def le32_def)
  have "opc XOR 0x0f \<noteq> 0"
  proof
    assume "opc XOR 0x0f = 0"
    then have "(opc XOR 0x0f) XOR 0x0f = 0 XOR 0x0f" by (rule arg_cong)
    with assms(2) show False by (simp add: xor.assoc del: bit.xor_left_self)
  qed
  with t assms(2) show ?thesis
    unfolding i64_get_opcode_def
    by (simp add: i64_get_legacy_def i64_get_rex_def i64_legacy_ext_def i64_opcode_len_def read rex_opcode_def)
qed

lemma modrm_fields_eq:
  "modrm_mod m = unat (i64_modrm_mod m)" "modrm_reg m = unat (i64_modrm_reg m)" "modrm_rm m = unat (i64_modrm_rm m)"
  "modrm_mod m = unat (sib_scale m)" "modrm_reg m = unat (sib_index m)" "modrm_rm m = unat (sib_base m)"
  by (simp_all add: modrm_mod_def modrm_reg_def modrm_rm_def i64_modrm_mod_def i64_modrm_reg_def i64_modrm_rm_def
      sib_scale_def sib_index_def sib_base_def)

lemma rex_fields_eq:
  "rex_ext r 2 = (if rex_r r then 8 else 0)" "rex_ext r 1 = (if rex_x r then 8 else 0)"
  "rex_ext r 0 = (if rex_b r then 8 else 0)" "bit r 3 \<longleftrightarrow> rex_w r"
  using and_BIT_eq_0_iff [of r 0] by (simp_all add: rex_ext_def rex_r_def rex_x_def rex_b_def rex_w_def BIT_def [of 0])

text \<open>
  The operand the parts describe, with nothing added to them: a register or a base and index, each with its
  extension bit of the REX prefix, and the displacement as the decoder returns it. The form relative to the
  instruction pointer is outside the reference.
\<close>

definition decoded_rm :: "u8 \<Rightarrow> u8 \<Rightarrow> i64_sib \<Rightarrow> u32 \<Rightarrow> x86_rm option" where
  "decoded_rm rex m sib dv =
    (let reg = unat (i64_modrm_rm m) + (if rex_b rex then 8 else 0)
     in if i64_modrm_mod m = 3 then Some (XReg reg)
        else if i64_modrm_rm m = 4 then
          (let index = unat (sib_index_of sib) + 8 * unat (index_ext sib)
           in Some (XMem
             (if i64_modrm_mod m = 0 \<and> sib_base_of sib = 5 then None
              else Some (unat (sib_base_of sib) + 8 * unat (base_ext sib)))
             (if index = 4 then None else Some (index, unat (sib_scale (sib_val sib)))) dv False))
        else if i64_modrm_mod m = 0 \<and> i64_modrm_rm m = 5 then None
        else Some (XMem (Some reg) None dv False))"

text \<open>Where the displacement has one byte, the byte and whether it is negative.\<close>

definition disp8_of :: "u8 \<Rightarrow> u8 list \<Rightarrow> u8" where
  "disp8_of m r = (if i64_modrm_rm m = 4 then r ! 1 else r ! 0)"

definition negative_disp8 :: "u8 \<Rightarrow> u8 list \<Rightarrow> bool" where
  "negative_disp8 m r \<longleftrightarrow> i64_modrm_mod m = 1 \<and> 0x80 \<le> disp8_of m r"

lemma scast_disp8: "scast b = (if 0x80 \<le> b then ucast b - 0x100 else ucast b :: u32)" for b :: u8
proof -
  have lt: "uint b < 256" using unsigned_less [of b] by simp
  have ge: "0 \<le> uint b" by simp
  have odd: "odd (u div 128) \<longleftrightarrow> 128 \<le> u" if "0 \<le> u" "u < 256" for u :: int
    using that by presburger
  have "bit (uint b) 7 \<longleftrightarrow> 0x80 \<le> uint b"
    using odd [OF ge lt] by (simp add: bit_iff_odd)
  then have s: "sint b = uint b - (if 0x80 \<le> b then 0x100 else 0)"
    using lt by (simp add: sint_uint signed_take_bit_eq_take_bit_minus take_bit_int_eq_self word_le_def)
  have "scast b = (of_int (sint b) :: u32)" by (rule of_int_sint [symmetric])
  then show ?thesis unfolding s by simp
qed

lemma decoded_rm_disp:
  "i64_modrm_mod m = 1 \<Longrightarrow> decoded_rm rex m sib d = decoded_rm rex m sib d' \<longleftrightarrow> d = d'"
  by (simp add: decoded_rm_def Let_def)

lemma modrm_mod_cases: "i64_modrm_mod m \<in> {0, 1, 2, 3}"
proof -
  have "unat m < 2 ^ LENGTH(8)" by (rule unsigned_less)
  then have "unat (i64_modrm_mod m) < 4"
    unfolding i64_modrm_mod_def unat_drop_bit_eq by (simp add: drop_bit_eq_div less_mult_imp_div_less)
  then have "unat (i64_modrm_mod m) \<in> {0, 1, 2, 3}" by (simp only: insert_iff empty_iff) arith
  then show ?thesis by (auto simp: word_unat_eq_iff)
qed

lemma x86_decode_rex_op:
  assumes "rex AND 0xf0 = 0x40" "x86_alu_of opc = Some alu"
  shows "map_option fst (x86_decode (rex # opc # m # r)) =
    map_option (\<lambda>rm. \<lparr>x_alu = alu, x_size = (if \<not> bit opc 0 then 8 else if rex_w rex then 64 else 32),
        x_to_rm = (\<not> bit opc 1), x_reg = unat (i64_modrm_reg m) + (if rex_r rex then 8 else 0), x_rm = rm\<rparr>)
      (map_option fst (x86_decode_rm False rex m r))"
proof -
  have "rex \<noteq> 0x66" "rex \<noteq> 0x67" using rex_bytes [OF assms(1)] by auto
  with assms show ?thesis
    by (simp add: x86_decode_def x86_decode_rex_def x86_decode_op_def rex_fields_eq modrm_fields_eq option.map_comp o_def
        split: option.splits)
qed

lemma instr_u32_cons: "4 \<le> length r \<Longrightarrow> instr_u32 (a # b # c # r) 3 = Inr (le32 r)"
  and instr_u32_cons2: "4 \<le> length r \<Longrightarrow> instr_u32 (a # b # c # d # r) 4 = Inr (le32 r)"
  by (simp_all add: instr_u32_def buf_read_def le32_def eval_nat_numeral nth_append)

lemma ucast_byte: "ucast (ucast (b :: u8) :: u32) = b"
  by (rule bit_word_eqI) (simp add: bit_simps)

lemma field_iff:
  "modrm_mod m = 0 \<longleftrightarrow> i64_modrm_mod m = 0" "modrm_mod m = 1 \<longleftrightarrow> i64_modrm_mod m = 1"
  "modrm_mod m = 3 \<longleftrightarrow> i64_modrm_mod m = 3" "modrm_rm m = 4 \<longleftrightarrow> i64_modrm_rm m = 4"
  "modrm_rm m = 5 \<longleftrightarrow> i64_modrm_rm m = 5" "modrm_rm m = 5 \<longleftrightarrow> sib_base m = 5"
  by (simp_all add: modrm_fields_eq word_unat_eq_iff sib_base_def i64_modrm_rm_def)

text \<open>Behind a one-byte opcode the parts are those the reference decoder reads.\<close>

lemma i64_parts_mod3:
  assumes "i64_modrm_mod m = 3"
  shows "i64_get_sib oc m instr = Inr i64_sib_zero" "i64_get_disp oc m instr = Inr 0"
    "x86_decode_rm False rex m r = Some (XReg (unat (i64_modrm_rm m) + (if rex_b rex then 8 else 0)), r)"
  using assms by (simp_all add: i64_get_sib_def i64_get_disp_def x86_decode_rm_def field_iff rex_fields_eq modrm_fields_eq(3))

lemma i64_parts_plain:
  assumes "i64_modrm_rm m \<noteq> 4" "i64_modrm_mod m \<noteq> 3" "length r = 13"
  shows "i64_get_sib oc m instr = Inr i64_sib_zero"
    "i64_get_disp (rex_opcode rex v 1) m (rex # opc # m # r) =
      Inr (if i64_modrm_mod m = 1 then ucast (hd r)
           else if i64_modrm_mod m = 2 \<or> i64_modrm_rm m = 5 then le32 r else 0)"
    "map_option fst (x86_decode_rm False rex m r) =
      (if i64_modrm_mod m = 0 \<and> i64_modrm_rm m = 5 then None
       else Some (XMem (Some (unat (i64_modrm_rm m) + (if rex_b rex then 8 else 0))) None
         (if i64_modrm_mod m = 0 then 0 else if i64_modrm_mod m = 1 then scast (hd r) else le32 r) False))"
proof -
  from assms(3) obtain s r' where r: "r = s # r'" "length r' = 12" by (cases r) auto
  show "i64_get_sib oc m instr = Inr i64_sib_zero" using assms by (simp add: i64_get_sib_def i64_sib_ext_def)
  show "i64_get_disp (rex_opcode rex v 1) m (rex # opc # m # r) =
      Inr (if i64_modrm_mod m = 1 then ucast (hd r)
           else if i64_modrm_mod m = 2 \<or> i64_modrm_rm m = 5 then le32 r else 0)"
    using assms modrm_mod_cases [of m] r by (auto simp: i64_get_disp_def instr_u32_cons)
  show "map_option fst (x86_decode_rm False rex m r) =
      (if i64_modrm_mod m = 0 \<and> i64_modrm_rm m = 5 then None
       else Some (XMem (Some (unat (i64_modrm_rm m) + (if rex_b rex then 8 else 0))) None
         (if i64_modrm_mod m = 0 then 0 else if i64_modrm_mod m = 1 then scast (hd r) else le32 r) False))"
    using assms r unfolding x86_decode_rm_def Let_def field_iff rex_fields_eq take_disp_def
    by (simp add: take_disp8_def take_disp32_def modrm_fields_eq(3))
qed

lemma i64_parts_sib:
  assumes "i64_modrm_rm m = 4" "i64_modrm_mod m \<noteq> 3" "length r = 12"
  shows "i64_get_sib (rex_opcode rex v 1) m (rex # opc # m # s # r) =
      Inr \<lparr>index_ext = of_bool (rex_x rex), sib_index_of = sib_index s, base_ext = of_bool (rex_b rex),
           sib_base_of = sib_base s, sib_val = s\<rparr>"
    "i64_get_disp (rex_opcode rex v 1) m (rex # opc # m # s # r) =
      Inr (if i64_modrm_mod m = 1 then ucast (hd r)
           else if i64_modrm_mod m = 2 \<or> sib_base s = 5 then le32 r else 0)"
    "map_option fst (x86_decode_rm False rex m (s # r)) =
      Some (XMem (if i64_modrm_mod m = 0 \<and> sib_base s = 5 then None
          else Some (unat (sib_base s) + (if rex_b rex then 8 else 0)))
        (let index = unat (sib_index s) + (if rex_x rex then 8 else 0)
         in if index = 4 then None else Some (index, unat (sib_scale s)))
        (if i64_modrm_mod m = 1 then scast (hd r)
         else if i64_modrm_mod m = 2 \<or> sib_base s = 5 then le32 r else 0) False)"
proof -
  from assms(3) obtain t r' where r: "r = t # r'" "length r' = 11" by (cases r) auto
  note md = modrm_mod_cases [of m]
  show "i64_get_sib (rex_opcode rex v 1) m (rex # opc # m # s # r) =
      Inr \<lparr>index_ext = of_bool (rex_x rex), sib_index_of = sib_index s, base_ext = of_bool (rex_b rex),
           sib_base_of = sib_base s, sib_val = s\<rparr>"
    using assms by (simp add: i64_get_sib_def i64_sib_ext_def)
  show "i64_get_disp (rex_opcode rex v 1) m (rex # opc # m # s # r) =
      Inr (if i64_modrm_mod m = 1 then ucast (hd r)
           else if i64_modrm_mod m = 2 \<or> sib_base s = 5 then le32 r else 0)"
    using assms md r by (auto simp: i64_get_disp_def i64_get_disp_sib_def instr_u32_cons2)
  show "map_option fst (x86_decode_rm False rex m (s # r)) =
      Some (XMem (if i64_modrm_mod m = 0 \<and> sib_base s = 5 then None
          else Some (unat (sib_base s) + (if rex_b rex then 8 else 0)))
        (let index = unat (sib_index s) + (if rex_x rex then 8 else 0)
         in if index = 4 then None else Some (index, unat (sib_scale s)))
        (if i64_modrm_mod m = 1 then scast (hd r)
         else if i64_modrm_mod m = 2 \<or> sib_base s = 5 then le32 r else 0) False)"
    using assms md r unfolding x86_decode_rm_def Let_def field_iff(1-4,6) rex_fields_eq take_disp_def
    by (auto simp: take_disp8_def take_disp32_def modrm_fields_eq(4-6))
qed

lemma i64_parts_rm:
  assumes "length r = 13"
  shows "\<exists>sib dv. i64_get_sib (rex_opcode rex v 1) m (rex # opc # m # r) = Inr sib \<and>
    i64_get_disp (rex_opcode rex v 1) m (rex # opc # m # r) = Inr dv \<and>
    map_option fst (x86_decode_rm False rex m r) =
      decoded_rm rex m sib (if negative_disp8 m r then dv - 0x100 else dv)"
proof (cases "i64_modrm_mod m = 3")
  case True
  then show ?thesis using i64_parts_mod3 by (simp add: decoded_rm_def negative_disp8_def)
next
  case md: False
  show ?thesis
  proof (cases "i64_modrm_rm m = 4")
    case True
    from assms obtain s r' where r: "r = s # r'" "length r' = 12" by (cases r) auto
    then have "hd r' = r' ! 0" by (cases r') auto
    with True md show ?thesis unfolding r(1) i64_parts_sib [OF True md r(2)]
      by (simp add: decoded_rm_def negative_disp8_def disp8_of_def scast_disp8 Let_def)
  next
    case False
    from assms have "hd r = r ! 0" by (cases r) auto
    with False md modrm_mod_cases [of m] show ?thesis unfolding i64_parts_plain [OF False md assms]
      by (auto simp: decoded_rm_def negative_disp8_def disp8_of_def scast_disp8 Let_def)
  qed
qed

text \<open>The opcodes of the reference decoder have a ModRM byte and no immediate.\<close>

lemma i64_parts_alu:
  assumes "x86_alu_of opc = Some alu"
  shows "i64_get_modrm (i64_env nm) (rex_opcode rex (ucast opc) 1) (rex # opc # m # r) = Inr m"
    "i64_get_immd (i64_env nm) (rex_opcode rex (ucast opc) 1) m instr = Inr 0"
proof -
  have "(ucast opc :: u32) AND mask 8 = ucast opc"
    using bit_imp_le_length [of opc] by (intro bit_word_eqI) (auto simp: bit_simps)
  then have "(ucast opc :: u32) AND 0xff = ucast opc" by (simp add: mask_eq_exp_minus_1)
  note op = this ucast_byte [of opc]
  note t = alu_tables [OF assms]
  show "i64_get_modrm (i64_env nm) (rex_opcode rex (ucast opc) 1) (rex # opc # m # r) = Inr m"
    by (simp add: i64_get_modrm_def i64_modrm_check_def op t unat_ucast_up)
  have "MASK_TO_LEN (i64_load_qtables qtables_init) 0 = 0"
    by (simp add: MASK_TO_LEN_def i64_load_qtables_def qtables_init_def Let_def)
  then have len: "i64_immd_len (i64_env nm) (rex_opcode rex (ucast opc) 1) m = Inr 0"
    by (simp add: i64_immd_len_def op t)
  have "i64_disp_len (i64_load_qtables qtables_init) m = Inr 0 \<or>
      (\<exists>x. i64_disp_len (i64_load_qtables qtables_init) m = Inr x)"
    using modrm_mod_cases [of m] by (auto simp: i64_disp_len_def MOD_DLEN_eval)
  then show "i64_get_immd (i64_env nm) (rex_opcode rex (ucast opc) 1) m instr = Inr 0"
    by (auto simp: i64_get_immd_def len eval_nat_numeral)
qed

lemma i64_get_opcode_alu:
  assumes "rex AND 0xf0 = 0x40" "x86_alu_of opc = Some alu" "m \<noteq> 0x38" "m \<noteq> 0x3a" "3 \<le> length r" "nm 1 = 0xff"
  shows "i64_get_opcode (i64_env nm) (rex # opc # m # r) = Inr (rex_opcode rex (ucast opc) 1)"
proof -
  obtain a b c r' where r: "r = a # b # c # r'"
    using assms(5) by (auto simp: Suc_le_length_iff eval_nat_numeral)
  have "nm 1 = mask 8" using assms(6) by (simp add: mask_eq_exp_minus_1)
  then have "ucast (ucast (le32 (opc # m # r)) AND nm 1 :: u64) = (ucast opc :: u32)"
    unfolding r by (simp only: le32_low)
  with i64_get_opcode_rex [of rex opc r nm m] assms(1,3-5) alu_tables(3) [OF assms(2)] show ?thesis by simp
qed

section \<open>Instructions without a prefix\<close>

definition plain_opcode :: "bool \<Rightarrow> u32 \<Rightarrow> u8 \<Rightarrow> i64_opcode_im" where
  "plain_opcode x v len =
    \<lparr>op_val = v, op_info = \<lparr>info_x = x, info_r = False, info_l = False, info_e = False\<rparr>,
     op_legacy = 0, op_rex = 0, op_len = len\<rparr>"

lemma plain_opcode_simps [simp]:
  "op_val (plain_opcode x v l) = v" "op_len (plain_opcode x v l) = l"
  "op_info (plain_opcode x v l) = \<lparr>info_x = x, info_r = False, info_l = False, info_e = False\<rparr>"
  by (simp_all add: plain_opcode_def)

lemma i64_get_opcode_plain:
  assumes "b \<in> {0x0f, 0x80, 0x83}" "m \<noteq> 0x38" "m \<noteq> 0x3a" "2 \<le> length r"
  shows "i64_get_opcode (i64_env nm) (b # m # r) =
    Inr (let len = (if b = 0x0f then 2 else 1)
         in plain_opcode (b = 0x0f) (ucast (ucast (le32 (b # m # r)) AND nm (unat len))) len)"
proof -
  have read: "instr_u32 (a # n # r) 0 = Inr (le32 (a # n # r))" for a n
    using assms(4) by (simp add: instr_u32_def buf_read_def le32_def eval_nat_numeral)
  from assms(1) consider "b = 0x0f" | "b = 0x80" | "b = 0x83" by auto
  then show ?thesis
    using assms(2,3)
    by cases (simp_all add: i64_get_opcode_def i64_get_legacy_def i64_get_rex_def i64_legacy_ext_def i64_opcode_len_def
        LEG_PREF_LOOKUP_nth LEG_PREF_EXT_LOOKUP_nth read plain_opcode_def)
qed

text \<open>An opcode whose entry is 1 has an immediate of one byte, and the decoder takes it from a fixed offset.\<close>

lemma i64_get_immd_byte:
  assumes "opc \<in> {0x80, 0x83}" "i64_disp_len (i64_load_qtables qtables_init) m = Inr dl"
    "unat (1 + of_bool (i64_sib_ext m) + dl + of_bool (m \<noteq> 0) :: u8) = k" "k < length instr"
  shows "i64_get_immd (i64_env nm) (plain_opcode x opc 1) m instr = Inr (ucast (instr ! k))"
proof -
  have tab: "MASK_TO_LEN (i64_load_qtables qtables_init) 1 = 1"
    by (simp add: MASK_TO_LEN_def i64_load_qtables_def qtables_init_def Let_def)
  have "i64_immd_len (i64_env nm) (plain_opcode x opc 1) m = Inr 1"
    using assms(1) by (auto simp: i64_immd_len_def I64_IMMD_VTB_def IMMD_masks tab)
  with assms(2-4) show ?thesis
    by (simp add: i64_get_immd_def eval_nat_numeral)
qed

text \<open>The shifts by an immediate: their submask is looked up before its array.\<close>

lemma i64_immd_len_shift:
  fixes b :: u8
  assumes "b \<in> {0x71, 0x72, 0x73}"
  shows "i64_immd_len (i64_env nm) (plain_opcode x (0x0f OR push_bit 8 (ucast b)) 2) m = Inl Out_Of_Bounds"
proof -
  have q: "L2I_MASK_LOOKUP (i64_load_qtables qtables_init) ! 7 =
      [0, 0, 0, 0x000000FD00000000, 0, 0x0030000001000100, 0x0000000000001510, 0]"
    by (simp add: i64_load_qtables_def qtables_init_def Let_def IMMD_TABLES_def)
  from assms consider "b = 0x71" | "b = 0x72" | "b = 0x73" by auto
  then show ?thesis
    by cases (simp_all add: i64_immd_len_def q I64_IMMD_VTB_def submask_at_def)
qed

text \<open>What the decoder makes of particular instructions.\<close>

lemma i64_get_opcode_ff: "i64_get_opcode (i64_env nm) (0xff # r) = Inl Out_Of_Bounds"
  by (simp add: i64_get_opcode_def i64_get_legacy_def arr_def)

lemma i64_modrm_skipped:
  assumes "rex AND 0xf0 = 0x40" "x86_alu_of opc = Some alu" "m = 0x38 \<or> m = 0x3a" "3 \<le> length r" "nm 2 = 0xffff"
  shows "\<exists>oc. i64_get_opcode (i64_env nm) (rex # opc # m # r) = Inr oc \<and> op_val oc = ucast opc OR push_bit 8 (ucast m) \<and>
    i64_get_modrm (i64_env nm) oc (rex # opc # m # r) = Inr (hd r)"
proof -
  let ?v = "ucast opc OR push_bit 8 (ucast m) :: u32"
  obtain a b c r' where r: "r = a # b # c # r'"
    using assms(4) by (auto simp: Suc_le_length_iff eval_nat_numeral)
  have "nm 2 = mask 16" using assms(5) by (simp add: mask_eq_exp_minus_1)
  then have "ucast (ucast (le32 (opc # m # r)) AND nm 2 :: u64) = ?v" unfolding r by (simp only: le32_low)
  with i64_get_opcode_rex [OF assms(1) alu_tables(3) [OF assms(2)], of r nm m] assms(3,4)
  have oc: "i64_get_opcode (i64_env nm) (rex # opc # m # r) = Inr (rex_opcode rex ?v 2)" by (auto simp: Let_def)
  have "drop_bit 8 ?v AND mask 8 = ucast m"
    using bit_imp_le_length [of opc] bit_imp_le_length [of m] by (intro bit_word_eqI) (fastforce simp: bit_simps)
  then have "drop_bit 8 ?v AND 0xff = ucast m" by (simp add: mask_eq_exp_minus_1)
  moreover have "I64_MODRM_VTB (modrm_l1_mask MODRM_TABLES) (unat m) = 1"
    using assms(3) by (auto simp: I64_MODRM_VTB_def MODRM_TABLES_def)
  ultimately have "i64_modrm_check (i64_env nm) (rex_opcode rex ?v 2)"
    by (simp add: i64_modrm_check_def unat_ucast_up)
  then have "i64_get_modrm (i64_env nm) (rex_opcode rex ?v 2) (rex # opc # m # r) = Inr (hd r)"
    by (simp add: i64_get_modrm_def r)
  with oc show ?thesis by simp
qed

lemma i64_immd_misplaced:
  assumes "opc \<in> {0x80, 0x83}" "m \<noteq> 0x38" "m \<noteq> 0x3a" "2 \<le> length r" "nm 1 = 0xff"
    "i64_disp_len (i64_load_qtables qtables_init) m = Inr dl"
    "unat (1 + of_bool (i64_sib_ext m) + dl + of_bool (m \<noteq> 0) :: u8) = k" "k < length (opc # m # r)"
  shows "\<exists>oc. i64_get_opcode (i64_env nm) (opc # m # r) = Inr oc \<and>
    i64_get_immd (i64_env nm) oc m (opc # m # r) = Inr (ucast ((opc # m # r) ! k))"
proof -
  obtain b c r' where r: "r = b # c # r'"
    using assms(4) by (auto simp: Suc_le_length_iff eval_nat_numeral)
  have "nm 1 = mask 8" using assms(5) by (simp add: mask_eq_exp_minus_1)
  then have "ucast (ucast (le32 (opc # m # r)) AND nm 1 :: u64) = (ucast opc :: u32)" unfolding r by (simp only: le32_low)
  moreover have "(ucast opc :: u32) \<in> {0x80, 0x83}" using assms(1) by auto
  moreover have "opc \<noteq> 0x0f" using assms(1) by auto
  ultimately show ?thesis
    using i64_get_opcode_plain [of opc m r nm] i64_get_immd_byte [OF _ assms(6-8), of "ucast opc" nm False] assms(1-4)
    by (auto simp: Let_def)
qed

lemma i64_shift_faults:
  assumes "b \<in> {0x71, 0x72, 0x73}" "1 \<le> length r" "nm 2 = 0xffff"
  shows "\<exists>oc. i64_get_opcode (i64_env nm) (0x0f # b # m # r) = Inr oc \<and>
    i64_get_immd (i64_env nm) oc m (0x0f # b # m # r) = Inl Out_Of_Bounds"
proof -
  obtain c r' where r: "r = c # r'"
    using assms(2) by (auto simp: Suc_le_length_iff eval_nat_numeral)
  have "nm 2 = mask 16" using assms(3) by (simp add: mask_eq_exp_minus_1)
  then have "ucast (ucast (le32 (0x0f # b # m # r)) AND nm 2 :: u64) = (ucast (0x0f :: u8) OR push_bit 8 (ucast b) :: u32)"
    unfolding r by (simp only: le32_low)
  then have "i64_get_opcode (i64_env nm) (0x0f # b # m # r) = Inr (plain_opcode True (0x0f OR push_bit 8 (ucast b)) 2)"
    using i64_get_opcode_plain [of "0x0f" b "m # r" nm] assms(1,2) by (auto simp: Let_def)
  then show ?thesis using i64_immd_len_shift [OF assms(1)] by (simp add: i64_get_immd_def)
qed

section \<open>Properties\<close>

text \<open>
  C39: the disabled decoder against the reference decoder. On every instruction of sixteen bytes with a REX
  prefix and an opcode of the repertoire, whose ModRM byte is not \<^verbatim>\<open>38\<close> or \<^verbatim>\<open>3a\<close>, the decoder reads the opcode, the
  ModRM byte, the SIB byte and the displacement and finds no immediate. These parts, taken as they are returned,
  describe the instruction the reference decodes if and only if the displacement is not a negative one of one
  byte (mode 1 with a byte from \<^verbatim>\<open>80\<close> up); in that case, and only there, the displacement returned is too large by
  256, because its sign is not extended, and all other parts are right. The macro \<^verbatim>\<open>n_mask\<close> of the
  utility library is a parameter; what is used of it is that \<^verbatim>\<open>n_mask(1)\<close> is the mask of one byte.
\<close>

theorem i64_decoder_agrees:
  assumes "rex AND 0xf0 = 0x40" "x86_alu_of opc = Some alu" "m \<noteq> 0x38" "m \<noteq> 0x3a" "length r = 13" "nm 1 = 0xff"
  shows "let instr = rex # opc # m # r;
      reading = (\<lambda>sib dv. map_option (\<lambda>rm. \<lparr>x_alu = alu,
          x_size = (if \<not> bit opc 0 then 8 else if rex_w rex then 64 else 32), x_to_rm = (\<not> bit opc 1),
          x_reg = unat (i64_modrm_reg m) + (if rex_r rex then 8 else 0), x_rm = rm\<rparr>) (decoded_rm rex m sib dv))
    in \<exists>oc sib dv. i64_get_opcode (i64_env nm) instr = Inr oc \<and>
      op_val oc = ucast opc \<and> op_rex oc = rex \<and> op_legacy oc = 0 \<and>
      i64_get_modrm (i64_env nm) oc instr = Inr m \<and> i64_get_sib oc m instr = Inr sib \<and>
      i64_get_disp oc m instr = Inr dv \<and> i64_get_immd (i64_env nm) oc m instr = Inr 0 \<and>
      (map_option fst (x86_decode instr) = reading sib dv \<longleftrightarrow> \<not> negative_disp8 m r) \<and>
      (negative_disp8 m r \<longrightarrow> map_option fst (x86_decode instr) = reading sib (dv - 0x100))"
proof -
  let ?instr = "rex # opc # m # r"
  have oc: "i64_get_opcode (i64_env nm) ?instr = Inr (rex_opcode rex (ucast opc) 1)"
    using assms by (intro i64_get_opcode_alu) simp_all
  obtain sib dv where parts: "i64_get_sib (rex_opcode rex (ucast opc) 1) m ?instr = Inr sib"
    "i64_get_disp (rex_opcode rex (ucast opc) 1) m ?instr = Inr dv"
    and rm: "map_option fst (x86_decode_rm False rex m r) =
      decoded_rm rex m sib (if negative_disp8 m r then dv - 0x100 else dv)"
    using i64_parts_rm [OF assms(5), of rex "ucast opc" m opc] by blast
  have inj: "inj (map_option (\<lambda>rm. \<lparr>x_alu = alu, x_size = n, x_to_rm = t, x_reg = k, x_rm = rm\<rparr>))" for n t k
    by (intro option.inj_map injI) simp
  have diff: "decoded_rm rex m sib (dv - 0x100) \<noteq> decoded_rm rex m sib dv" if "negative_disp8 m r"
    using that by (simp add: decoded_rm_disp negative_disp8_def)
  show ?thesis
    unfolding Let_def x86_decode_rex_op [OF assms(1,2), of m r] rm inj_eq [OF inj]
    by (intro exI [where x = "rex_opcode rex (ucast opc) 1"] exI [where x = sib] exI [where x = dv])
      (use oc parts i64_parts_alu [OF assms(2), of nm rex m] diff in \<open>simp add: rex_opcode_def\<close>)
qed

theorem i64_decoder_agrees_witness:
  "\<exists>oc sib dv. i64_get_opcode (i64_env (\<lambda>n. mask (8 * n))) (0x4d # 0x01 # 0x5a # 0xd8 # replicate 12 0) = Inr oc \<and>
    i64_get_disp oc 0x5a (0x4d # 0x01 # 0x5a # 0xd8 # replicate 12 0) = Inr dv \<and>
    map_option fst (x86_decode (0x4d # 0x01 # 0x5a # 0xd8 # replicate 12 0)) \<noteq>
      map_option (\<lambda>rm. \<lparr>x_alu = X_ADD, x_size = 64, x_to_rm = True, x_reg = 11, x_rm = rm\<rparr>) (decoded_rm 0x4d 0x5a sib dv) \<and>
    map_option fst (x86_decode (0x4d # 0x01 # 0x5a # 0xd8 # replicate 12 0)) =
      map_option (\<lambda>rm. \<lparr>x_alu = X_ADD, x_size = 64, x_to_rm = True, x_reg = 11, x_rm = rm\<rparr>)
        (decoded_rm 0x4d 0x5a sib (dv - 0x100))"
proof -
  have "x86_alu_of 0x01 = Some X_ADD" "rex_w 0x4d" "rex_r 0x4d" "i64_modrm_reg 0x5a = 3" "mask (8 * 1) = (0xff :: u64)"
    "negative_disp8 0x5a (0xd8 # replicate 12 0)"
    by (simp_all add: x86_alu_of_def rex_w_def rex_r_def i64_modrm_reg_def BIT_def mask_eq_exp_minus_1
        negative_disp8_def disp8_of_def i64_modrm_mod_def i64_modrm_rm_def)
  then show ?thesis
    using i64_decoder_agrees [of "0x4d" "0x01" X_ADD "0x5a" "0xd8 # replicate 12 0" "\<lambda>n. mask (8 * n)"]
    unfolding Let_def by fastforce
qed

text \<open>
  The decoder reads back what the emitter writes. For all pairs of 64-bit registers and the mnemonics
  whose first operand is the ModRM \<open>reg\<close> field the bytes \<^verbatim>\<open>i64_emit_64\<close> leaves in its buffer give the opcode,
  both registers with their extension bits, no SIB byte, no displacement and no immediate.
\<close>

theorem i64_decoder_reads_emitted:
  assumes "rr64_opcode opc = Some (alu, False)" "a < 16" "b < 16" "length buf = 16" "nm 1 = 0xff"
  shows "\<exists>buf' oc m. i64_emit_64 opc (Some [reg_operand a W64, reg_operand b W64]) (Some buf) (Some l) =
      Inr (AX_SUCC, Some buf', Some 3) \<and>
    i64_get_opcode (i64_env nm) buf' = Inr oc \<and> op_val oc = ucast (i64_opcode_val opc AND 0xff) \<and> rex_w (op_rex oc) \<and>
    i64_get_modrm (i64_env nm) oc buf' = Inr m \<and> i64_modrm_mod m = 3 \<and>
    unat (i64_modrm_reg m) + (if rex_r (op_rex oc) then 8 else 0) = a \<and>
    unat (i64_modrm_rm m) + (if rex_b (op_rex oc) then 8 else 0) = b \<and>
    i64_get_sib oc m buf' = Inr i64_sib_zero \<and> i64_get_disp oc m buf' = Inr 0 \<and>
    i64_get_immd (i64_env nm) oc m buf' = Inr 0"
proof -
  let ?rex = "rr_rex (8 \<le> a) (8 \<le> b)" and ?opc = "ucast (i64_opcode_val opc AND 0xff) :: u8"
  define m where "m = push_bit 6 3 OR push_bit 3 (oid (reg_operand a W64) AND 7) OR (oid (reg_operand b W64) AND 7)"
  note fields = modrm_fields [of "oid (reg_operand a W64)" "oid (reg_operand b W64)", folded m_def]
  note byte = rr64_opcode_byte [OF assms(1)]
  obtain buf' where buf': "i64_emit_64 opc (Some [reg_operand a W64, reg_operand b W64]) (Some buf) (Some l) =
      Inr (AX_SUCC, Some buf', Some 3)" "length buf' = 16" "take 3 buf' = [?rex, ?opc, m]"
    using emit_rr_bytes [OF assms(1-3), of buf "[]" l] assms(4) by (auto simp: rr_bytes_def Let_def m_def)
  then obtain t where t: "buf' = ?rex # ?opc # m # t" "length t = 13"
    using append_take_drop_id [of 3 buf'] by (intro that [of "drop 3 buf'"]) simp_all
  have m3: "i64_modrm_mod m = 3" using fields(1) by (simp only: field_iff)
  then have "m \<noteq> 0x38" "m \<noteq> 0x3a" by (auto simp: i64_modrm_mod_def)
  with byte(1) rr_rex_decode(1) t(2) assms(5)
  have oc: "i64_get_opcode (i64_env nm) (?rex # ?opc # m # t) = Inr (rex_opcode ?rex (ucast ?opc) 1)"
    by (intro i64_get_opcode_alu) simp_all
  have "i64_opcode_val opc AND 0xff = take_bit 8 (i64_opcode_val opc)"
    by (simp add: take_bit_eq_mask mask_eq_exp_minus_1)
  then have val: "(ucast ?opc :: u32) = ucast (i64_opcode_val opc AND 0xff)"
    by (auto intro!: bit_word_eqI simp: bit_simps)
  note ext = rr_rex_decode(4-6) [of "8 \<le> a" "8 \<le> b", unfolded rex_fields_eq] fields(2,3) [unfolded modrm_fields_eq(1-3)]
    reg_oid_low [OF assms(2), of W64] reg_oid_low [OF assms(3), of W64]
  show ?thesis
    by (intro exI [where x = m] exI conjI, rule buf'(1) [unfolded t(1)], rule oc, simp_all add: val ext m3 i64_parts_mod3(1,2) [OF m3]
        i64_parts_alu [OF byte(1), unfolded val])
qed

theorem i64_decoder_reads_emitted_witness:
  "\<exists>buf' oc m. i64_emit_64 ADD_R64_64 (Some [reg_operand 3 W64, reg_operand 10 W64]) (Some (replicate 16 0)) (Some 0) =
      Inr (AX_SUCC, Some buf', Some 3) \<and> i64_get_opcode (i64_env (\<lambda>n. mask (8 * n))) buf' = Inr oc \<and>
    i64_get_modrm (i64_env (\<lambda>n. mask (8 * n))) oc buf' = Inr m \<and>
    unat (i64_modrm_reg m) + (if rex_r (op_rex oc) then 8 else 0) = 3 \<and>
    unat (i64_modrm_rm m) + (if rex_b (op_rex oc) then 8 else 0) = 10"
proof -
  have "mask (8 * 1) = (0xff :: u64)" by (simp add: mask_eq_exp_minus_1)
  with i64_decoder_reads_emitted [of ADD_R64_64 X_ADD 3 10 "replicate 16 0" "\<lambda>n. mask (8 * n)" 0] show ?thesis
    by fastforce
qed

text \<open>
  Where the disabled decoder goes wrong. It faults on every instruction that starts with \<^verbatim>\<open>ff\<close>. A ModRM
  byte \<^verbatim>\<open>38\<close> or \<^verbatim>\<open>3a\<close> is taken for the second byte of the opcode, and the byte behind it for the ModRM byte. The
  immediate is read one byte too early behind a ModRM byte 0, one byte too late when the register operand is
  \<^verbatim>\<open>rsp\<close>, and at the displacement when there is no SIB byte; and the shifts of vectors by an immediate read
  their submask before the start of the array.
\<close>

theorem i64_decoder_misreads:
  assumes "nm 1 = 0xff" "nm 2 = 0xffff" "3 \<le> length r"
  shows "i64_get_opcode (i64_env nm) (0xff # r) = Inl Out_Of_Bounds \<and>
    (\<forall>rex opc alu m. rex AND 0xf0 = 0x40 \<longrightarrow> x86_alu_of opc = Some alu \<longrightarrow> m = 0x38 \<or> m = 0x3a \<longrightarrow>
      (\<exists>oc. i64_get_opcode (i64_env nm) (rex # opc # m # r) = Inr oc \<and> op_val oc = ucast opc OR push_bit 8 (ucast m) \<and>
        i64_get_modrm (i64_env nm) oc (rex # opc # m # r) = Inr (hd r))) \<and>
    (\<forall>ib. \<exists>oc. i64_get_opcode (i64_env nm) (0x80 # 0x00 # ib # r) = Inr oc \<and>
        i64_get_immd (i64_env nm) oc 0x00 (0x80 # 0x00 # ib # r) = Inr 0) \<and>
    (\<forall>ib. \<exists>oc. i64_get_opcode (i64_env nm) (0x83 # 0xc4 # ib # r) = Inr oc \<and>
        i64_get_immd (i64_env nm) oc 0xc4 (0x83 # 0xc4 # ib # r) = Inr (ucast (hd r))) \<and>
    (\<forall>d ib. \<exists>oc. i64_get_opcode (i64_env nm) (0x83 # 0x45 # d # ib # r) = Inr oc \<and>
        i64_get_immd (i64_env nm) oc 0x45 (0x83 # 0x45 # d # ib # r) = Inr (ucast d)) \<and>
    (\<forall>b m. b \<in> {0x71, 0x72, 0x73} \<longrightarrow>
      (\<exists>oc. i64_get_opcode (i64_env nm) (0x0f # b # m # r) = Inr oc \<and>
        i64_get_immd (i64_env nm) oc m (0x0f # b # m # r) = Inl Out_Of_Bounds))"
proof (intro conjI allI impI)
  note fields = i64_disp_len_def MOD_DLEN_eval i64_modrm_mod_def i64_modrm_rm_def i64_sib_ext_def
  show "i64_get_opcode (i64_env nm) (0xff # r) = Inl Out_Of_Bounds" by (rule i64_get_opcode_ff)
  fix rex opc m b d ib :: u8 and alu
  show "\<exists>oc. i64_get_opcode (i64_env nm) (rex # opc # m # r) = Inr oc \<and> op_val oc = ucast opc OR push_bit 8 (ucast m) \<and>
      i64_get_modrm (i64_env nm) oc (rex # opc # m # r) = Inr (hd r)"
    if "rex AND 0xf0 = 0x40" "x86_alu_of opc = Some alu" "m = 0x38 \<or> m = 0x3a"
    using that assms(3,2) by (rule i64_modrm_skipped)
  show "\<exists>oc. i64_get_opcode (i64_env nm) (0x80 # 0x00 # ib # r) = Inr oc \<and>
        i64_get_immd (i64_env nm) oc 0x00 (0x80 # 0x00 # ib # r) = Inr 0"
    using i64_immd_misplaced [of "0x80" "0x00" "ib # r" nm 0 1] assms by (simp add: fields)
  show "\<exists>oc. i64_get_opcode (i64_env nm) (0x83 # 0xc4 # ib # r) = Inr oc \<and>
        i64_get_immd (i64_env nm) oc 0xc4 (0x83 # 0xc4 # ib # r) = Inr (ucast (hd r))"
    using i64_immd_misplaced [of "0x83" "0xc4" "ib # r" nm 0 3] assms
    by (cases r) (simp_all add: fields)
  show "\<exists>oc. i64_get_opcode (i64_env nm) (0x83 # 0x45 # d # ib # r) = Inr oc \<and>
        i64_get_immd (i64_env nm) oc 0x45 (0x83 # 0x45 # d # ib # r) = Inr (ucast d)"
    using i64_immd_misplaced [of "0x83" "0x45" "d # ib # r" nm 0 2] assms by (simp add: fields)
  show "\<exists>oc. i64_get_opcode (i64_env nm) (0x0f # b # m # r) = Inr oc \<and>
        i64_get_immd (i64_env nm) oc m (0x0f # b # m # r) = Inl Out_Of_Bounds" if "b \<in> {0x71, 0x72, 0x73}"
    using that assms(3,2) by (intro i64_shift_faults) simp_all
qed

theorem i64_decoder_misreads_witness:
  "\<exists>oc. i64_get_opcode (i64_env (\<lambda>n. mask (8 * n))) (0x83 # 0x45 # 0xd8 # 0x11 # replicate 12 0) = Inr oc \<and>
     i64_get_immd (i64_env (\<lambda>n. mask (8 * n))) oc 0x45 (0x83 # 0x45 # 0xd8 # 0x11 # replicate 12 0) = Inr 0xd8"
proof -
  have m: "mask (8 * 1) = (0xff :: u64)" "mask (8 * 2) = (0xffff :: u64)" by (simp_all add: mask_eq_exp_minus_1)
  have "\<forall>d ib. \<exists>oc. i64_get_opcode (i64_env (\<lambda>n. mask (8 * n))) (0x83 # 0x45 # d # ib # replicate 12 0) = Inr oc \<and>
     i64_get_immd (i64_env (\<lambda>n. mask (8 * n))) oc 0x45 (0x83 # 0x45 # d # ib # replicate 12 0) = Inr (ucast d)"
    using i64_decoder_misreads [of "\<lambda>n. mask (8 * n)" "replicate 12 0", OF m] by simp
  from this [rule_format, of "0xd8" "0x11"] show ?thesis by simp
qed

end
