(* ===== verification/Quad_Words.thy ===== *)
theory Quad_Words
  imports Prelude
begin

text \<open>
  The string helpers of \<^verbatim>\<open>asm/decode_u64.h\<close>, which the sources mark as deprecated and disable with \<^verbatim>\<open>#if 0\<close>.
  They look at a string in quads, words of eight bytes, and find bytes with word arithmetic. A pointer into
  the string is its offset in bytes, a read behind the end of the buffer is a fault. The macros \<^verbatim>\<open>n_mask\<close>, \<^verbatim>\<open>addr_diff\<close> and
  \<^verbatim>\<open>clamp\<close> of the utility library are parameters.
\<close>

section \<open>Definitions\<close>

record mte_u64_instr =
  u_len :: u32
  u_ptr :: nat
  u_guest :: "u8 list"

text \<open>The copy of a string in a buffer with a spare quad; \<open>axmalloc\<close> gives the contents of new memory.\<close>

definition str_to_u64 :: "(nat \<Rightarrow> u8 list) \<Rightarrow> u8 list \<Rightarrow> u64 \<Rightarrow> mte_u64_instr res" where
  "str_to_u64 axmalloc str len =
    (let buf_len = ucast (len div 8 + (if len mod 8 = 0 then 0 else 1)) :: u32 in
     and_then (buf_read str 0 (unat len)) (\<lambda>bs.
     and_then (buf_write (axmalloc (unat (buf_len + 1) * 8)) 0 bs) (\<lambda>buf.
       Inr \<lparr>u_len = buf_len, u_ptr = 0, u_guest = buf\<rparr>)))"

definition U64_BIT_LOW_MASK :: u64 where "U64_BIT_LOW_MASK = 0x0101010101010101"
definition U64_BIT_HIGH_MASK :: u64 where "U64_BIT_HIGH_MASK = 0x8080808080808080"

definition U64_HAS_BYTE :: "u64 \<Rightarrow> u64" where
  "U64_HAS_BYTE b = (b - U64_BIT_LOW_MASK) AND NOT b AND U64_BIT_HIGH_MASK"

text \<open>A load of a quad, at any offset.\<close>

definition read_quad :: "u8 list \<Rightarrow> nat \<Rightarrow> u64 res" where
  "read_quad m p = and_then (buf_read m p 8) (\<lambda>bs. Inr (le_word bs))"

lemma read_quad_Inr: "read_quad m p = Inr w \<Longrightarrow> p + 8 \<le> length m"
  by (simp add: read_quad_def buf_read_def split: if_splits)

text \<open>
  The common loop of the helpers: from a quad equal to 0 on it gives up, otherwise it stops at the first quad
  for which \<open>f\<close> is not 0, with the number of the byte that holds the lowest bit of \<open>f\<close>.
\<close>

function quad_loop :: "(u64 \<Rightarrow> u64) \<Rightarrow> u8 list \<Rightarrow> nat \<Rightarrow> (nat \<times> nat) option res" where
  "quad_loop f m p =
    (case read_quad m p of Inl e \<Rightarrow> Inl e
     | Inr w \<Rightarrow>
       (if w = 0 then Inr None
        else if f w \<noteq> 0 then Inr (Some (p, ctz (f w) div 8))
        else quad_loop f m (p + 8)))"
  by pat_completeness auto
termination
  by (relation "measure (\<lambda>(f, m, p). length m - p)") (auto dest: read_quad_Inr)

declare quad_loop.simps [simp del]

definition u64_byte_search :: "u8 \<Rightarrow> mte_u64_instr \<Rightarrow> (bool \<times> mte_u64_instr) res" where
  "u64_byte_search byte instr =
    (let msk = U64_BIT_LOW_MASK * ucast byte in
     and_then (quad_loop (\<lambda>w. U64_HAS_BYTE (w XOR msk)) (u_guest instr) (u_ptr instr)) (\<lambda>r.
       Inr (case r of None \<Rightarrow> (False, instr) | Some (p, i) \<Rightarrow> (True, instr\<lparr>u_ptr := p + i\<rparr>))))"

definition u64_byte_skip :: "u8 \<Rightarrow> mte_u64_instr \<Rightarrow> mte_u64_instr res" where
  "u64_byte_skip byte instr =
    (let msk = U64_BIT_LOW_MASK * ucast byte in
     and_then (quad_loop (\<lambda>w. U64_HAS_BYTE (w XOR msk) XOR U64_BIT_HIGH_MASK) (u_guest instr) (u_ptr instr)) (\<lambda>r.
       Inr (case r of None \<Rightarrow> instr | Some (p, i) \<Rightarrow> instr\<lparr>u_ptr := p + i\<rparr>)))"

function u64_real_dist_loop ::
  "(u64 \<Rightarrow> u64) \<Rightarrow> (nat \<Rightarrow> nat \<Rightarrow> u64) \<Rightarrow> u8 list \<Rightarrow> nat \<Rightarrow> nat \<Rightarrow> u64 \<Rightarrow> u64 res" where
  "u64_real_dist_loop n_mask addr_diff m a b count =
    (case read_quad m a of Inl e \<Rightarrow> Inl e
     | Inr w \<Rightarrow>
       (if w = 0 then Inr 0
        else
         (let count = count + of_nat (popcount (U64_HAS_BYTE ((w AND n_mask (addr_diff a b)) XOR (U64_BIT_LOW_MASK * 0x20))))
          in if a < b then Inr (addr_diff a b - count)
             else u64_real_dist_loop n_mask addr_diff m (a + 8) b count)))"
  by pat_completeness auto
termination
  by (relation "measure (\<lambda>(_, _, m, a, _, _). length m - a)") (auto dest: read_quad_Inr)

declare u64_real_dist_loop.simps [simp del]

definition u64_real_dist :: "(u64 \<Rightarrow> u64) \<Rightarrow> (nat \<Rightarrow> nat \<Rightarrow> u64) \<Rightarrow> u8 list \<Rightarrow> nat \<Rightarrow> nat \<Rightarrow> u64 res" where
  "u64_real_dist n_mask addr_diff m a b = u64_real_dist_loop n_mask addr_diff m a b 0"

definition u64_move ::
  "(u64 \<Rightarrow> u64 \<Rightarrow> u64) \<Rightarrow> (nat \<Rightarrow> nat \<Rightarrow> u64) \<Rightarrow> u64 \<Rightarrow> mte_u64_instr \<Rightarrow> mte_u64_instr res" where
  "u64_move clamp addr_diff n instr =
    and_then (read_quad (u_guest instr) (u_ptr instr)) (\<lambda>w.
      Inr (if w = 0 then instr
           else instr\<lparr>u_ptr := u_ptr instr + unat (clamp n (addr_diff (u_ptr instr) (8 * unat (u_len instr))))\<rparr>))"

text \<open>\<^verbatim>\<open>__builtin_clzll\<close>, whose result for 0 is undefined.\<close>

definition clz :: "u64 \<Rightarrow> nat" where
  "clz w = length (takeWhile (\<lambda>i. \<not> bit w i) (rev [0..<64]))"

definition u64_qlen :: "u64 \<Rightarrow> u64 res" where
  "u64_qlen v = (if v = 0 then Inl Undefined_Value else Inr (8 - of_nat (clz v div 8)))"

definition u64_slen :: "u8 list \<Rightarrow> nat \<Rightarrow> u64 res" where
  "u64_slen m p =
    (let msk = U64_BIT_LOW_MASK * 0; len = 0 in
     and_then (quad_loop (\<lambda>w. U64_HAS_BYTE (w XOR msk)) m p) (\<lambda>r.
       Inr (case r of None \<Rightarrow> len | Some (_, i) \<Rightarrow> len + of_nat i)))"

section \<open>Word arithmetic byte by byte\<close>

text \<open>
  Subtracting 1 from every byte of a number, with the borrow of one byte going to the next. \<open>borrows c xs\<close> are
  the borrows out of the bytes \<open>xs\<close>, \<open>c\<close> is the one into the first.
\<close>

fun borrows :: "bool \<Rightarrow> u8 list \<Rightarrow> bool list" where
  "borrows c [] = []"
| "borrows c (x # xs) = (let b = (x = 0 \<or> x = 1 \<and> c) in b # borrows b xs)"

fun lessen :: "bool \<Rightarrow> u8 list \<Rightarrow> u8 list" where
  "lessen c [] = []"
| "lessen c (x # xs) = (x - 1 - of_bool c) # lessen (x = 0 \<or> x = 1 \<and> c) xs"

lemma length_borrows [simp]: "length (borrows c xs) = length xs" "length (lessen c xs) = length xs"
  by (induction xs arbitrary: c) (simp_all add: Let_def)

lemma le_word_Cons: "le_word (b # bs) = (ucast b + 2 ^ 8 * le_word bs :: u64)"
proof -
  have "ucast b AND push_bit 8 (le_word bs :: u64) = 0"
    by (rule bit_word_eqI) (auto simp: bit_simps dest: bit_imp_le_length)
  then have "ucast b OR push_bit 8 (le_word bs) = (ucast b + push_bit 8 (le_word bs) :: u64)"
    by (rule disjunctive_add_eq_or [symmetric])
  then show ?thesis unfolding le_word.simps push_bit_eq_mult by (simp only: mult.commute)
qed

lemma ucast_diff:
  fixes x k :: u8
  assumes "k \<le> x"
  shows "(ucast (x - k) :: u64) = ucast x - ucast k"
proof -
  have "unat k \<le> unat x" using assms by (simp add: word_le_nat_alt)
  then have "(of_nat (unat (x - k)) :: u64) = of_nat (unat x) - of_nat (unat k)"
    unfolding unat_sub [OF assms] by (rule of_nat_diff)
  then show ?thesis by (simp only: of_nat_unat)
qed

lemma lessen_byte:
  "(ucast (x :: u8) :: u64) - 1 - of_bool c = ucast (x - 1 - of_bool c) - 2 ^ 8 * of_bool (x = 0 \<or> x = 1 \<and> c)"
proof -
  have "unat x = 0 \<or> unat x = 1 \<or> 2 \<le> unat x" by arith
  moreover have "(-1 :: u8) = 255" "(ucast (255 :: u8) :: u64) = 255" by simp_all
  then have m1: "(ucast (-1 :: u8) :: u64) = 255" by (simp only:)
  ultimately consider "x = 0" | "x = 1" | "2 \<le> x" "x \<noteq> 0" "x \<noteq> 1"
    by (auto simp: word_unat_eq_iff word_le_nat_alt)
  then show ?thesis
  proof cases
    case 3
    then have "1 \<le> x" "2 \<le> x" by (simp_all add: word_le_nat_alt)
    with 3 ucast_diff [of 1 x] ucast_diff [of 2 x] show ?thesis
      by (cases c) simp_all
  next
    case 1
    then show ?thesis by (cases c) (simp_all add: m1)
  next
    case 2
    then show ?thesis by (cases c) (simp_all add: m1)
  qed
qed

lemma le_word_lessen:
  "le_word (lessen c xs) = (le_word xs - le_word (replicate (length xs) 1) - of_bool c
     + 2 ^ (8 * length xs) * of_bool (last (c # borrows c xs)) :: u64)"
proof (induction xs arbitrary: c)
  case (Cons x xs)
  let ?c = "x = 0 \<or> x = 1 \<and> c"
  have byte: "(ucast (x - 1 - of_bool c) :: u64) = ucast x - 1 - of_bool c + 2 ^ 8 * of_bool ?c"
    using lessen_byte [of x c] by simp
  have "last (c # borrows c (x # xs)) = last (?c # borrows ?c xs)" by (simp add: Let_def)
  moreover have "(2 :: u64) ^ (8 * length (x # xs)) = 2 ^ 8 * 2 ^ (8 * length xs)" by (simp add: power_add)
  ultimately show ?case
    unfolding lessen.simps le_word_Cons byte Cons [of ?c]
    by (simp add: le_word_Cons algebra_simps del: le_word.simps)
qed simp

lemma bit_7: "bit (w :: u8) 7 \<longleftrightarrow> 128 \<le> unat w"
proof -
  have "unat w < 2 ^ LENGTH(8)" by (rule unsigned_less)
  then have "unat w div 128 = 0 \<or> unat w div 128 = 1" by (simp add: less_Suc_eq less_mult_imp_div_less flip: less_2_cases_iff)
  moreover have "unat w div 128 = 0 \<longleftrightarrow> unat w < 128" by (simp add: div_eq_0_iff)
  moreover have "bit w 7 \<longleftrightarrow> bit (unat w) 7" by (simp add: bit_unsigned_iff)
  moreover have "bit (unat w) 7 \<longleftrightarrow> odd (unat w div 128)" by (simp add: bit_iff_odd)
  ultimately show ?thesis by auto
qed

lemma borrow_bit: "bit (x - 1 - of_bool c) 7 \<and> \<not> bit x 7 \<longleftrightarrow> x = 0 \<or> x = 1 \<and> c" for x :: u8
proof -
  have "unat x = 0 \<or> unat x = 1 \<or> 2 \<le> unat x" by arith
  then consider "x = 0" | "x = 1" | "2 \<le> x" "x \<noteq> 0" "x \<noteq> 1"
    by (auto simp: word_unat_eq_iff word_le_nat_alt)
  then show ?thesis
  proof cases
    case 3
    then have "1 \<le> x" "2 \<le> x" by (simp_all add: word_le_nat_alt)
    with 3 show ?thesis unfolding bit_7 by (cases c) (auto simp: unat_sub)
  qed (cases c; simp)+
qed

lemma nth_lessen:
  "i < length xs \<Longrightarrow> bit (lessen c xs ! i) 7 \<and> \<not> bit (xs ! i) 7 \<longleftrightarrow> borrows c xs ! i"
proof (induction xs arbitrary: c i)
  case (Cons x xs)
  then show ?case using borrow_bit [of x c] by (cases i) (simp_all add: Let_def)
qed simp

lemma replicate_8: "replicate 8 x = [x, x, x, x, x, x, x, x]"
  by (simp add: numeral_eq_Suc)

lemma U64_masks: "U64_BIT_LOW_MASK = le_word (replicate 8 1)" "U64_BIT_HIGH_MASK = le_word (replicate 8 0x80)"
  unfolding replicate_8 by (simp_all add: U64_BIT_LOW_MASK_def U64_BIT_HIGH_MASK_def)

lemma quad_index: "n < 64 \<longleftrightarrow> n div 8 < (8 :: nat)"
  by (simp add: div_less_iff_less_mult)

lemma bit_high: "bit U64_BIT_HIGH_MASK n \<longleftrightarrow> n < 64 \<and> n mod 8 = 7"
proof -
  have "bit (0x80 :: u8) (n mod 8) \<longleftrightarrow> n mod 8 = 7"
    using bit_BIT [of 7 "n mod 8", where 'a = 8] by (simp add: BIT_def)
  then show ?thesis unfolding U64_masks bit_le_word by (cases "n < 64") (simp_all add: quad_index)
qed

text \<open>The flags \<^verbatim>\<open>U64_HAS_BYTE\<close> sets are the borrows out of the bytes.\<close>

lemma bit_U64_HAS_BYTE:
  assumes "length xs = 8"
  shows "bit (U64_HAS_BYTE (le_word xs)) n \<longleftrightarrow> n < 64 \<and> n mod 8 = 7 \<and> borrows False xs ! (n div 8)"
proof -
  have "(2 :: u64) ^ (8 * length xs) = 0" using assms by simp
  then have sub: "le_word xs - U64_BIT_LOW_MASK = (le_word (lessen False xs) :: u64)"
    using le_word_lessen [of False xs] assms unfolding U64_masks by simp
  show ?thesis
    unfolding U64_HAS_BYTE_def sub
    using nth_lessen [of "n div 8" xs False] assms by (auto simp: bit_simps bit_high bit_le_word)
qed

section \<open>The loop, byte by byte\<close>

lemma mask_byte: "U64_BIT_LOW_MASK * ucast b = le_word (replicate 8 b)"
  unfolding replicate_8 U64_BIT_LOW_MASK_def le_word_Cons le_word.simps(1) by (simp add: algebra_simps)

lemma le_word_xor:
  assumes "length xs = 8"
  shows "le_word xs XOR U64_BIT_LOW_MASK * ucast b = (le_word (map (\<lambda>x. x XOR b) xs) :: u64)"
  unfolding mask_byte
  using assms by (intro bit_word_eqI) (auto simp: bit_simps bit_le_word quad_index)

lemma le_word_eq_0:
  assumes "length xs = 8"
  shows "le_word xs = (0 :: u64) \<longleftrightarrow> (\<forall>x \<in> set xs. x = 0)"
proof
  assume z: "le_word xs = (0 :: u64)"
  show "\<forall>x \<in> set xs. x = 0"
  proof
    fix x assume "x \<in> set xs"
    then obtain i where i: "i < 8" "x = xs ! i" using assms by (auto simp: in_set_conv_nth)
    show "x = 0"
    proof (rule bit_word_eqI)
      fix n assume n: "n < LENGTH(8)"
      then have "bit (le_word xs :: u64) (8 * i + n) \<longleftrightarrow> bit x n" using i assms by (simp add: bit_le_word)
      with z show "bit x n \<longleftrightarrow> bit 0 n" by simp
    qed
  qed
next
  assume "\<forall>x \<in> set xs. x = 0"
  then have "xs = replicate 8 0" using assms by (simp add: list_eq_iff_nth_eq)
  then show "le_word xs = (0 :: u64)" by (simp add: replicate_8)
qed

text \<open>The lowest bit of a word whose bits are the top bits of some of its bytes.\<close>

lemma ctz_flags:
  assumes "\<And>n. bit (w :: u64) n \<longleftrightarrow> n < 64 \<and> n mod 8 = 7 \<and> P (n div 8)"
  shows "(if w = 0 then None else Some (ctz w div 8)) = find P [0..<8]"
proof (cases "find P [0..<8]")
  case None
  then have "\<not> P (n div 8)" if "n < 64" for n using that by (auto simp: find_None_iff quad_index)
  then have "w = 0" using assms by (intro bit_word_eqI) auto
  with None show ?thesis by simp
next
  case (Some i)
  then have i: "i < 8" "P i" "\<And>j. j < i \<Longrightarrow> \<not> P j" by (auto simp: find_upt_Some)
  have "ctz w = 8 * i + 7"
  proof (rule ctz_eqI)
    show "bit w (8 * i + 7)" using assms i by simp
    show "\<not> bit w j" if j: "j < 8 * i + 7" for j
    proof
      assume "bit w j"
      then have "j mod 8 = 7" "P (j div 8)" using assms by simp_all
      moreover from this(1) j have "j div 8 < i" using div_mult_mod_eq [of j 8] by linarith
      ultimately show False using i(3) by blast
    qed
  qed
  moreover have "w \<noteq> 0" using assms [of "8 * i + 7"] i by auto
  ultimately show ?thesis using Some by simp
qed

text \<open>Before the first zero there is no borrow.\<close>

lemma borrows_first:
  "i < length xs \<Longrightarrow> (\<And>j. j < i \<Longrightarrow> xs ! j \<noteq> 0) \<Longrightarrow> borrows False xs ! i \<longleftrightarrow> xs ! i = 0"
proof (induction xs arbitrary: i)
  case (Cons x xs)
  show ?case
  proof (cases i)
    case (Suc k)
    have "x \<noteq> 0" using Cons.prems(2) [of 0] Suc by simp
    moreover have "xs ! j \<noteq> 0" if "j < k" for j using Cons.prems(2) [of "Suc j"] that Suc by simp
    ultimately show ?thesis using Cons.IH [of k] Cons.prems(1) Suc by (simp add: Let_def)
  qed (simp add: Let_def)
qed simp

lemma find_borrows:
  assumes "length xs = 8"
  shows "find (\<lambda>i. borrows False xs ! i) [0..<8] = find (\<lambda>i. xs ! i = 0) [0..<8]"
proof (cases "find (\<lambda>i. xs ! i = 0) [0..<8]")
  case None
  then have "xs ! i \<noteq> 0" if "i < 8" for i using that by (auto simp: find_None_iff)
  then have "\<not> borrows False xs ! i" if "i < 8" for i using that borrows_first [of i xs] assms by auto
  then have "find (\<lambda>i. borrows False xs ! i) [0..<8] = None" by (simp add: find_None_iff)
  with None show ?thesis by (simp only:)
next
  case (Some k)
  then have k: "k < 8" "xs ! k = 0" "\<And>j. j < k \<Longrightarrow> xs ! j \<noteq> 0" by (auto simp: find_upt_Some)
  have "borrows False xs ! i \<longleftrightarrow> xs ! i = 0" if "i \<le> k" for i
    using that k(1,3) assms by (intro borrows_first) auto
  with k have "find (\<lambda>i. borrows False xs ! i) [0..<8] = Some k" by (simp add: find_upt_Some)
  with Some show ?thesis by (simp only:)
qed

lemma word_xor_eq_0: "x XOR y = 0 \<longleftrightarrow> x = y" for x y :: "'a::len word"
proof
  assume "x XOR y = 0"
  then have "(x XOR y) XOR y = y" by (simp only: xor.left_neutral)
  then show "x = y" by (simp only: xor.assoc xor_self_eq xor.right_neutral)
qed simp

lemma U64_HAS_BYTE_find:
  fixes b :: u8
  assumes "length xs = 8"
  defines "w \<equiv> U64_HAS_BYTE (le_word xs XOR U64_BIT_LOW_MASK * ucast b)"
  shows "(if w = 0 then None else Some (ctz w div 8)) = find (\<lambda>i. xs ! i = b) [0..<8]"
proof -
  let ?ys = "map (\<lambda>x. x XOR b) xs"
  have "(if w = 0 then None else Some (ctz w div 8)) = find (\<lambda>i. borrows False ?ys ! i) [0..<8]"
    unfolding w_def le_word_xor [OF assms(1)] by (rule ctz_flags) (simp add: bit_U64_HAS_BYTE assms(1))
  also have "\<dots> = find (\<lambda>i. ?ys ! i = 0) [0..<8]" by (rule find_borrows) (simp add: assms(1))
  also have "\<dots> = find (\<lambda>i. xs ! i = b) [0..<8]"
    using assms(1) by (intro find_cong) (auto simp: word_xor_eq_0)
  finally show ?thesis .
qed

section \<open>Searching\<close>

text \<open>
  The search without word arithmetic: it looks at eight bytes at a time, ends at eight zero bytes and faults
  when less than eight are left.
\<close>

function (sequential) find_quads :: "u8 \<Rightarrow> u8 list \<Rightarrow> nat option res" where
  "find_quads b bs =
    (if length bs < 8 then Inl Out_Of_Bounds
     else if \<forall>x \<in> set (take 8 bs). x = 0 then Inr None
     else case find (\<lambda>i. bs ! i = b) [0..<8] of
       Some i \<Rightarrow> Inr (Some i)
     | None \<Rightarrow> and_then (find_quads b (drop 8 bs)) (\<lambda>r. Inr (map_option ((+) 8) r)))"
  by pat_completeness auto
termination by (relation "measure (\<lambda>(b, bs). length bs)") auto

declare find_quads.simps [simp del]

lemma read_quad_eq: "read_quad m p = (if p + 8 \<le> length m then Inr (le_word (take 8 (drop p m))) else Inl Out_Of_Bounds)"
  by (simp add: read_quad_def buf_read_def)

lemma quad_loop_step:
  assumes "p + 8 \<le> length m"
    and "(if f (le_word (take 8 (drop p m))) = 0 then None else Some (ctz (f (le_word (take 8 (drop p m)))) div 8)) = r"
  shows "quad_loop f m p =
    (if \<forall>x \<in> set (take 8 (drop p m)). x = 0 then Inr None
     else case r of Some i \<Rightarrow> Inr (Some (p, i)) | None \<Rightarrow> quad_loop f m (p + 8))"
  using assms le_word_eq_0 [of "take 8 (drop p m)"]
  by (auto simp: quad_loop.simps [of f m p] read_quad_eq)

definition search_word :: "u8 \<Rightarrow> u64 \<Rightarrow> u64" where
  "search_word b w = U64_HAS_BYTE (w XOR U64_BIT_LOW_MASK * ucast b)"

lemma search_word_find:
  assumes "p + 8 \<le> length m"
  shows "(if search_word b (le_word (take 8 (drop p m))) = 0 then None
      else Some (ctz (search_word b (le_word (take 8 (drop p m)))) div 8)) = find (\<lambda>i. m ! (p + i) = b) [0..<8]"
proof -
  have "length (take 8 (drop p m)) = 8" using assms by simp
  from U64_HAS_BYTE_find [OF this, of b] have "(if search_word b (le_word (take 8 (drop p m))) = 0 then None
      else Some (ctz (search_word b (le_word (take 8 (drop p m)))) div 8)) = find (\<lambda>i. take 8 (drop p m) ! i = b) [0..<8]"
    unfolding search_word_def .
  moreover have "find (\<lambda>i. take 8 (drop p m) ! i = b) [0..<8] = find (\<lambda>i. m ! (p + i) = b) [0..<8]"
    using assms by (intro find_cong) auto
  ultimately show ?thesis by simp
qed

lemma quad_loop_search:
  "and_then (quad_loop (search_word b) m p) (\<lambda>r. Inr (map_option (\<lambda>(q, i). q + i) r)) =
    and_then (find_quads b (drop p m)) (\<lambda>r. Inr (map_option ((+) p) r))"
proof (induction "length m - p" arbitrary: p rule: less_induct)
  case less
  show ?case
  proof (cases "p + 8 \<le> length m")
    case False
    then show ?thesis
      by (simp add: quad_loop.simps [of _ m p] read_quad_eq find_quads.simps [of b "drop p m"])
  next
    case True
    note step = quad_loop_step [where f = "search_word b", OF True search_word_find [OF True, of b]]
    have find: "find_quads b (drop p m) =
      (if \<forall>x \<in> set (take 8 (drop p m)). x = 0 then Inr None
       else case find (\<lambda>i. m ! (p + i) = b) [0..<8] of Some i \<Rightarrow> Inr (Some i)
         | None \<Rightarrow> and_then (find_quads b (drop (p + 8) m)) (\<lambda>r. Inr (map_option ((+) 8) r)))"
      using True by (simp add: find_quads.simps [of b "drop p m"] add.commute not_less le_diff_conv2 split: option.split)
    have IH: "and_then (quad_loop (search_word b) m (p + 8)) (\<lambda>r. Inr (map_option (\<lambda>(q, i). q + i) r)) =
      and_then (find_quads b (drop (p + 8) m)) (\<lambda>r. Inr (map_option ((+) (p + 8)) r))"
      using True by (intro less) auto
    have "(+) (p + 8) = (\<lambda>i. p + (8 + i))" by auto
    note IH = IH [unfolded this]
    show ?thesis
      unfolding step find
      by (simp add: IH and_then_assoc option.map_comp o_def add.assoc split: option.split)
  qed
qed

lemma u64_byte_search_eq:
  "u64_byte_search b instr = and_then (find_quads b (drop (u_ptr instr) (u_guest instr))) (\<lambda>r.
     Inr (case r of None \<Rightarrow> (False, instr) | Some i \<Rightarrow> (True, instr\<lparr>u_ptr := u_ptr instr + i\<rparr>)))"
proof -
  let ?g = "\<lambda>r. Inr (case r of None \<Rightarrow> (False, instr) | Some q \<Rightarrow> (True, instr\<lparr>u_ptr := q\<rparr>)) :: (bool \<times> mte_u64_instr) res"
  have "u64_byte_search b instr =
    and_then (and_then (quad_loop (search_word b) (u_guest instr) (u_ptr instr)) (\<lambda>r. Inr (map_option (\<lambda>(q, i). q + i) r))) ?g"
    unfolding u64_byte_search_def Let_def search_word_def [symmetric] and_then_assoc
    by (rule arg_cong [where f = "and_then _"]) (auto split: option.split)
  also have "\<dots> = and_then (find_quads b (drop (u_ptr instr) (u_guest instr))) (\<lambda>r.
     Inr (case r of None \<Rightarrow> (False, instr) | Some i \<Rightarrow> (True, instr\<lparr>u_ptr := u_ptr instr + i\<rparr>)))"
    unfolding quad_loop_search and_then_assoc
    by (rule arg_cong [where f = "and_then _"]) (auto split: option.split)
  finally show ?thesis .
qed

text \<open>The first position of a byte.\<close>

definition index_of :: "'a \<Rightarrow> 'a list \<Rightarrow> nat option" where
  "index_of b xs = find (\<lambda>i. xs ! i = b) [0..<length xs]"

lemma index_of_append:
  "index_of b (xs @ ys) = (case index_of b xs of Some i \<Rightarrow> Some i | None \<Rightarrow> map_option ((+) (length xs)) (index_of b ys))"
proof (cases "index_of b xs")
  case (Some i)
  then have "i < length xs" "xs ! i = b" "\<forall>j < i. xs ! j \<noteq> b" by (auto simp: index_of_def find_upt_Some)
  then have "index_of b (xs @ ys) = Some i" by (auto simp: index_of_def find_upt_Some nth_append)
  with Some show ?thesis by simp
next
  case None
  then have none: "xs ! j \<noteq> b" if "j < length xs" for j using that by (auto simp: index_of_def find_None_iff)
  show ?thesis
  proof (cases "index_of b ys")
    case None
    then have "ys ! j \<noteq> b" if "j < length ys" for j using that by (auto simp: index_of_def find_None_iff)
    with none have "index_of b (xs @ ys) = None" by (auto simp: index_of_def find_None_iff nth_append)
    with \<open>index_of b xs = None\<close> None show ?thesis by simp
  next
    case (Some i)
    then have "i < length ys" "ys ! i = b" "\<forall>j < i. ys ! j \<noteq> b" by (auto simp: index_of_def find_upt_Some)
    with none have "index_of b (xs @ ys) = Some (length xs + i)"
      by (auto simp: index_of_def find_upt_Some nth_append)
    with \<open>index_of b xs = None\<close> Some show ?thesis by simp
  qed
qed

lemma index_of_None: "index_of b xs = None \<longleftrightarrow> b \<notin> set xs"
  by (auto simp: index_of_def find_None_iff in_set_conv_nth)

lemma find_quads_step:
  assumes "8 \<le> length bs" "\<not> (\<forall>x \<in> set (take 8 bs). x = 0)"
  shows "find_quads b bs = (case index_of b (take 8 bs) of Some i \<Rightarrow> Inr (Some i)
    | None \<Rightarrow> and_then (find_quads b (drop 8 bs)) (\<lambda>r. Inr (map_option ((+) 8) r)))"
proof -
  have "find (\<lambda>i. bs ! i = b) [0..<8] = index_of b (take 8 bs)"
    using assms(1) unfolding index_of_def by (intro find_cong) auto
  moreover have "\<not> length bs < 8" using assms(1) by simp
  ultimately show ?thesis by (simp only: find_quads.simps [of b bs] assms(2) if_False)
qed

text \<open>
  The reference on a string without zero bytes, padded to whole quads by whatever bytes, and one quad
  behind it: the first occurrence in all of it, or nothing when the last quad is zero, or a read behind the end.
\<close>

lemma find_quads_last:
  assumes "length q = 8" "b \<noteq> 0"
  shows "find_quads b q = (case index_of b q of Some i \<Rightarrow> Inr (Some i)
    | None \<Rightarrow> if \<forall>x \<in> set q. x = 0 then Inr None else Inl Out_Of_Bounds)"
proof (cases "\<forall>x \<in> set q. x = 0")
  case True
  then have "index_of b q = None" using assms(2) by (auto simp: index_of_None)
  with True assms(1) show ?thesis by (simp add: find_quads.simps [of b q])
next
  case False
  with find_quads_step [of q b] assms(1) show ?thesis
    by (simp add: find_quads.simps [of b "[]"] split: option.split)
qed

lemma find_quads_padded:
  assumes "0 \<notin> set str" "b \<noteq> 0" "length q = 8" "length pad < 8" "length (str @ pad) mod 8 = 0"
  shows "find_quads b (str @ pad @ q) = (case index_of b (str @ pad @ q) of Some i \<Rightarrow> Inr (Some i)
    | None \<Rightarrow> if \<forall>x \<in> set q. x = 0 then Inr None else Inl Out_Of_Bounds)"
  using assms
proof (induction "length str" arbitrary: str rule: less_induct)
  case less
  let ?bs = "str @ pad @ q"
  show ?case
  proof (cases "str = []")
    case True
    with less.prems have "pad = []" by simp
    with True less.prems(2,3) show ?thesis by (simp add: find_quads_last)
  next
    case False
    obtain k where k: "length str + length pad = 8 * k" using less.prems(5) by (auto elim: dvdE simp: mod_eq_0_iff_dvd)
    with False have k0: "0 < k" by (cases k) simp_all
    have nz: "\<not> (\<forall>x \<in> set (take 8 ?bs). x = 0)" using less.prems(1) False by (cases str) auto
    have rest: "find_quads b (drop 8 ?bs) = (case index_of b (drop 8 ?bs) of Some i \<Rightarrow> Inr (Some i)
        | None \<Rightarrow> if \<forall>x \<in> set q. x = 0 then Inr None else Inl Out_Of_Bounds)"
    proof (cases "8 \<le> length str")
      case True
      then have "length (drop 8 str @ pad) mod 8 = 0" using k k0 by (cases k) simp_all
      moreover have "0 \<notin> set (drop 8 str)" using less.prems(1) by (auto dest: in_set_dropD)
      ultimately show ?thesis using less.hyps [of "drop 8 str"] less.prems(2-4) True False by simp
    next
      case False
      then have "8 * k < 16" using k less.prems(4) by linarith
      with k k0 have "length str + length pad = 8" by simp
      then have "drop 8 ?bs = q" by simp
      with find_quads_last [OF less.prems(3,2)] show ?thesis by simp
    qed
    have "8 \<le> length ?bs" using less.prems(3) by simp
    from find_quads_step [OF this nz, of b] this
    have "find_quads b ?bs = (case index_of b (take 8 ?bs @ drop 8 ?bs) of Some i \<Rightarrow> Inr (Some i)
        | None \<Rightarrow> if \<forall>x \<in> set q. x = 0 then Inr None else Inl Out_Of_Bounds)"
      unfolding rest index_of_append
      by (simp del: take_append drop_append append_take_drop_id split: option.split)
    then show ?thesis unfolding append_take_drop_id .
  qed
qed

text \<open>The number of quads of a string.\<close>

lemma quads_round: "(m + 7) div 8 = (if m mod 8 = 0 then m div 8 else m div 8 + 1)" for m :: nat
proof -
  have "(m mod 8 + 7 + 8 * (m div 8)) div 8 = m div 8 + (m mod 8 + 7) div 8" by (rule div_mult_self2) simp
  moreover have "m mod 8 + 7 + 8 * (m div 8) = m + 7" using mult_div_mod_eq [of 8 m] by linarith
  moreover have "(m mod 8 + 7) div 8 = 1" if "m mod 8 \<noteq> 0"
    using that mod_less_divisor [of 8 m, OF zero_less_numeral] by (intro div_nat_eqI) auto
  ultimately show ?thesis by simp
qed

lemma quads_of:
  fixes len :: u64
  assumes "unat len < 2 ^ 32"
  shows "unat (ucast (len div 8 + (if len mod 8 = 0 then 0 else 1)) + 1 :: u32) = (unat len + 7) div 8 + 1"
proof -
  have zero: "len mod 8 = 0 \<longleftrightarrow> unat len mod 8 = 0" by (simp add: word_unat_eq_iff unat_mod)
  have "unat (len div 8 + (if len mod 8 = 0 then 0 else 1)) = (unat len + 7) div 8"
    using assms by (simp add: zero quads_round unat_word_ariths unat_div)
  moreover have "(unat len + 7) div 8 < 2 ^ 30" using assms by simp
  ultimately show ?thesis by (simp add: unat_word_ariths unsigned_ucast_eq take_bit_nat_eq_self)
qed

lemma str_to_u64_copy:
  assumes "length str = unat len" "unat len < 2 ^ 32" "\<And>n. length (axmalloc n) = n"
  obtains pad q where "length pad < 8" "length q = 8" "length (str @ pad) mod 8 = 0"
    "pad @ q = drop (length str) (axmalloc (length str + length (pad @ q)))"
    "str_to_u64 axmalloc str len =
      Inr \<lparr>u_len = ucast (len div 8 + (if len mod 8 = 0 then 0 else 1)), u_ptr = 0, u_guest = str @ pad @ q\<rparr>"
proof -
  define k where "k = (unat len + 7) div 8"
  have k: "unat len \<le> 8 * k" "8 * k < unat len + 8" unfolding k_def by arith+
  define spare where "spare = drop (unat len) (axmalloc (8 * (k + 1)))"
  have len: "length spare = 8 * (k + 1) - unat len" using assms(3) by (simp add: spare_def)
  have buf: "str_to_u64 axmalloc str len =
      Inr \<lparr>u_len = ucast (len div 8 + (if len mod 8 = 0 then 0 else 1)), u_ptr = 0, u_guest = str @ spare\<rparr>"
    unfolding str_to_u64_def Let_def quads_of [OF assms(2)] k_def [symmetric]
    using assms(1,3) k by (simp add: buf_read_def buf_write_def mult.commute spare_def)
  have whole: "length str + length spare = 8 * (k + 1)" using len k assms(1) by simp
  show ?thesis
  proof (rule that [of "take (8 * k - unat len) spare" "drop (8 * k - unat len) spare"])
    show "take (8 * k - unat len) spare @ drop (8 * k - unat len) spare =
        drop (length str) (axmalloc (length str + length (take (8 * k - unat len) spare @ drop (8 * k - unat len) spare)))"
      unfolding append_take_drop_id whole using assms(1) by (simp add: spare_def)
  qed (use len k assms(1) buf in simp_all)
qed

section \<open>Properties\<close>

text \<open>
  C40: the search with word arithmetic. \<^verbatim>\<open>_str_to_u64\<close> copies a string of less than \<^verbatim>\<open>2^32\<close> bytes, none of
  them zero, into new memory whose contents \<open>axmalloc\<close> chooses, and leaves the bytes behind it, at least eight, as
  they are. For a byte other than 0 that occurs in the string \<^verbatim>\<open>_u64_byte_search\<close> stops at its first occurrence,
  whatever those bytes are. For one that does not occur the result depends on them: it stops at the first of them
  that is the byte; otherwise it returns false and leaves the pointer if the last eight are zero, and reads behind
  the end of the buffer if they are not. In general, from any position of any buffer, the function is the search
  byte by byte, eight bytes at a time.
\<close>

theorem u64_byte_search_first:
  assumes "length str = unat len" "unat len < 2 ^ 32" "0 \<notin> set str" "b \<noteq> 0" "\<And>n. length (axmalloc n) = n"
  shows "(\<exists>s spare. str_to_u64 axmalloc str len = Inr s \<and> u_ptr s = 0 \<and> u_guest s = str @ spare \<and>
      8 \<le> length spare \<and> spare = drop (length str) (axmalloc (length str + length spare)) \<and>
      u64_byte_search b s = (case index_of b str of Some i \<Rightarrow> Inr (True, s\<lparr>u_ptr := i\<rparr>)
        | None \<Rightarrow> (case index_of b spare of Some i \<Rightarrow> Inr (True, s\<lparr>u_ptr := length str + i\<rparr>)
        | None \<Rightarrow> if \<forall>x \<in> set (drop (length spare - 8) spare). x = 0 then Inr (False, s) else Inl Out_Of_Bounds))) \<and>
    (\<forall>c instr. u64_byte_search c instr = and_then (find_quads c (drop (u_ptr instr) (u_guest instr))) (\<lambda>r.
       Inr (case r of None \<Rightarrow> (False, instr) | Some i \<Rightarrow> (True, instr\<lparr>u_ptr := u_ptr instr + i\<rparr>))))"
proof (intro conjI allI u64_byte_search_eq)
  obtain pad q s where copy: "length pad < 8" "length q = 8" "length (str @ pad) mod 8 = 0"
    "pad @ q = drop (length str) (axmalloc (length str + length (pad @ q)))"
    "str_to_u64 axmalloc str len = Inr s" "u_ptr s = 0" "u_guest s = str @ pad @ q"
    using str_to_u64_copy [OF assms(1,2,5)] by (metis mte_u64_instr.select_convs(2,3))
  define spare where "spare = pad @ q"
  have spare: "8 \<le> length spare" "drop (length spare - 8) spare = q" using copy(2) by (simp_all add: spare_def)
  note copy = copy [folded spare_def]
  have "u64_byte_search b s = (case index_of b str of Some i \<Rightarrow> Inr (True, s\<lparr>u_ptr := i\<rparr>)
        | None \<Rightarrow> (case index_of b spare of Some i \<Rightarrow> Inr (True, s\<lparr>u_ptr := length str + i\<rparr>)
        | None \<Rightarrow> if \<forall>x \<in> set (drop (length spare - 8) spare). x = 0 then Inr (False, s) else Inl Out_Of_Bounds))"
    unfolding spare(2) using find_quads_padded [OF assms(3,4) copy(2,1,3), folded spare_def] copy(6,7)
    by (simp add: u64_byte_search_eq index_of_append [of b str] split: option.split)
  then show "\<exists>s spare. str_to_u64 axmalloc str len = Inr s \<and> u_ptr s = 0 \<and> u_guest s = str @ spare \<and>
      8 \<le> length spare \<and> spare = drop (length str) (axmalloc (length str + length spare)) \<and>
      u64_byte_search b s = (case index_of b str of Some i \<Rightarrow> Inr (True, s\<lparr>u_ptr := i\<rparr>)
        | None \<Rightarrow> (case index_of b spare of Some i \<Rightarrow> Inr (True, s\<lparr>u_ptr := length str + i\<rparr>)
        | None \<Rightarrow> if \<forall>x \<in> set (drop (length spare - 8) spare). x = 0 then Inr (False, s) else Inl Out_Of_Bounds))"
    by (intro exI [of _ s] exI [of _ spare] conjI copy(4-7) spare(1))
qed

theorem u64_byte_search_first_witness:
  "(\<exists>s. str_to_u64 (\<lambda>n. replicate n 0xcc) [0x61, 0x62, 0x63, 0x64, 0x65, 0x66, 0x67, 0x68, 0x69, 0x62] 10 = Inr s \<and>
     u64_byte_search 0x69 s = Inr (True, s\<lparr>u_ptr := 8\<rparr>)) \<and>
   (\<exists>s. str_to_u64 (\<lambda>n. replicate n 0xcc) [0x61, 0x62] 2 = Inr s \<and> u64_byte_search 0x69 s = Inl Out_Of_Bounds)"
proof
  have "index_of 0x69 [0x61, 0x62, 0x63, 0x64, 0x65, 0x66, 0x67, 0x68, 0x69, 0x62 :: u8] = Some 8"
    by (simp add: index_of_def upt_rec)
  with u64_byte_search_first [of "[0x61, 0x62, 0x63, 0x64, 0x65, 0x66, 0x67, 0x68, 0x69, 0x62]" 10 "0x69"
      "\<lambda>n. replicate n 0xcc", THEN conjunct1]
  show "\<exists>s. str_to_u64 (\<lambda>n. replicate n 0xcc) [0x61, 0x62, 0x63, 0x64, 0x65, 0x66, 0x67, 0x68, 0x69, 0x62] 10 = Inr s \<and>
     u64_byte_search 0x69 s = Inr (True, s\<lparr>u_ptr := 8\<rparr>)" by auto
  obtain s spare where s: "str_to_u64 (\<lambda>n. replicate n 0xcc) [0x61, 0x62] 2 = Inr s"
    "8 \<le> length spare" "spare = drop 2 (replicate (2 + length spare) 0xcc)"
    "u64_byte_search 0x69 s = (case index_of 0x69 [0x61, 0x62 :: u8] of Some i \<Rightarrow> Inr (True, s\<lparr>u_ptr := i\<rparr>)
        | None \<Rightarrow> (case index_of (0x69 :: u8) spare of Some i \<Rightarrow> Inr (True, s\<lparr>u_ptr := length [0x61, 0x62 :: u8] + i\<rparr>)
        | None \<Rightarrow> if \<forall>x \<in> set (drop (length spare - 8) spare). x = 0 then Inr (False, s) else Inl Out_Of_Bounds))"
    using u64_byte_search_first [of "[0x61, 0x62]" 2 "0x69" "\<lambda>n. replicate n 0xcc", THEN conjunct1] by auto
  define n where "n = length spare"
  then have n: "8 \<le> n" "spare = replicate n 0xcc" using s(2,3) by simp_all
  then have "index_of 0x69 spare = None" "index_of 0x69 [0x61, 0x62 :: u8] = None"
    "\<not> (\<forall>x \<in> set (drop (length spare - 8) spare). x = 0)"
    by (auto simp: index_of_None)
  with s(1,4) show "\<exists>s. str_to_u64 (\<lambda>n. replicate n 0xcc) [0x61, 0x62] 2 = Inr s \<and> u64_byte_search 0x69 s = Inl Out_Of_Bounds"
    by auto
qed

section \<open>The other helpers\<close>

lemma find_not_borrows:
  assumes "length xs = 8"
  shows "find (\<lambda>i. \<not> borrows False xs ! i) [0..<8] =
    (let k = (if xs ! 0 = 0 then length (takeWhile (\<lambda>x. x = 0 \<or> x = 1) xs) else 0) in if k < 8 then Some k else None)"
proof -
  have run: "c \<Longrightarrow> i \<le> length (takeWhile (\<lambda>x. x = 0 \<or> x = 1) xs) \<Longrightarrow> i < length xs \<Longrightarrow>
      borrows c xs ! i \<longleftrightarrow> i < length (takeWhile (\<lambda>x. x = 0 \<or> x = 1) xs)" for c i and xs :: "u8 list"
  proof (induction xs arbitrary: c i)
    case (Cons x xs)
    then show ?case by (cases i) (auto simp: Let_def split: if_splits)
  qed simp
  from assms obtain x ys where xs: "xs = x # ys" "length ys = 7" by (cases xs) auto
  let ?k = "length (takeWhile (\<lambda>x. x = 0 \<or> x = 1) xs)"
  show ?thesis
  proof (cases "x = 0")
    case False
    then have "find (\<lambda>i. \<not> borrows False xs ! i) [0..<8] = Some 0" by (simp add: find_upt_Some xs Let_def)
    with False show ?thesis by (simp add: xs)
  next
    case True
    then have "borrows False xs = borrows True xs" by (simp add: xs)
    then have flag: "borrows False xs ! i \<longleftrightarrow> i < ?k" if "i \<le> ?k" "i < 8" for i
      using run [of True i xs] that assms by simp
    show ?thesis
    proof (cases "?k < 8")
      case True
      then have "find (\<lambda>i. \<not> borrows False xs ! i) [0..<8] = Some ?k" using flag by (simp add: find_upt_Some)
      with True \<open>x = 0\<close> show ?thesis by (simp add: xs Let_def)
    next
      case False
      then have "find (\<lambda>i. \<not> borrows False xs ! i) [0..<8] = None" using flag by (simp add: find_None_iff)
      with False \<open>x = 0\<close> show ?thesis by (simp add: xs Let_def)
    qed
  qed
qed

lemma word_xor_eq: "x XOR b = y \<longleftrightarrow> x = b XOR y" for x b y :: "'a::len word"
proof -
  have "x XOR b = y \<longleftrightarrow> (x XOR b) XOR y = 0" by (simp only: word_xor_eq_0)
  also have "\<dots> \<longleftrightarrow> x XOR (b XOR y) = 0" by (simp only: xor.assoc)
  also have "\<dots> \<longleftrightarrow> x = b XOR y" by (rule word_xor_eq_0)
  finally show ?thesis .
qed

lemma skip_word_find:
  fixes b :: u8
  assumes "length xs = 8"
  shows "(if U64_HAS_BYTE (le_word xs XOR U64_BIT_LOW_MASK * ucast b) XOR U64_BIT_HIGH_MASK = 0 then None
      else Some (ctz (U64_HAS_BYTE (le_word xs XOR U64_BIT_LOW_MASK * ucast b) XOR U64_BIT_HIGH_MASK) div 8)) =
    (let k = (if xs ! 0 = b then length (takeWhile (\<lambda>x. x = b \<or> x = b XOR 1) xs) else 0) in if k < 8 then Some k else None)"
proof -
  let ?ys = "map (\<lambda>x. x XOR b) xs"
  have "bit (U64_HAS_BYTE (le_word ?ys) XOR U64_BIT_HIGH_MASK) n \<longleftrightarrow> n < 64 \<and> n mod 8 = 7 \<and> \<not> borrows False ?ys ! (n div 8)" for n
    using assms by (auto simp: bit_xor_iff bit_high bit_U64_HAS_BYTE)
  note flags = ctz_flags [OF this]
  have "?ys ! 0 = 0 \<longleftrightarrow> xs ! 0 = b" using assms by (simp add: word_xor_eq_0)
  moreover have "length (takeWhile (\<lambda>x. x = 0 \<or> x = 1) ?ys) = length (takeWhile (\<lambda>x. x = b \<or> x = b XOR 1) xs)"
    by (simp add: takeWhile_map o_def word_xor_eq)
  ultimately show ?thesis
    using find_not_borrows [of ?ys] assms unfolding le_word_xor [OF assms] flags by simp
qed

text \<open>
  \<^verbatim>\<open>_u64_byte_skip\<close> skips, within a quad, not only the byte it is given: behind a first occurrence the byte that
  differs from it in the lowest bit counts as the same, because the borrow of the subtraction goes on.
\<close>

theorem u64_byte_skip_run:
  assumes "u_ptr s + 8 \<le> length (u_guest s)" "\<exists>x \<in> set (take 8 (drop (u_ptr s) (u_guest s))). x \<noteq> 0"
    and "length (takeWhile (\<lambda>x. x = b \<or> x = b XOR 1) (take 8 (drop (u_ptr s) (u_guest s)))) < 8"
  shows "u64_byte_skip b s = Inr (s\<lparr>u_ptr := u_ptr s +
    (if u_guest s ! u_ptr s = b
     then length (takeWhile (\<lambda>x. x = b \<or> x = b XOR 1) (take 8 (drop (u_ptr s) (u_guest s)))) else 0)\<rparr>)"
proof -
  let ?xs = "take 8 (drop (u_ptr s) (u_guest s))"
  have "length ?xs = 8" using assms(1) by simp
  note step = quad_loop_step [where f = "\<lambda>w. U64_HAS_BYTE (w XOR U64_BIT_LOW_MASK * ucast b) XOR U64_BIT_HIGH_MASK",
      OF assms(1) skip_word_find [OF this]]
  have "\<not> (\<forall>x \<in> set ?xs. x = 0)" "?xs ! 0 = u_guest s ! u_ptr s" using assms(1,2) by auto
  then show ?thesis using assms(3) unfolding u64_byte_skip_def Let_def step by auto
qed

theorem u64_byte_skip_run_witness:
  "u64_byte_skip 0x20 \<lparr>u_len = 1, u_ptr = 0, u_guest = [0x20, 0x21, 0x61, 0x62, 0x63, 0, 0, 0]\<rparr> =
     Inr \<lparr>u_len = 1, u_ptr = 2, u_guest = [0x20, 0x21, 0x61, 0x62, 0x63, 0, 0, 0]\<rparr>"
  using u64_byte_skip_run [of "\<lparr>u_len = 1, u_ptr = 0, u_guest = [0x20, 0x21, 0x61, 0x62, 0x63, 0, 0, 0]\<rparr>" "0x20"] by simp

text \<open>\<^verbatim>\<open>_u64_slen\<close> does not count the quads it passes: the length it returns is the one modulo 8.\<close>

lemma quad_loop_length:
  assumes "p + 8 * (n div 8) + 8 \<le> length m" "m ! (p + n) = 0" "\<And>j. j < n \<Longrightarrow> m ! (p + j) \<noteq> 0"
  shows "quad_loop (search_word 0) m p = Inr (if \<forall>x \<in> set (take 8 (drop (p + 8 * (n div 8)) m)). x = 0 then None
    else Some (p + 8 * (n div 8), n mod 8))"
  using assms
proof (induction "n div 8" arbitrary: p n)
  case 0
  then have n: "n < 8" "n div 8 = 0" "n mod 8 = n" "p + 8 \<le> length m" by (simp_all add: div_eq_0_iff)
  have "find (\<lambda>i. m ! (p + i) = 0) [0..<8] = Some n" using 0 n by (simp add: find_upt_Some)
  then show ?case unfolding quad_loop_step [where f = "search_word 0", OF n(4) search_word_find [OF n(4)]] n(2,3) by simp
next
  case (Suc k)
  then have n: "8 \<le> n" "n div 8 = Suc k" "(n - 8) div 8 = k" "(n - 8) mod 8 = n mod 8"
    by (simp_all add: le_div_geq le_mod_geq)
  have p8: "p + 8 \<le> length m" using Suc.prems(1) n(2) by simp
  have "find (\<lambda>i. m ! (p + i) = 0) [0..<8] = None" using Suc.prems(3) n(1) by (auto simp: find_None_iff)
  moreover have "m ! p \<in> set (take 8 (drop p m))" using p8 by (auto simp: in_set_conv_nth intro!: exI [of _ 0])
  moreover have "m ! p \<noteq> 0" using Suc.prems(3) [of 0] n(1) by simp
  ultimately have "quad_loop (search_word 0) m p = quad_loop (search_word 0) m (p + 8)"
    unfolding quad_loop_step [where f = "search_word 0", OF p8 search_word_find [OF p8]] by auto
  also have "\<dots> = Inr (if \<forall>x \<in> set (take 8 (drop (p + 8 + 8 * ((n - 8) div 8)) m)). x = 0 then None
    else Some (p + 8 + 8 * ((n - 8) div 8), (n - 8) mod 8))"
  proof (rule Suc.hyps)
    show "k = (n - 8) div 8" using n by simp
    show "p + 8 + 8 * ((n - 8) div 8) + 8 \<le> length m" using Suc.prems(1) n by simp
    show "m ! (p + 8 + (n - 8)) = 0" using Suc.prems(2) n(1) by (simp add: add.assoc)
    show "m ! (p + 8 + j) \<noteq> 0" if "j < n - 8" for j using Suc.prems(3) [of "8 + j"] that by (simp add: add.assoc)
  qed
  finally show ?case using n by (simp add: add.assoc)
qed

theorem u64_slen_mod_8:
  assumes "p + 8 * (n div 8) + 8 \<le> length m" "m ! (p + n) = 0" "\<And>j. j < n \<Longrightarrow> m ! (p + j) \<noteq> 0"
  shows "u64_slen m p = Inr (of_nat (n mod 8))"
proof -
  let ?q = "p + 8 * (n div 8)"
  have "n mod 8 = 0" if zero: "\<forall>x \<in> set (take 8 (drop ?q m)). x = 0"
  proof (rule ccontr)
    assume "n mod 8 \<noteq> 0"
    then have "8 * (n div 8) < n" using mult_div_mod_eq [of 8 n] by linarith
    then have "m ! ?q \<noteq> 0" by (rule assms(3))
    moreover have "m ! ?q \<in> set (take 8 (drop ?q m))" using assms(1) by (auto simp: in_set_conv_nth intro!: exI [of _ 0])
    ultimately show False using zero by blast
  qed
  moreover have "(\<lambda>w. U64_HAS_BYTE (w XOR U64_BIT_LOW_MASK * 0)) = search_word 0"
    by (simp add: search_word_def fun_eq_iff)
  ultimately show ?thesis
    using quad_loop_length [OF assms] unfolding u64_slen_def Let_def by auto
qed

theorem u64_slen_mod_8_witness:
  "u64_slen [0x61, 0x62, 0x63, 0x64, 0x65, 0x66, 0x67, 0x68, 0x69, 0, 0, 0, 0, 0, 0, 0] 0 = Inr 1"
proof -
  let ?m = "[0x61, 0x62, 0x63, 0x64, 0x65, 0x66, 0x67, 0x68, 0x69, 0, 0, 0, 0, 0, 0, 0] :: u8 list"
  have "j < 9 \<Longrightarrow> ?m ! j \<noteq> 0" for j by (simp add: nth_Cons' split: if_splits)
  then show ?thesis using u64_slen_mod_8 [of 0 9 ?m] by simp
qed

end
