(* ===== verification/Perf.thy ===== *)
theory Perf
  imports Prelude
begin

text \<open>
  The frequency measurements of \<^verbatim>\<open>perf.h\<close> and \<^verbatim>\<open>perf_win64.c\<close>. Floating point numbers are a type of their own
  whose operations are parameters (\<open>fp\<close>). The readings of the counters and the results of the calls of the
  system during the \<open>n\<close>-th measurement are the parameters \<open>tsc_readings n\<close> and \<open>cpu_readings n\<close>. The macros that print
  times have no effect on the state and are left out.
\<close>

section \<open>Data\<close>

record 'd fp =
  f_of_int :: "int \<Rightarrow> 'd"
  f_div :: "'d \<Rightarrow> 'd \<Rightarrow> 'd"

text \<open>One run of \<^verbatim>\<open>perf_measure_tsc\<close>: which of the three queries succeed, and what the counters hold.\<close>

record tsc_reading =
  qpf_ok :: bool
  qpf :: int
  qpc_start_ok :: bool
  qpc_start :: int
  qpc_end_ok :: bool
  qpc_end :: int
  tsc_start :: u64
  tsc_end :: u64

text \<open>One run of \<^verbatim>\<open>perf_measure_cpu\<close>: which of the calls that are checked return \<^verbatim>\<open>ERROR_SUCCESS\<close>, and the value.\<close>

record 'd cpu_reading =
  pdh_open :: bool
  pdh_add :: bool
  pdh_collect :: bool
  pdh_format :: bool
  pdh_value :: 'd

record 'd perf_env =
  fp_ops :: "'d fp"
  tsc_readings :: "nat \<Rightarrow> tsc_reading"
  cpu_readings :: "nat \<Rightarrow> 'd cpu_reading"

text \<open>The two frequencies, and how often each has been measured.\<close>

record 'd perf_state =
  inl_perf_tsc_freq :: 'd
  inl_perf_cpu_freq :: 'd
  tsc_runs :: nat
  cpu_runs :: nat

section \<open>Measuring (perf_win64.c)\<close>

definition perf_measure_tsc :: "'d perf_env \<Rightarrow> 'd perf_state \<Rightarrow> 'd perf_state res" where
  "perf_measure_tsc env s =
    (let r = tsc_readings env (tsc_runs s); o' = fp_ops env in
     and_then (asrt (qpf_ok r)) (\<lambda>_. and_then (asrt (qpc_start_ok r)) (\<lambda>_. and_then (asrt (qpc_end_ok r)) (\<lambda>_.
       let qpc_seconds = f_div o' (f_of_int o' (qpc_end r - qpc_start r)) (f_of_int o' (qpf r))
       in Inr (s\<lparr>inl_perf_tsc_freq :=
            f_div o' (f_div o' (f_of_int o' (uint (tsc_end r - tsc_start r))) qpc_seconds) (f_of_int o' 1000000),
            tsc_runs := tsc_runs s + 1\<rparr>)))))"

text \<open>The loop \<^verbatim>\<open>while(i++ < 100000)\<close> of the thread that keeps the processor busy, from a value of \<open>i\<close> on.\<close>

function cpu_stress_loop :: "u32 \<Rightarrow> u32" where
  "cpu_stress_loop i = (if i < 100000 then cpu_stress_loop (i + 1) else i + 1)"
  by pat_completeness auto
termination
proof (relation "measure (\<lambda>i. 100000 - unat i)")
  fix i :: u32 assume i: "i < 100000"
  then have "unat (i + 1) = unat i + 1" "unat i < 100000"
    by (simp_all add: word_less_nat_alt unat_word_ariths)
  then show "(i + 1, i) \<in> measure (\<lambda>i. 100000 - unat i)" by simp
qed simp

declare cpu_stress_loop.simps [simp del]

definition perf_measure_cpu_stress :: u32 where
  "perf_measure_cpu_stress = (let i = cpu_stress_loop 0 in 0)"

definition perf_measure_cpu :: "'d perf_env \<Rightarrow> 'd perf_state \<Rightarrow> 'd perf_state res" where
  "perf_measure_cpu env s =
    (let r = cpu_readings env (cpu_runs s) in
     and_then (asrt (pdh_open r)) (\<lambda>_. and_then (asrt (pdh_add r)) (\<lambda>_.
     and_then (asrt (pdh_collect r)) (\<lambda>_. and_then (asrt (pdh_format r)) (\<lambda>_.
       Inr (s\<lparr>inl_perf_cpu_freq := pdh_value r, cpu_runs := cpu_runs s + 1\<rparr>))))))"

section \<open>Reading (perf.h)\<close>

definition get_perf_cpu_freq :: "'d perf_env \<Rightarrow> 'd perf_state \<Rightarrow> ('d \<times> 'd perf_state) res" where
  "get_perf_cpu_freq env s =
    and_then (if inl_perf_cpu_freq s = f_of_int (fp_ops env) 0 then perf_measure_cpu env s else Inr s) (\<lambda>s.
      Inr (inl_perf_cpu_freq s, s))"

definition get_perf_tsc_freq :: "'d perf_env \<Rightarrow> 'd perf_state \<Rightarrow> ('d \<times> 'd perf_state) res" where
  "get_perf_tsc_freq env s =
    and_then (if inl_perf_tsc_freq s = f_of_int (fp_ops env) 0 then perf_measure_tsc env s else Inr s) (\<lambda>s.
      Inr (inl_perf_tsc_freq s, s))"

definition get_perf_cpu_tsc_ratio :: "'d perf_env \<Rightarrow> 'd perf_state \<Rightarrow> ('d \<times> 'd perf_state) res" where
  "get_perf_cpu_tsc_ratio env s =
    and_then (get_perf_cpu_freq env s) (\<lambda>(c, s). and_then (get_perf_tsc_freq env s) (\<lambda>(t, s).
      Inr (f_div (fp_ops env) c t, s)))"

section \<open>Properties\<close>

lemma cpu_stress_loop_eq: "i \<le> 100000 \<Longrightarrow> cpu_stress_loop i = 100001"
proof (induction i rule: cpu_stress_loop.induct)
  case (1 i)
  show ?case
  proof (cases "i < 100000")
    case True
    then have "i + 1 \<le> 100000" by (simp add: word_less_nat_alt word_le_nat_alt unat_word_ariths)
    with True 1 show ?thesis by (simp add: cpu_stress_loop.simps [of i])
  next
    case False
    with 1 have "i = 100000" by simp
    then show ?thesis by (simp add: cpu_stress_loop.simps [of 100000])
  qed
qed

text \<open>
  Each frequency is measured when it is first read and never again, as long as the measurement does not give 0;
  a ratio read later costs no measurement and is the same. The loop of the busy thread ends with the counter
  at 100001.
\<close>

theorem perf_measured_once:
  assumes "get_perf_cpu_tsc_ratio env s = Inr (q, s')"
    and "inl_perf_cpu_freq s' \<noteq> f_of_int (fp_ops env) 0" "inl_perf_tsc_freq s' \<noteq> f_of_int (fp_ops env) 0"
  shows "get_perf_cpu_tsc_ratio env s' = Inr (q, s') \<and> tsc_runs s' \<le> tsc_runs s + 1 \<and> cpu_runs s' \<le> cpu_runs s + 1 \<and>
    cpu_stress_loop 0 = 100001"
  using assms cpu_stress_loop_eq [of 0]
  by (auto simp: get_perf_cpu_tsc_ratio_def get_perf_cpu_freq_def get_perf_tsc_freq_def perf_measure_tsc_def
      perf_measure_cpu_def Let_def split: if_splits)

theorem perf_measured_once_witness:
  "get_perf_cpu_tsc_ratio \<lparr>fp_ops = \<lparr>f_of_int = (\<lambda>i. i), f_div = (div)\<rparr>,
      tsc_readings = (\<lambda>_. undefined), cpu_readings = (\<lambda>_. undefined)\<rparr>
      \<lparr>inl_perf_tsc_freq = 2, inl_perf_cpu_freq = 6, tsc_runs = 1, cpu_runs = 1\<rparr> =
    Inr (3 :: int, \<lparr>inl_perf_tsc_freq = 2, inl_perf_cpu_freq = 6, tsc_runs = 1, cpu_runs = 1\<rparr>)"
  using perf_measured_once [where env = "\<lparr>fp_ops = \<lparr>f_of_int = (\<lambda>i. i), f_div = (div)\<rparr>,
      tsc_readings = (\<lambda>_. undefined), cpu_readings = (\<lambda>_. undefined)\<rparr>"
      and s = "\<lparr>inl_perf_tsc_freq = 2, inl_perf_cpu_freq = 6, tsc_runs = 1, cpu_runs = 1\<rparr>" and q = "3 :: int"]
  by (simp add: get_perf_cpu_tsc_ratio_def get_perf_cpu_freq_def get_perf_tsc_freq_def)

end
