(* ===== verification/Driver.thy ===== *)
theory Driver
  imports Prelude
begin

text \<open>
  The kernel driver (\<^verbatim>\<open>win64/kernel/src\<close>): the entry and unload routines (\<^verbatim>\<open>init.c\<close>) and the handlers of
  the requests create, control and close (\<^verbatim>\<open>dispatch/drv_ioctl_*.c\<close>). The results of the operating system's
  calls, the allocator and the \<^verbatim>\<open>cpuid\<close> instruction are parameters; \<^verbatim>\<open>NT_ASSERT\<close>, which depends on the
  build, is too.
\<close>

section \<open>Status values and state\<close>

type_synonym ntstatus = u32

definition STATUS_SUCCESS :: ntstatus where "STATUS_SUCCESS = 0"
definition STATUS_NOT_IMPLEMENTED :: ntstatus where "STATUS_NOT_IMPLEMENTED = 0xC0000002"
definition STATUS_INVALID_PARAMETER_1 :: ntstatus where "STATUS_INVALID_PARAMETER_1 = 0xC00000EF"
definition STATUS_INVALID_PARAMETER_2 :: ntstatus where "STATUS_INVALID_PARAMETER_2 = 0xC00000F0"
definition STATUS_FAILED_DRIVER_ENTRY :: ntstatus where "STATUS_FAILED_DRIVER_ENTRY = 0xC0000365"

definition NT_SUCCESS :: "ntstatus \<Rightarrow> bool" where
  "NT_SUCCESS s \<longleftrightarrow> 0 \<le> sint s"

text \<open>A request: the status its completion reports, and how often it was completed.\<close>

record irp =
  io_status :: ntstatus
  completions :: nat

definition IoCompleteRequest :: "irp \<Rightarrow> irp" where
  "IoCompleteRequest i = i\<lparr>completions := completions i + 1\<rparr>"

datatype irp_major = IRP_MJ_CREATE | IRP_MJ_CLOSE | IRP_MJ_DEVICE_CONTROL
datatype dispatch = Ax_Dispatch_Create | Ax_Dispatch_Close | Ax_Dispatch_Device_Control

text \<open>What the driver registers with the system: its device, its link, and its routines.\<close>

record driver_state =
  io_device :: bool
  io_link :: bool
  drv_unload :: bool
  drv_major :: "irp_major \<Rightarrow> dispatch option"

section \<open>Entry and unload (init.c)\<close>

text \<open>
  The setup behind the first statement of \<^verbatim>\<open>DriverEntry\<close>; \<open>create\<close> and \<open>link\<close> are the results of
  \<^verbatim>\<open>IoCreateDevice\<close> and \<^verbatim>\<open>IoCreateSymbolicLink\<close>.
\<close>

definition driver_setup :: "ntstatus \<Rightarrow> ntstatus \<Rightarrow> driver_state \<Rightarrow> ntstatus \<times> driver_state" where
  "driver_setup create link s =
    (if \<not> NT_SUCCESS create then (STATUS_FAILED_DRIVER_ENTRY, s)
     else
      (let s1 = s\<lparr>io_device := True\<rparr>
       in if \<not> NT_SUCCESS link then (STATUS_FAILED_DRIVER_ENTRY, s1\<lparr>io_device := False\<rparr>)
          else (STATUS_SUCCESS,
            s1\<lparr>io_link := True, drv_unload := True,
               drv_major := (drv_major s1)(IRP_MJ_DEVICE_CONTROL \<mapsto> Ax_Dispatch_Device_Control,
                 IRP_MJ_CREATE \<mapsto> Ax_Dispatch_Create, IRP_MJ_CLOSE \<mapsto> Ax_Dispatch_Close)\<rparr>)))"

definition DriverEntry :: "ntstatus \<Rightarrow> ntstatus \<Rightarrow> driver_state \<Rightarrow> ntstatus \<times> driver_state" where
  "DriverEntry create link s =
    (if (1 :: int) \<noteq> 0 then (STATUS_NOT_IMPLEMENTED, s) else driver_setup create link s)"

definition DriverUnload :: "driver_state \<Rightarrow> driver_state" where
  "DriverUnload s = s\<lparr>io_device := False, io_link := False\<rparr>"

section \<open>Request handlers\<close>

definition AxDispatchClose :: "(bool \<Rightarrow> unit res) \<Rightarrow> 'd option \<Rightarrow> irp option \<Rightarrow> (ntstatus \<times> irp option) res" where
  "AxDispatchClose nt_assert device request =
    and_then (nt_assert (device \<noteq> None)) (\<lambda>_. and_then (nt_assert (request \<noteq> None)) (\<lambda>_.
    and_then (deref request) (\<lambda>i.
      Inr (STATUS_SUCCESS, Some (IoCompleteRequest (i\<lparr>io_status := STATUS_SUCCESS\<rparr>))))))"

definition AxDispatchDeviceControl :: "(bool \<Rightarrow> unit res) \<Rightarrow> 'd option \<Rightarrow> irp option \<Rightarrow> (ntstatus \<times> irp option) res" where
  "AxDispatchDeviceControl nt_assert device request =
    and_then (nt_assert (device \<noteq> None)) (\<lambda>_. and_then (nt_assert (request \<noteq> None)) (\<lambda>_.
      if device = None then Inr (STATUS_INVALID_PARAMETER_1, request)
      else if request = None then Inr (STATUS_INVALID_PARAMETER_2, request)
      else and_then (deref request) (\<lambda>i.
        Inr (STATUS_SUCCESS, Some (IoCompleteRequest (i\<lparr>io_status := STATUS_SUCCESS\<rparr>))))))"

text \<open>
  \<^verbatim>\<open>__cpuid\<close> stores the four registers, 16 bytes, at its first argument. The result carries whether
  the message says that virtualisation is supported; the meta error of \<^verbatim>\<open>AX_SUCC\<close> is 0.
\<close>

definition AxDispatchCreate ::
  "(bool \<Rightarrow> unit res) \<Rightarrow> (nat \<Rightarrow> u8 list) \<Rightarrow> (nat \<Rightarrow> u8 list) \<Rightarrow> 'd option \<Rightarrow> irp option
     \<Rightarrow> (ntstatus \<times> bool \<times> irp option) res" where
  "AxDispatchCreate nt_assert axmalloc cpuid device request =
    and_then (nt_assert (device \<noteq> None)) (\<lambda>_. and_then (nt_assert (request \<noteq> None)) (\<lambda>_.
    and_then (buf_write (axmalloc 4) 0 (cpuid 1)) (\<lambda>cpu_info.
    and_then (buf_read cpu_info 8 4) (\<lambda>ecx.
    and_then (deref request) (\<lambda>i.
      Inr (STATUS_SUCCESS, le32 ecx AND BIT 5 \<noteq> 0, Some (IoCompleteRequest i)))))))"

section \<open>Verification of the caller (security/verify.c)\<close>

text \<open>
  What \<^verbatim>\<open>verify_proc\<close> holds of the system: allocations that were not freed and files that are open. The
  pointer \<^verbatim>\<open>proc_name\<close> first holds the allocation of the function, then what \<^verbatim>\<open>SeLocateProcessImageName\<close> stores
  in it. The result type of the utility library, its macros and the results of the calls are parameters.
\<close>

datatype allocation = Name_Buffer | Image_Name | Text_Buffer

record proc_state =
  live :: "allocation list"
  open_files :: nat

record 'r verify_env =
  ax_succ :: 'r
  set_meta_err :: "'r \<Rightarrow> ntstatus \<Rightarrow> 'r"
  ax_err_meta :: "'r \<Rightarrow> bool"
  se_locate :: "ntstatus \<times> allocation"
  io_fo :: 'r
  io_fr :: 'r

definition axalloc :: "allocation \<Rightarrow> proc_state \<Rightarrow> proc_state" where
  "axalloc a s = s\<lparr>live := a # live s\<rparr>"

definition axfree :: "allocation \<Rightarrow> proc_state \<Rightarrow> proc_state" where
  "axfree a s = s\<lparr>live := remove1 a (live s)\<rparr>"

text \<open>\<^verbatim>\<open>SeLocateProcessImageName\<close> allocates the name it stores; when it stores none the pointer keeps its value.\<close>

definition locate_name :: "allocation \<Rightarrow> proc_state \<Rightarrow> proc_state" where
  "locate_name a s = (if a = Name_Buffer then s else axalloc a s)"

definition verify_proc :: "'r verify_env \<Rightarrow> 'p option \<Rightarrow> proc_state \<Rightarrow> 'r \<times> proc_state" where
  "verify_proc env proc s =
    (if proc = None then (set_meta_err env (ax_succ env) STATUS_INVALID_PARAMETER_1, s)
     else
      (let s = axalloc Name_Buffer s;
           (status, proc_name) = se_locate env;
           s = locate_name proc_name s;
           res = set_meta_err env (ax_succ env) status
       in if ax_err_meta env res then (res, axfree proc_name s)
          else
           (let res = io_fo env;
                s = (if ax_err_meta env res then s else s\<lparr>open_files := open_files s + 1\<rparr>);
                s = axfree proc_name s
            in if ax_err_meta env res then (res, s)
               else
                (let s = axalloc Text_Buffer s;
                     res = io_fr env;
                     s' = (axfree Text_Buffer s)\<lparr>open_files := open_files s - 1\<rparr>
                 in if ax_err_meta env res then (res, s') else (ax_succ env, s')))))"

text \<open>
  \<^verbatim>\<open>verify_proc\<close> closes the file it opens on every path. When the system stores a name, the buffer allocated for
  it is never freed, whatever happens after; and the function succeeds for every process whose name can be
  located, as long as its own fixed file can be read.
\<close>

theorem verify_proc_outcome:
  assumes "se_locate env = (status, Image_Name)"
  shows "case verify_proc env (Some p) s of (res, s') \<Rightarrow>
      open_files s' = open_files s \<and> live s' = Name_Buffer # live s \<and>
      (\<not> ax_err_meta env (set_meta_err env (ax_succ env) status) \<and> \<not> ax_err_meta env (io_fo env) \<and> \<not> ax_err_meta env (io_fr env)
        \<longrightarrow> res = ax_succ env)"
  using assms by (simp add: verify_proc_def Let_def axalloc_def axfree_def locate_name_def)

theorem verify_proc_outcome_witness:
  "verify_proc \<lparr>ax_succ = 0 :: u32, set_meta_err = (\<lambda>_ st. st), ax_err_meta = (\<lambda>r. r \<noteq> 0), se_locate = (0, Image_Name), io_fo = 0, io_fr = 0\<rparr>
     (Some ()) \<lparr>live = [], open_files = 0\<rparr> = (0, \<lparr>live = [Name_Buffer], open_files = 0\<rparr>)"
  using verify_proc_outcome [where env = "\<lparr>ax_succ = 0 :: u32, set_meta_err = (\<lambda>_ st. st), ax_err_meta = (\<lambda>r. r \<noteq> 0), se_locate = (0, Image_Name), io_fo = 0, io_fr = 0\<rparr>"
      and p = "()" and s = "\<lparr>live = [], open_files = 0\<rparr>"]
  by (auto split: prod.splits)

section \<open>Properties\<close>

text \<open>
  The driver as it is. Its entry routine always reports \<^verbatim>\<open>STATUS_NOT_IMPLEMENTED\<close> and registers nothing.
  The setup behind that statement either succeeds with device, link and all three handlers, and then the
  unload routine removes device and link again, or leaves the state as it was. The handlers of close and
  control complete a request once and with success. The handler of create writes the 16 bytes of \<^verbatim>\<open>cpuid\<close> to
  a buffer of 4 bytes, before it completes the request.
\<close>

theorem driver_outcome:
  assumes "nt_assert True = Inr ()" "length (axmalloc 4) = 4" "length (cpuid 1) = 16"
  shows "DriverEntry create link s = (STATUS_NOT_IMPLEMENTED, s) \<and>
    (case driver_setup create link s of (r, s') \<Rightarrow>
       if NT_SUCCESS create \<and> NT_SUCCESS link
       then r = STATUS_SUCCESS \<and> io_device s' \<and> io_link s' \<and> dom (drv_major s') = UNIV \<and>
         \<not> io_device (DriverUnload s') \<and> \<not> io_link (DriverUnload s')
       else r = STATUS_FAILED_DRIVER_ENTRY \<and> s' = (if NT_SUCCESS create then s\<lparr>io_device := False\<rparr> else s)) \<and>
    AxDispatchClose nt_assert (Some d) (Some i) = Inr (STATUS_SUCCESS, Some \<lparr>io_status = STATUS_SUCCESS, completions = completions i + 1\<rparr>) \<and>
    AxDispatchDeviceControl nt_assert (Some d) (Some i) = Inr (STATUS_SUCCESS, Some \<lparr>io_status = STATUS_SUCCESS, completions = completions i + 1\<rparr>) \<and>
    AxDispatchCreate nt_assert axmalloc cpuid (Some d) (Some i) = Inl Out_Of_Bounds"
proof -
  have "m \<in> {IRP_MJ_DEVICE_CONTROL, IRP_MJ_CREATE, IRP_MJ_CLOSE}" for m by (cases m) simp_all
  then have "dom (f(IRP_MJ_DEVICE_CONTROL \<mapsto> x, IRP_MJ_CREATE \<mapsto> y, IRP_MJ_CLOSE \<mapsto> z)) = UNIV" for f and x y z :: dispatch
    by (auto split: if_splits)
  with assms show ?thesis
    by (cases i)
      (simp add: DriverEntry_def driver_setup_def DriverUnload_def AxDispatchClose_def AxDispatchDeviceControl_def
        AxDispatchCreate_def IoCompleteRequest_def buf_write_def Let_def del: dom_fun_upd)
qed

theorem driver_outcome_witness:
  "AxDispatchCreate (\<lambda>b. if b then Inr () else Inl Assert_Fail) (\<lambda>n. replicate n 0) (\<lambda>_. replicate 16 0)
     (Some ()) (Some \<lparr>io_status = 0, completions = 0\<rparr>) = Inl Out_Of_Bounds"
  using driver_outcome [of "\<lambda>b. if b then Inr () else Inl Assert_Fail" "\<lambda>n. replicate n 0" "\<lambda>_. replicate 16 0"
      0 0 "\<lparr>io_device = False, io_link = False, drv_unload = False, drv_major = \<lambda>_. None\<rparr>" "()" "\<lparr>io_status = 0, completions = 0\<rparr>"]
  by simp

end
