(* ===== verification/Spec2Isabelle.thy ===== *)
theory Spec2Isabelle
  imports Main_Program Block_Props Emit_Suite Sync_Race Bitpool_Props Pipeline Block_Log I64_Decode Quad_Words Perf Driver
begin

text \<open>
  Verification of the micro translation engine \<^verbatim>\<open>src/win64/user/src/mte\<close>. Paths below are relative
  to that directory.

  \<^bold>\<open>The program.\<close> The engine translates guest machine code to host machine code. A translation
  context holds a guest and a host buffer and the calls of the two architectures. A block of guest
  code goes through three passes: a liveness scan, the conversion to an intermediate representation
  (IR) with host registers, and the emission of host code. MIPS32 is the guest and Intel 64 the host
  the sources implement. Beside this synchronous path there is a pipeline: a scheduler thread takes
  payloads from a queue of prioritised buckets and gives them to rows, each of which runs a thread
  that takes its payload through four banks and calls a translation. Around the engine there are the
  program \<^verbatim>\<open>../main.c\<close>, the test suite of the emitter, and a kernel driver whose entry routine does not
  get past its first statement.

  \<^bold>\<open>The base.\<close> \<open>Prelude\<close> has the integer types (words of the widths of the C types), the result
  type \<open>res\<close> of calls that can stop the program (a null pointer, an access out of bounds, a failed
  assertion, a call of \<^verbatim>\<open>exit\<close>, a division by zero, a loop that never ends), and what the theories
  share on words and lists. A pointer the code compares with \<^verbatim>\<open>nullptr\<close> is an \<open>option\<close>, memory behind
  a pointer is its contents, and a C array is a list whose accesses \<open>arr\<close> and \<open>arr_set\<close> check.
  \<open>Arch\<close> is \<^verbatim>\<open>arch.h\<close>, \<^verbatim>\<open>cpu.h\<close>, \<^verbatim>\<open>core.h\<close>.

  \<^bold>\<open>Translation.\<close>
  \<^item> \<open>IR\<close>: \<^verbatim>\<open>ir/ir_opcode.h\<close>, \<^verbatim>\<open>ir_operand.h\<close>, \<^verbatim>\<open>ir_instr.h\<close>, the 16-bit opcodes and the instructions.
  \<^item> \<open>IR_Context\<close>, \<open>IR_Create\<close>: \<^verbatim>\<open>ir/ir.h\<close>, \<^verbatim>\<open>ir.c\<close>, the record \<open>ir_context\<close> and \<open>ir_create\<close>.
  \<^item> \<open>MIPS32\<close>: \<^verbatim>\<open>asm/mips\<close>, instruction fields, \<open>mips32_to_ir\<close>, \<open>mips32_reg_fetch\<close>, the registers.
  \<^item> \<open>I64_Instr\<close>, \<open>I64_Emit\<close>: \<^verbatim>\<open>asm/intel/instr\<close>, \<^verbatim>\<open>tables\<close>, \<^verbatim>\<open>emitter\<close>, the opcodes with their
    metadata and \<open>i64_emit_64\<close> with the operand summary and the REX, ModRM and SIB resolvers.
  \<^item> \<open>X86_Spec\<close> models no code: it is the decoder and the register machine of the Intel 64
    instructions in use, after the manual. \<open>I64_Encode\<close> holds the emitter against it for register operands,
    \<open>I64_Memory\<close> for memory operands, with a base alone and with index, scale and displacement.
    \<open>Emit_Suite\<close> is \<^verbatim>\<open>emitter/test_suite.c\<close>, its thirty cases and what each of them decodes to.
  \<^item> \<open>I64_Tables\<close>: \<^verbatim>\<open>emitter/i64_immd.h\<close>, \<^verbatim>\<open>emitter/i64_modrm.h\<close>, \<^verbatim>\<open>tables/i64_immd_tables.c\<close>,
    \<^verbatim>\<open>i64_modrm_tables.c\<close>, \<^verbatim>\<open>i64_qtables.c\<close>, the tables of the decoder, which creating a context with an
    Intel 64 register map loads. \<open>I64_Decode\<close> is the decoder of \<^verbatim>\<open>asm/intel/instr/i64_instr.h\<close> that reads
    them, and \<open>Quad_Words\<close> the string helpers of \<^verbatim>\<open>asm/decode_u64.h\<close>; the sources keep both disabled with
    \<^verbatim>\<open>#if 0\<close>.
  \<^item> \<open>I64_IR\<close>: \<^verbatim>\<open>asm/intel/i64_ir.h\<close>, \<^verbatim>\<open>i64_ir.c\<close>, \<^verbatim>\<open>tables/i64_ir_tables.c\<close>, the lowering of one IR
    instruction, \<open>i64_ir_to_raw\<close>.
  \<^item> \<open>Asm_Alloc\<close>, \<open>Asm_Fix\<close>: \<^verbatim>\<open>ir/tblock/asm\<close>, the register allocator, the association of guest with
    host registers, the fixing and expansion of instructions, the flush of dead registers. The tables
    of a block (\<open>assoc\<close>, \<open>state\<close>, \<open>liveness\<close>) are lists of \<^verbatim>\<open>IR_REG_LIMIT\<close> entries. \<open>Reg_Maps\<close> has the
    register maps of the two machines.
  \<^item> \<open>TBlock\<close>: \<^verbatim>\<open>ir/tblock\<close>, the record \<open>tblock\<close>, the pass loop, the three passes. \<open>tblock_emit\<close> calls
    them in turn.
  \<^item> \<open>Translate\<close>, \<open>Passes\<close>: the passes with MIPS32 and Intel 64 in the call slots, up to the
    simulation between guest and host. \<open>Block_Tables\<close> follows the tables of a block to the end of a
    conversion. \<open>Asm_Props\<close> and \<open>Block_Props\<close> state the properties of these parts. \<open>Block_Log\<close> is
    \<^verbatim>\<open>ir/tblock/tblock_debug.h\<close>, the log of a block.
  \<^item> \<open>Main_Example\<close> is the guest program of \<^verbatim>\<open>../main.c\<close>, \<open>Main_Program\<close> its function \<^verbatim>\<open>main\<close>.

  The loop of a pass advances by the length the called function reports. \<open>pass_loop\<close> recurses on the
  distance to the end of the block; a step of length 0 fails the assertion in the loop. For MIPS32
  guests every step has length 4, so every pass ends.

  \<^bold>\<open>Pipeline.\<close>
  \<^item> \<open>Slots\<close>: the locales \<open>slot_pool\<close> and \<open>slot_pool_release\<close>, the contract of a provider of numbered
    slots, and what a client that claims several of them can rely on. \<open>Sync_Map\<close> and \<open>Bitpool\<close>
    interpret them.
  \<^item> \<open>Sync_Map\<close>: \<^verbatim>\<open>pipe/sync_map.h\<close>, \<^verbatim>\<open>sync_map.c\<close>, bitmaps of 64-bit quads on a heap that descriptors
    and references share, and both searches, with their specification on sets of indices.
    \<open>Sync_Race\<close> cuts the search for a clear bit at its atomic accesses (\<open>sig_step\<close>) and interleaves any
    number of calls (\<open>race_step\<close>, and \<open>race_exec\<close> for a given schedule). Every call is done after one access more
    than the bitmap has quads.
  \<^item> \<open>Bitpool\<close>, \<open>Bitpool_Props\<close>: \<^verbatim>\<open>pipe/bitpool.h\<close>, \<^verbatim>\<open>bitpool.c\<close>, buckets in four priority ranges of a
    bitmap, with counters per priority. The code computes the sizes of the ranges in double precision
    and rounds them; \<open>perc_bits\<close> rounds the exact value, which is a multiple of 1/25 and so stays
    further from every half than the floating point error reaches.
  \<^item> \<open>Vrow\<close>: \<^verbatim>\<open>pipe/vrow*.h\<close>, \<^verbatim>\<open>vrow*.c\<close>, rows, banks and one round of the thread of a row.
  \<^item> \<open>Sched\<close>: \<^verbatim>\<open>pipe/sched.h\<close>, \<^verbatim>\<open>sched.c\<close>, creation, deletion, push, pop and one round of the scheduler.
  \<^item> \<open>Pipeline\<close>: clients, scheduler and rows together, as a step relation over their calls and rounds
    (\<open>pipe_step\<close>), with the payloads accepted and those a row's thread took through its round as histories. Conservation
    holds for any translator; that rounds return and that the work can be finished is stated for \<open>mips32_to_ir\<close>, in
    terms of the instruction words the payloads hold.

  A function of the pipeline that waits in a loop for another thread has the value \<open>Diverges\<close> when no
  other thread runs and the condition does not hold. The operations of \<open>Bitpool\<close>, \<open>Vrow\<close> and \<open>Sched\<close>
  are the sequential functions; the interleavings modelled are those of \<open>Pipeline\<close>, between whole calls and
  rounds, those of \<open>Sync_Race\<close>, between atomic accesses, and of a push between the two halves of a scheduler
  round in \<open>Sched\<close>.

  \<^bold>\<open>Driver and measurements.\<close> \<open>Driver\<close> is \<^verbatim>\<open>src/win64/kernel/src\<close>: \<^verbatim>\<open>init.c\<close>, \<^verbatim>\<open>dispatch\<close> and \<^verbatim>\<open>security/verify.c\<close>, over
  what the driver registers with the system, the requests it completes and the allocations it makes. \<open>Perf\<close> is
  \<^verbatim>\<open>perf.h\<close> and \<^verbatim>\<open>perf_win64.c\<close>, the measurement of the two frequencies.

  \<^bold>\<open>What is shown.\<close>
  \<^item> Translation: a block converted under one conflict-free association table leaves host code that
    simulates the guest code. The program of \<^verbatim>\<open>main.c\<close> is such a block; every round of \<^verbatim>\<open>main\<close> writes the expected
    code when the rest of the guest block is zero, and the verdict is the expected one when the fresh host memory is. The
    conversion of register instructions always ends, stays within the IR buffer, never faults and leaves empty
    tables; other instructions stop the program.
  \<^item> Encoding: the emitted bytes decode to the instruction asked for, for all register pairs in one
    direction, and in the other except when exactly one of the two registers is extended. Memory operands are
    encoded as asked for except in the cases the theorems list. The stores into the emitter's buffer are checked: it
    needs at most 11 cells and leaves the rest of the buffer alone. The tables of one-byte opcodes are compared
    with the opcode map of the manual. The disabled decoder reads what the emitter writes for register operands and
    agrees with the reference decoder except that negative displacements of one byte come out too large by 256; the
    search for a byte with word arithmetic is the search byte by byte, and for a byte that is not in the string its result
    depends on uncleared memory.
  \<^item> Allocation: the allocator returns the first free register of a role; filling keeps the
    association invariant; flushing does not, because it frees by guest register number.
  \<^item> Bitmaps: both searches against the first index of their set; the interleaved searches stay in
    range, fault-free and wait-free, and two of them may return the same index.
  \<^item> Pools, rows, scheduler: the ranges tile the bitmap, the counters agree with the bitmap, payloads
    are delivered unchanged and in the order of priorities; where they are not (a full real-time
    range, a push that races with a round, a thread that cannot be created, a row whose thread has ended) a
    theorem says so; after the race the lower priorities starve. Calls and rounds in any order neither lose nor duplicate a
    payload, no round waits for another thread, a round of a row stops only at the translator's assertion, and accepted payloads
    of register instructions can always be finished.

  \<^bold>\<open>Parameters.\<close> The contents of memory returned by the allocator, the vector stores the bucket
  functions use, the layout of the platform's thread type, the results of the thread library and of the calls
  of the operating system, operations on floating point numbers, and the checks \<^verbatim>\<open>axcheck\<close>, \<^verbatim>\<open>NT_ASSERT\<close>, the comparison and
  the address macros of the utility library are arguments of the definitions. The theorems name what they use of them:
  that the comparison of \<^verbatim>\<open>main\<close> tests the first 200 bytes for equality, that \<^verbatim>\<open>n_mask(1)\<close> is the mask of one byte, that a
  vector store copies its bytes, and that a \<^verbatim>\<open>mte_raw_instr\<close> is a four-byte tag followed by its payload.

  \<^bold>\<open>Not modelled.\<close> The parts of \<^verbatim>\<open>main.c\<close> disabled with \<^verbatim>\<open>#if 0\<close>, which try out single functions. The macros of
  \<^verbatim>\<open>perf.h\<close> that print times, and the functions that prefetch tables, have no effect on the state. Memory orders
  weaker than sequential consistency are not modelled. What remains of the headers is declarations and comments.
\<close>

end
